(* ===== verification/Prelude.thy ===== *)
theory Prelude
  imports Complex_Main "HOL-Library.AList" "HOL-Library.Sublist"
begin

text \<open>
  What every component shares: Python's strings, exceptions and dictionaries, the JSON values
  the program passes around, and the generic facts about them.

  A Python \<open>str\<close> is a list of code points (\<open>pystr\<close>), so \<open>len\<close> and slices count what Python
  counts; \<open>pstr ''abc''\<close> is the literal \<open>"abc"\<close>. A \<open>bytes\<close> value is a HOL \<open>string\<close>, whose
  characters are bytes. A \<open>dict\<close> is an association list in insertion order: \<open>d.get(k)\<close> is
  \<open>map_of d k\<close>, \<open>d[k] = v\<close> is \<open>AList.update k v d\<close> (in place, or at the end for a new key) and
  \<open>d.pop(k, None)\<close> is \<open>AList.delete k d\<close>. A call that may raise returns \<open>exn + 'a\<close>.
\<close>

named_theorems dict_simps \<open>lookups and keys of dictionaries after an operation\<close>
named_theorems frame_simps \<open>fields an operation does not write\<close>

section \<open>Strings\<close>

type_synonym pystr = "nat list"
type_synonym bytes = string

definition pstr :: "string \<Rightarrow> pystr" where
  "pstr s = map of_char s"

lemma pstr_eq_iff [simp]: "pstr a = pstr b \<longleftrightarrow> a = b"
  by (simp add: pstr_def inj_map_eq_map inj_on_def)

lemma pstr_Nil [simp]: "pstr [] = []"
  by (simp add: pstr_def)

lemma pstr_eq_Nil [simp]: "pstr s = [] \<longleftrightarrow> s = []"
  by (simp add: pstr_def)

lemma pstr_append: "pstr (a @ b) = pstr a @ pstr b"
  by (simp add: pstr_def)

abbreviation newline :: nat where "newline \<equiv> 10"
abbreviation slash :: nat where "slash \<equiv> 47"
abbreviation dot :: nat where "dot \<equiv> 46"

text \<open>\<open>sep.join(parts)\<close>.\<close>

fun py_join :: "pystr \<Rightarrow> pystr list \<Rightarrow> pystr" where
  "py_join sep [] = []"
| "py_join sep [x] = x"
| "py_join sep (x # y # ys) = x @ sep @ py_join sep (y # ys)"

text \<open>\<open>s.split(c)\<close> for a one-character separator.\<close>

fun py_split :: "nat \<Rightarrow> pystr \<Rightarrow> pystr list" where
  "py_split c [] = [[]]"
| "py_split c (x # xs) =
     (if x = c then [] # py_split c xs
      else (case py_split c xs of [] \<Rightarrow> [[x]] | p # ps \<Rightarrow> (x # p) # ps))"

lemma py_split_not_Nil [simp]: "py_split c s \<noteq> []"
  by (cases s) (auto split: list.splits)

lemma py_split_noc: "c \<notin> set p \<Longrightarrow> py_split c p = [p]"
  by (induction p) auto

lemma py_split_append:
  "c \<notin> set p \<Longrightarrow> py_split c (p @ c # s) = p # py_split c s"
  by (induction p) auto

lemma py_split_join:
  "ps \<noteq> [] \<Longrightarrow> \<forall>p \<in> set ps. c \<notin> set p \<Longrightarrow> py_split c (py_join [c] ps) = ps"
proof (induction ps)
  case (Cons p ps)
  then show ?case by (cases ps) (auto simp: py_split_noc py_split_append)
qed simp

text \<open>\<open>s.count(c)\<close> and \<open>s.rfind(c)\<close> for one character; \<open>rfind\<close> is \<open>-1\<close> when there is none.\<close>

definition py_count :: "nat \<Rightarrow> pystr \<Rightarrow> nat" where
  "py_count c s = length (filter ((=) c) s)"

lemma length_py_split: "length (py_split c s) = py_count c s + 1"
  by (induction s) (auto simp: py_count_def split: list.splits)

lemma py_join_split: "py_join [c] (py_split c s) = s"
proof (induction s)
  case (Cons x s)
  obtain p ps where p: "py_split c s = p # ps" by (cases "py_split c s") auto
  with Cons have "py_join [c] (p # ps) = s" by simp
  with p show ?case by (cases ps) auto
qed simp

lemma py_split_at: "py_split c (a @ c # b) = py_split c a @ py_split c b"
proof (induction a)
  case (Cons x a)
  then show ?case by (cases "py_split c a") auto
qed simp

fun py_rfind :: "nat \<Rightarrow> pystr \<Rightarrow> int" where
  "py_rfind c [] = -1"
| "py_rfind c (x # xs) =
     (let r = py_rfind c xs in if 0 \<le> r then r + 1 else if x = c then 0 else -1)"

lemma py_rfind_ge: "-1 \<le> py_rfind c s"
  by (induction s) (auto simp: Let_def)

lemma py_rfind_neg_iff: "py_rfind c s < 0 \<longleftrightarrow> c \<notin> set s"
  by (induction s) (auto simp: Let_def)

lemma py_rfind_split:
  "0 \<le> py_rfind c s \<Longrightarrow>
    s = take (nat (py_rfind c s)) s @ c # drop (Suc (nat (py_rfind c s))) s
    \<and> c \<notin> set (drop (Suc (nat (py_rfind c s))) s)"
proof (induction s)
  case (Cons x xs)
  show ?case
  proof (cases "0 \<le> py_rfind c xs")
    case True
    with Cons.IH show ?thesis by (auto simp: Let_def nat_add_distrib)
  next
    case False
    then have "c \<notin> set xs" using py_rfind_neg_iff [of c xs] by simp
    with False Cons.prems show ?thesis by (auto simp: Let_def split: if_splits)
  qed
qed simp

lemma py_rfind_lt: "py_rfind c s < int (length s)"
  by (induction s) (auto simp: Let_def)

text \<open>The prefix slice \<open>s[:n]\<close>; a negative bound counts from the end.\<close>

definition py_prefix :: "int \<Rightarrow> 'a list \<Rightarrow> 'a list" where
  "py_prefix n s = take (nat (if n < 0 then n + int (length s) else n)) s"

lemma py_prefix_nonneg [simp]: "0 \<le> n \<Longrightarrow> py_prefix n s = take (nat n) s"
  by (simp add: py_prefix_def)

text \<open>
  \<open>s.lower()\<close> where the result is compared with ASCII words. The case mapping is Python's on U+0000 to U+00FF; code
  points above, of which only U+0130 and U+212A have an ASCII letter in their lower case, are left as they are.
\<close>

definition lower_point :: "nat \<Rightarrow> nat" where
  "lower_point c =
     (if 65 \<le> c \<and> c \<le> 90 \<or> (192 \<le> c \<and> c \<le> 222 \<and> c \<noteq> 215) then c + 32 else c)"

definition py_lower :: "pystr \<Rightarrow> pystr" where
  "py_lower s = map lower_point s"

lemma py_lower_Nil [simp]: "py_lower [] = []"
  by (simp add: py_lower_def)

lemma lower_point_idem [simp]: "lower_point (lower_point c) = lower_point c"
  by (simp add: lower_point_def)

lemma py_lower_idem [simp]: "py_lower (py_lower s) = py_lower s"
  by (simp add: py_lower_def)

text \<open>\<open>needle in s\<close> on strings.\<close>

fun py_in :: "pystr \<Rightarrow> pystr \<Rightarrow> bool" where
  "py_in needle [] = (needle = [])"
| "py_in needle (x # xs) =
     (take (length needle) (x # xs) = needle \<or> py_in needle xs)"

lemma take_length_eq_prefix: "take (length p) s = p \<longleftrightarrow> prefix p s"
proof
  assume "take (length p) s = p"
  then show "prefix p s" by (metis take_is_prefix)
qed (auto simp: prefix_def)

lemma py_in_iff_sublist: "py_in needle s \<longleftrightarrow> sublist needle s"
proof (induction s)
  case (Cons x xs)
  have "py_in needle (x # xs) \<longleftrightarrow> prefix needle (x # xs) \<or> py_in needle xs"
    by (simp only: py_in.simps take_length_eq_prefix)
  with Cons show ?case by (simp only: sublist_Cons_right)
qed simp

text \<open>\<open>s.replace(old, new)\<close> for a non-empty \<open>old\<close>: leftmost matches, left to right.\<close>

function py_replace :: "pystr \<Rightarrow> pystr \<Rightarrow> pystr \<Rightarrow> pystr" where
  "py_replace old new [] = []"
| "py_replace old new (c # cs) =
     (if old \<noteq> [] \<and> take (length old) (c # cs) = old
      then new @ py_replace old new (drop (length old) (c # cs))
      else c # py_replace old new cs)"
  by pat_completeness auto
termination
  by (relation "measure (\<lambda>(old, new, s). length s)") (auto simp: neq_Nil_conv)

section \<open>Exceptions\<close>

datatype exn_kind =
    KeyError | ValueError | TypeError | AttributeError | IndexError | AssertionError
  | FileNotFoundError | FileExistsError | NotADirectoryError | IsADirectoryError | PermissionError | RuntimeError | ProgrammingError | CalledProcessError
  | UnicodeError | ConfigurationError | ValidationError | OtherException

datatype exn = Exn (kind_of: exn_kind) (exn_str: pystr)

type_synonym 'a res = "exn + 'a"

fun bindR :: "'a res \<Rightarrow> ('a \<Rightarrow> 'b res) \<Rightarrow> 'b res" where
  "bindR (Inl e) f = Inl e"
| "bindR (Inr x) f = f x"

lemma bindR_Inr_iff: "bindR r f = Inr y \<longleftrightarrow> (\<exists>x. r = Inr x \<and> f x = Inr y)"
  by (cases r) auto

lemma bindR_Inl_iff: "bindR r f = Inl e \<longleftrightarrow> r = Inl e \<or> (\<exists>x. r = Inr x \<and> f x = Inl e)"
  by (cases r) auto

lemma not_isl: "\<not> isl r \<Longrightarrow> \<exists>x. r = Inr x"
  by (cases r) auto

fun mapR :: "('a \<Rightarrow> 'b res) \<Rightarrow> 'a list \<Rightarrow> 'b list res" where
  "mapR f [] = Inr []"
| "mapR f (x # xs) = bindR (f x) (\<lambda>y. bindR (mapR f xs) (\<lambda>ys. Inr (y # ys)))"

lemma mapR_length: "mapR f xs = Inr ys \<Longrightarrow> length ys = length xs"
  by (induction xs arbitrary: ys) (auto simp: bindR_Inr_iff)

lemma mapR_nth: "mapR f xs = Inr ys \<Longrightarrow> i < length xs \<Longrightarrow> f (xs ! i) = Inr (ys ! i)"
proof (induction xs arbitrary: ys i)
  case (Cons x xs)
  then show ?case by (cases i) (auto simp: bindR_Inr_iff)
qed simp

lemma mapR_all_Inr: "(\<And>x. x \<in> set xs \<Longrightarrow> f x = Inr (g x)) \<Longrightarrow> mapR f xs = Inr (map g xs)"
  by (induction xs) auto

text \<open>
  Statements run one after the other on a state, until one raises. The state is also handed back
  then: what was done before the exception stays done.
\<close>

fun run_all :: "('s \<Rightarrow> 's \<times> unit res) list \<Rightarrow> 's \<Rightarrow> 's \<times> unit res" where
  "run_all [] s = (s, Inr ())"
| "run_all (f # fs) s = (case f s of (s', Inl e) \<Rightarrow> (s', Inl e) | (s', Inr u) \<Rightarrow> run_all fs s')"

lemma run_all_inv:
  "(\<And>f s. f \<in> set fs \<Longrightarrow> P s \<Longrightarrow> P (fst (f s))) \<Longrightarrow> P s \<Longrightarrow> P (fst (run_all fs s))"
proof (induction fs arbitrary: s)
  case (Cons f fs)
  obtain s' r where f: "f s = (s', r)" by (cases "f s")
  have "P s'" using Cons.prems(1) [of f s] Cons.prems(2) f by simp
  with Cons.IH [of s'] Cons.prems(1) f show ?case by (cases r) auto
qed simp

section \<open>JSON values and dictionaries\<close>

type_synonym ('k, 'v) dict = "('k \<times> 'v) list"

datatype json =
    JNull
  | JBool bool
  | JInt int
  | JFloat real
  | JStr pystr
  | JArr "json list"
  | JObj "(pystr \<times> json) list"

type_synonym pyobj = "(pystr, json) dict"

text \<open>\<open>bool(v)\<close>, \<open>len(v)\<close> and \<open>list(v)\<close>.\<close>

fun py_truthy :: "json \<Rightarrow> bool" where
  "py_truthy JNull = False"
| "py_truthy (JBool b) = b"
| "py_truthy (JInt i) = (i \<noteq> 0)"
| "py_truthy (JFloat r) = (r \<noteq> 0)"
| "py_truthy (JStr s) = (s \<noteq> [])"
| "py_truthy (JArr xs) = (xs \<noteq> [])"
| "py_truthy (JObj d) = (d \<noteq> [])"

fun py_len :: "json \<Rightarrow> nat res" where
  "py_len (JStr s) = Inr (length s)"
| "py_len (JArr xs) = Inr (length xs)"
| "py_len (JObj d) = Inr (length d)"
| "py_len v = Inl (Exn TypeError (pstr ''object has no len()''))"

fun py_iter :: "json \<Rightarrow> json list res" where
  "py_iter (JStr s) = Inr (map (\<lambda>c. JStr [c]) s)"
| "py_iter (JArr xs) = Inr xs"
| "py_iter (JObj d) = Inr (map (JStr \<circ> fst) d)"
| "py_iter v = Inl (Exn TypeError (pstr ''object is not iterable''))"

text \<open>\<open>d[k]\<close> and \<open>d.get(k, default)\<close>.\<close>

definition dict_index :: "('v, 'w) dict \<Rightarrow> ('v \<Rightarrow> pystr) \<Rightarrow> 'v \<Rightarrow> 'w res" where
  "dict_index d rep k = (case map_of d k of Some v \<Rightarrow> Inr v | None \<Rightarrow> Inl (Exn KeyError (rep k)))"

definition dict_get :: "('k, 'v) dict \<Rightarrow> 'k \<Rightarrow> 'v \<Rightarrow> 'v" where
  "dict_get d k v = (case map_of d k of Some x \<Rightarrow> x | None \<Rightarrow> v)"

abbreviation keys :: "('k, 'v) dict \<Rightarrow> 'k list" where
  "keys d \<equiv> map fst d"

abbreviation dict_ok :: "('k, 'v) dict \<Rightarrow> bool" where
  "dict_ok d \<equiv> distinct (keys d)"

lemma map_of_update [dict_simps]: "map_of (AList.update k v d) = (map_of d)(k \<mapsto> v)"
  by (rule ext) (simp add: update_conv)

lemma map_of_delete [dict_simps]: "map_of (AList.delete k d) = (map_of d)(k := None)"
  by (rule ext) (simp add: delete_conv)

lemma keys_update [dict_simps]: "fst ` set (AList.update k v d) = insert k (fst ` set d)"
  by (induction d) auto

lemma keys_delete [dict_simps]: "fst ` set (AList.delete k d) = fst ` set d - {k}"
  by (simp only: list.set_map [symmetric] delete_keys set_removeAll)

lemma dict_ok_update [dict_simps]: "dict_ok d \<Longrightarrow> dict_ok (AList.update k v d)"
  by (simp add: distinct_update)

lemma dict_ok_delete [dict_simps]: "dict_ok d \<Longrightarrow> dict_ok (AList.delete k d)"
  by (simp add: distinct_delete)

lemma map_of_None_iff: "map_of d k = None \<longleftrightarrow> k \<notin> set (keys d)"
  by (simp add: map_of_eq_None_iff)

lemma length_update_le: "length (AList.update k v d) \<le> Suc (length d)"
  by (induction d) auto

end
