(* ===== verification/Vault_Paths.thy ===== *)
theory Vault_Paths
  imports Prelude
begin

text \<open>
  Paths and the disk. \<open>pypath\<close> is \<open>pathlib\<close>'s \<open>PurePosixPath\<close> (root and parts, as the class
  stores them); \<open>world\<close> is what the operating system and graphify's two extractors, which read
  the file they are given, answer while one operation runs. On these: \<open>paths.py\<close> (the output
  paths) and \<open>vault_compiler/exclusions.py\<close> (which paths may enter a batch, vault confinement,
  and the scrubbing of log texts).
\<close>

section \<open>pathlib\<close>

datatype pypath = PyPath (path_root: pystr) (path_parts: "pystr list")

definition part_ok :: "pystr \<Rightarrow> bool" where
  "part_ok p \<longleftrightarrow> p \<noteq> [] \<and> slash \<notin> set p \<and> p \<noteq> [dot]"

text \<open>The values \<open>Path(...)\<close> produces: no empty or \<open>.\<close> part, and one of POSIX's three roots.\<close>

definition path_ok :: "pypath \<Rightarrow> bool" where
  "path_ok p \<longleftrightarrow> path_root p \<in> {[], [slash], [slash, slash]} \<and> list_all part_ok (path_parts p)"

definition path_str :: "pypath \<Rightarrow> pystr" where
  "path_str p = (if path_root p = [] \<and> path_parts p = [] then [dot]
                 else path_root p @ py_join [slash] (path_parts p))"

fun split_root :: "pystr \<Rightarrow> pystr \<times> pystr" where
  "split_root s =
     (if take 1 s \<noteq> [slash] then ([], s)
      else if take 2 s = [slash, slash] \<and> take 3 s \<noteq> [slash, slash, slash]
      then ([slash, slash], drop 2 s)
      else ([slash], drop 1 s))"

definition path_of_str :: "pystr \<Rightarrow> pypath" where
  "path_of_str s =
     (case split_root s of (r, rest) \<Rightarrow>
        PyPath r (filter (\<lambda>p. p \<noteq> [] \<and> p \<noteq> [dot]) (py_split slash rest)))"

text \<open>\<open>p / q\<close>: an absolute right operand replaces the left one.\<close>

definition path_join :: "pypath \<Rightarrow> pypath \<Rightarrow> pypath" where
  "path_join p q = (if path_root q \<noteq> [] then q else PyPath (path_root p) (path_parts p @ path_parts q))"

definition path_child :: "pypath \<Rightarrow> string \<Rightarrow> pypath" where
  "path_child p name = path_join p (path_of_str (pstr name))"

definition path_name :: "pypath \<Rightarrow> pystr" where
  "path_name p = (if path_parts p = [] then [] else last (path_parts p))"

definition path_suffix :: "pypath \<Rightarrow> pystr" where
  "path_suffix p =
     (let n = path_name p; i = py_rfind dot n
      in if 0 < i \<and> i < int (length n) - 1 then drop (nat i) n else [])"

definition is_relative_to :: "pypath \<Rightarrow> pypath \<Rightarrow> bool" where
  "is_relative_to p base \<longleftrightarrow> path_root p = path_root base \<and> prefix (path_parts base) (path_parts p)"

definition relative_to :: "pypath \<Rightarrow> pypath \<Rightarrow> pypath res" where
  "relative_to p base =
     (if is_relative_to p base then Inr (PyPath [] (drop (length (path_parts base)) (path_parts p)))
      else Inl (Exn ValueError (path_str p @ pstr '' is not in the subpath of '' @ path_str base)))"

lemma path_join_rel [simp]: "path_join base (PyPath [] ps) = PyPath (path_root base) (path_parts base @ ps)"
  by (simp add: path_join_def)

lemma is_relative_to_join [simp]: "is_relative_to (path_join base (PyPath [] ps)) base"
  by (simp add: is_relative_to_def)

lemma relative_to_join [simp]: "relative_to (path_join base (PyPath [] ps)) base = Inr (PyPath [] ps)"
  by (simp add: relative_to_def is_relative_to_def)

lemma relative_to_Inr_iff: "relative_to p base = Inr r \<longleftrightarrow> path_root r = [] \<and> p = path_join base r"
proof
  assume "relative_to p base = Inr r"
  then show "path_root r = [] \<and> p = path_join base r"
    by (cases p) (auto simp: relative_to_def is_relative_to_def path_join_def prefix_def split: if_splits)
next
  assume "path_root r = [] \<and> p = path_join base r"
  then obtain ps where "r = PyPath [] ps" "p = path_join base (PyPath [] ps)" by (cases r) auto
  then show "relative_to p base = Inr r" by (simp only: relative_to_join)
qed

lemma relative_to_inj:
  "relative_to p base = Inr r \<Longrightarrow> relative_to q base = Inr r \<Longrightarrow> p = q"
  by (simp add: relative_to_Inr_iff)

lemma split_root_parts:
  assumes "path_ok p" "\<not> (path_root p = [] \<and> path_parts p = [])"
  shows "split_root (path_str p) = (path_root p, py_join [slash] (path_parts p))"
proof -
  let ?j = "py_join [slash] (path_parts p)"
  have "take 1 ?j \<noteq> [slash]"
  proof (cases "path_parts p")
    case (Cons q qs)
    with assms(1) have "q \<noteq> []" "hd q \<noteq> slash"
      by (auto simp: path_ok_def part_ok_def dest: hd_in_set)
    then have "take 1 (py_join [slash] (q # qs)) = [hd q]" by (cases q; cases qs) auto
    with Cons \<open>hd q \<noteq> slash\<close> show ?thesis by simp
  qed simp
  then have *: "\<And>n. take (Suc n) ?j = [] \<or> hd (take (Suc n) ?j) \<noteq> slash"
    by (cases ?j) auto
  from assms consider "path_root p = []" | "path_root p = [slash]" | "path_root p = [slash, slash]"
    by (auto simp: path_ok_def)
  then show ?thesis
  proof cases
    case 1
    with assms(2) \<open>take 1 ?j \<noteq> [slash]\<close> show ?thesis by (simp add: path_str_def)
  next
    case 2
    with * [of 0] show ?thesis by (cases ?j) (auto simp: path_str_def)
  next
    case 3
    with * [of 0] show ?thesis by (cases ?j) (auto simp: path_str_def numeral_3_eq_3 numeral_2_eq_2)
  qed
qed

text \<open>\<open>Path(str(p))\<close> is \<open>p\<close>: a cache key names exactly one path.\<close>

lemma path_of_str_of_path:
  assumes "path_ok p"
  shows "path_of_str (path_str p) = p"
proof (cases "path_parts p = []")
  case True
  show ?thesis
  proof (cases "path_root p = []")
    case noroot: True
    with True show ?thesis
      by (cases p) (simp add: path_of_str_def path_str_def)
  next
    case False
    with assms True split_root_parts [of p] show ?thesis
      by (cases p) (simp add: path_of_str_def)
  qed
next
  case False
  then have "split_root (path_str p) = (path_root p, py_join [slash] (path_parts p))"
    using assms split_root_parts [of p] by simp
  moreover have "py_split slash (py_join [slash] (path_parts p)) = path_parts p"
    using assms False by (intro py_split_join) (auto simp: path_ok_def part_ok_def list_all_iff)
  moreover have "filter (\<lambda>q. q \<noteq> [] \<and> q \<noteq> [dot]) (path_parts p) = path_parts p"
    using assms by (auto simp: path_ok_def part_ok_def list_all_iff intro!: filter_True)
  ultimately show ?thesis by (cases p) (simp add: path_of_str_def)
qed

lemma path_str_inj: "path_ok p \<Longrightarrow> path_ok q \<Longrightarrow> path_str p = path_str q \<Longrightarrow> p = q"
  using path_of_str_of_path by metis

lemma path_ok_relative_to: "path_ok p \<Longrightarrow> relative_to p base = Inr r \<Longrightarrow> path_ok r"
  by (cases r) (auto simp: relative_to_Inr_iff path_ok_def)

text \<open>A suffix is the last dot and what follows, with something before and after it.\<close>

lemma path_suffix_iff:
  assumes "e \<noteq> []" "dot \<notin> set e"
  shows "path_suffix p = dot # e \<longleftrightarrow> (\<exists>stem. stem \<noteq> [] \<and> path_name p = stem @ dot # e)"
proof
  assume "path_suffix p = dot # e"
  then show "\<exists>stem. stem \<noteq> [] \<and> path_name p = stem @ dot # e"
    by (intro exI [of _ "take (nat (py_rfind dot (path_name p))) (path_name p)"])
      (auto simp: path_suffix_def Let_def split: if_splits, metis append_take_drop_id)
next
  assume "\<exists>stem. stem \<noteq> [] \<and> path_name p = stem @ dot # e"
  then obtain stem where s: "stem \<noteq> []" "path_name p = stem @ dot # e" by blast
  have "py_rfind dot (stem @ dot # e) = int (length stem)"
  proof -
    have e: "py_rfind dot e < 0" using assms(2) py_rfind_neg_iff by simp
    show ?thesis by (induction stem) (use e in \<open>auto simp: Let_def\<close>)
  qed
  with s assms show "path_suffix p = dot # e" by (simp add: path_suffix_def Let_def)
qed

section \<open>paths.py\<close>

record daemon_paths =
  output_dir :: pypath

definition DEFAULT_OUTPUT_DIR_NAME :: string where
  "DEFAULT_OUTPUT_DIR_NAME = ''out''"

definition vault_index_db :: "daemon_paths \<Rightarrow> pypath" where
  "vault_index_db ps = path_child (output_dir ps) ''vault_index.db''"

definition graph_json :: "daemon_paths \<Rightarrow> pypath" where
  "graph_json ps = path_child (output_dir ps) ''graph.json''"

definition knowledge_md :: "daemon_paths \<Rightarrow> pypath" where
  "knowledge_md ps = path_child (output_dir ps) ''KNOWLEDGE.md''"

definition graph_cache_json :: "daemon_paths \<Rightarrow> pypath" where
  "graph_cache_json ps = path_child (output_dir ps) ''graph_cache.json''"

section \<open>The world an operation sees\<close>

record world =
  w_resolve :: "pypath \<Rightarrow> pypath res"          \<comment> \<open>\<open>path.resolve(strict=False)\<close>\<close>
  w_stat :: "pypath \<Rightarrow> (real \<times> int) res"       \<comment> \<open>\<open>st_mtime\<close> and \<open>st_size\<close> of \<open>path.stat()\<close>\<close>
  w_is_dir :: "pypath \<Rightarrow> bool"
  w_rglob :: "pypath \<Rightarrow> pypath list"           \<comment> \<open>\<open>base.rglob("*")\<close>\<close>
  w_extract_markdown :: "pypath \<Rightarrow> pyobj res"
  w_extract_python :: "pypath \<Rightarrow> pyobj res"
  w_repr :: "json \<Rightarrow> pystr"                   \<comment> \<open>\<open>repr\<close> of a float, list or dict\<close>

section \<open>exclusions.py\<close>

definition EXCLUDED_DIR_NAMES :: "pystr set" where
  "EXCLUDED_DIR_NAMES = set (map pstr [''.obsidian'', ''.trash'', ''node_modules'', ''.git'', ''__pycache__''])"

definition OBSERVED_SUFFIXES :: "pystr set" where
  "OBSERVED_SUFFIXES = set (map pstr [''.md'', ''.py''])"

definition is_excluded :: "pypath \<Rightarrow> pypath \<Rightarrow> pystr set \<Rightarrow> bool res" where
  "is_excluded path vault_root nested_repo_names =
     bindR (relative_to path vault_root) (\<lambda>relative.
       if path_suffix relative \<notin> OBSERVED_SUFFIXES then Inr True
       else let excluded_names = EXCLUDED_DIR_NAMES \<union> nested_repo_names
            in Inr (list_ex (\<lambda>part. part \<in> excluded_names) (path_parts relative)))"

definition resolve_within_vault :: "world \<Rightarrow> pypath \<Rightarrow> pypath \<Rightarrow> pypath option res" where
  "resolve_within_vault W path vault_root =
     bindR (w_resolve W vault_root) (\<lambda>resolved_root.
     bindR (w_resolve W path) (\<lambda>resolved_path.
       Inr (case relative_to resolved_path resolved_root of
              Inl e \<Rightarrow> None | Inr r \<Rightarrow> Some resolved_path)))"

definition VAULT_MARK :: pystr where
  "VAULT_MARK = pstr ''<vault>''"

definition sanitize_log_text :: "world \<Rightarrow> pystr \<Rightarrow> pypath \<Rightarrow> pystr res" where
  "sanitize_log_text W text vault_root =
     bindR (w_resolve W vault_root) (\<lambda>r.
       let resolved = path_str r; unresolved = path_str vault_root
       in Inr (py_replace unresolved VAULT_MARK (py_replace resolved VAULT_MARK text)))"

lemma is_excluded_Inr_iff:
  "is_excluded p base nested = Inr b \<longleftrightarrow>
     (\<exists>rel. relative_to p base = Inr rel \<and>
        b = (path_suffix rel \<notin> OBSERVED_SUFFIXES \<or>
             (\<exists>part \<in> set (path_parts rel). part \<in> EXCLUDED_DIR_NAMES \<union> nested)))"
  by (auto simp: is_excluded_def bindR_Inr_iff Let_def list_ex_iff)

lemma is_excluded_Inl_iff: "is_excluded p base nested = Inl e \<longleftrightarrow> relative_to p base = Inl e"
  by (auto simp: is_excluded_def bindR_Inl_iff Let_def)

lemma resolve_within_vault_Some_iff:
  "resolve_within_vault W p base = Inr (Some q) \<longleftrightarrow>
     (\<exists>r. w_resolve W base = Inr r \<and> w_resolve W p = Inr q \<and> is_relative_to q r)"
  by (auto simp: resolve_within_vault_def bindR_Inr_iff relative_to_def)

section \<open>What the replacement of a path leaves behind\<close>

lemma prefix_py_replace:
  "new \<noteq> [] \<Longrightarrow> prefix y (py_replace old new s) \<Longrightarrow> hd new \<notin> set y \<Longrightarrow> prefix y s"
proof (induction old new s arbitrary: y rule: py_replace.induct)
  case (2 old new c cs)
  show ?case
  proof (cases "y = [] \<or> (old \<noteq> [] \<and> take (length old) (c # cs) = old)")
    case True
    then show ?thesis
      using "2.prems" by (cases y; cases new) (auto split: if_splits)
  next
    case False
    with "2.prems" show ?thesis
      using "2.IH"(2) by (cases y) (auto split: if_splits)
  qed
qed simp

lemma sublist_appendD_hd:
  assumes "sublist x (new @ s)" "x \<noteq> []" "hd x \<notin> set new"
  shows "sublist x s"
  using assms
proof (induction new)
  case (Cons a new)
  then have "\<not> prefix x (a # new @ s)" by (cases x) auto
  with Cons show ?case by (auto simp: sublist_Cons_right)
qed simp

lemma py_replace_no_sublist:
  assumes "x \<noteq> []" "new \<noteq> []" "hd x \<notin> set new" "hd new \<notin> set x"
    and "old = x \<or> \<not> sublist x s"
  shows "\<not> sublist x (py_replace old new s)"
  using assms
proof (induction old new s rule: py_replace.induct)
  case (1 old new)
  then show ?case by simp
next
  case (2 old new c cs)
  show ?case
  proof (cases "old \<noteq> [] \<and> take (length old) (c # cs) = old")
    case True
    have "old = x \<or> \<not> sublist x (drop (length old) (c # cs))"
      using "2.prems"(5) by (metis sublist_drop sublist_order.order_trans)
    with True 2 have "\<not> sublist x (py_replace old new (drop (length old) (c # cs)))" by blast
    with True "2.prems" show ?thesis by (auto dest: sublist_appendD_hd)
  next
    case False
    have rest: "\<not> sublist x (py_replace old new cs)"
      using False 2 by (auto simp: sublist_Cons_right)
    have "\<not> prefix x (c # py_replace old new cs)"
    proof
      assume "prefix x (c # py_replace old new cs)"
      then obtain x' where x': "x = c # x'" "prefix x' (py_replace old new cs)"
        using "2.prems"(1) by (cases x) auto
      then have "prefix x' cs"
        using "2.prems" prefix_py_replace [of new x' old cs] by simp
      then have "prefix x (c # cs)" using x' by simp
      then show False
        using False "2.prems" by (auto simp: take_length_eq_prefix)
    qed
    with rest False show ?thesis by (auto simp: sublist_Cons_right)
  qed
qed

lemma py_replace_id: "\<not> sublist old s \<Longrightarrow> py_replace old new s = s"
proof (induction old new s rule: py_replace.induct)
  case (2 old new c cs)
  then have "\<not> prefix old (c # cs)" "\<not> sublist old cs" by (auto simp: sublist_Cons_right)
  with 2 show ?case by (simp add: take_length_eq_prefix)
qed simp

lemma VAULT_MARK_simps [simp]: "VAULT_MARK \<noteq> []" "hd VAULT_MARK = 60" "slash \<notin> set VAULT_MARK"
  by (simp_all add: VAULT_MARK_def pstr_def)

lemma path_str_absolute:
  "path_root p \<in> {[slash], [slash, slash]} \<Longrightarrow> path_str p \<noteq> [] \<and> hd (path_str p) = slash"
  by (auto simp: path_str_def)

section \<open>A small world, for closed examples\<close>

definition sample_root :: pypath where
  "sample_root = PyPath [slash] [pstr ''vault'']"

definition vault_file :: "string \<Rightarrow> pypath" where
  "vault_file name = PyPath [slash] [pstr ''vault'', pstr name]"

definition sample_doc :: "pypath \<Rightarrow> pyobj" where
  "sample_doc p = [(pstr ''nodes'', JArr [JObj [(pstr ''id'', JStr (path_name p))]]), (pstr ''edges'', JArr [])]"

text \<open>
  \<open>link.md\<close> is a symlink out of the vault, \<open>gone.md\<close> a file deleted after it was read,
  \<open>bad.md\<close> one that the extractor reports an error for, and \<open>*.py\<close> files make it raise.
\<close>

definition sample_world :: world where
  "sample_world =
     \<lparr>w_resolve = (\<lambda>p. if path_name p = pstr ''link.md'' then Inr (PyPath [slash] [pstr ''secret.md'']) else Inr p),
      w_stat = (\<lambda>p. if path_name p = pstr ''gone.md'' then Inl (Exn FileNotFoundError []) else Inr (7, 42)),
      w_is_dir = (\<lambda>p. path_suffix p = []),
      w_rglob = (\<lambda>p. [vault_file ''sub'', vault_file ''a.md'', vault_file ''link.md'', vault_file ''bad.md'']),
      w_extract_markdown = (\<lambda>p. if path_name p = pstr ''bad.md''
          then Inr [(pstr ''error'', JStr (pstr ''cannot read /vault/bad.md''))] else Inr (sample_doc p)),
      w_extract_python = (\<lambda>p. Inl (Exn OtherException (pstr ''boom''))),
      w_repr = (\<lambda>v. pstr ''?'')\<rparr>"

section \<open>Properties\<close>

text \<open>C35. No log text that \<open>sanitize_log_text\<close> returns contains the resolved absolute path of the
  vault, whatever the text was, as long as that path contains no \<open><\<close> (the first character of the
  marker put in its place).\<close>

theorem sanitized_text_hides_vault:
  assumes "sanitize_log_text W text base = Inr out" "w_resolve W base = Inr r"
    and "path_root r \<in> {[slash], [slash, slash]}" "60 \<notin> set (path_str r)"
  shows "\<not> py_in (path_str r) out"
proof -
  let ?x = "path_str r" and ?u = "path_str base"
  have x: "?x \<noteq> []" "hd ?x \<notin> set VAULT_MARK"
    using path_str_absolute [OF assms(3)] by auto
  have "\<not> sublist ?x (py_replace ?x VAULT_MARK text)"
    using x assms(4) by (intro py_replace_no_sublist) auto
  then have "\<not> sublist ?x (py_replace ?u VAULT_MARK (py_replace ?x VAULT_MARK text))"
    using x assms(4) by (intro py_replace_no_sublist) auto
  with assms(1,2) show ?thesis
    by (auto simp: sanitize_log_text_def py_in_iff_sublist Let_def)
qed

theorem sanitized_text_hides_vault_witness:
  "sanitize_log_text sample_world (pstr ''cannot read /vault/bad.md'') sample_root
     = Inr (pstr ''cannot read <vault>/bad.md'')
   \<and> \<not> py_in (pstr ''/vault'') (pstr ''cannot read <vault>/bad.md'')"
proof -
  have s: "sanitize_log_text sample_world (pstr ''cannot read /vault/bad.md'') sample_root
     = Inr (pstr ''cannot read <vault>/bad.md'')"
    by code_simp
  have r: "w_resolve sample_world sample_root = Inr sample_root" by code_simp
  have p: "path_root sample_root \<in> {[slash], [slash, slash]}" "60 \<notin> set (path_str sample_root)"
    by code_simp+
  have "path_str sample_root = pstr ''/vault''" by code_simp
  with s sanitized_text_hides_vault [OF s r p] show ?thesis by simp
qed

text \<open>The path check of the watcher is closed under descent: whatever lies below a directory
  named in the exclusion list, or below a nested repository, is excluded.\<close>

theorem excluded_subtree:
  assumes "relative_to dir base = Inr rel"
    and "part \<in> set (path_parts rel)" "part \<in> EXCLUDED_DIR_NAMES \<union> nested"
  shows "is_excluded (path_join dir (PyPath [] ps)) base nested = Inr True"
proof -
  from assms(1) have "dir = path_join base rel" "path_root rel = []"
    by (simp_all add: relative_to_Inr_iff)
  then have "relative_to (path_join dir (PyPath [] ps)) base = Inr (PyPath [] (path_parts rel @ ps))"
    by (cases rel) (simp add: relative_to_def is_relative_to_def)
  with assms(2,3) show ?thesis by (auto simp: is_excluded_def Let_def list_ex_iff)
qed

theorem excluded_subtree_witness:
  "is_excluded (path_join (vault_file ''.git'') (PyPath [] [pstr ''hooks'', pstr ''x.md''])) sample_root {} = Inr True"
proof (rule excluded_subtree)
  show "relative_to (vault_file ''.git'') sample_root = Inr (PyPath [] [pstr ''.git''])" by code_simp
  show "pstr ''.git'' \<in> set (path_parts (PyPath [] [pstr ''.git'']))" by simp
  show "pstr ''.git'' \<in> EXCLUDED_DIR_NAMES \<union> {}" by (simp add: EXCLUDED_DIR_NAMES_def)
qed

text \<open>What may enter a batch, exactly: a path under the vault is let through if and only if its
  name ends in \<open>.md\<close> or \<open>.py\<close> after a non-empty stem and no component of its vault-relative path
  is an excluded name; a path outside the vault raises \<open>ValueError\<close>.\<close>

theorem is_excluded_spec:
  "is_excluded (path_join base (PyPath [] ps)) base nested =
     Inr (\<not> ((\<exists>stem ext. stem \<noteq> [] \<and> ext \<in> {pstr ''.md'', pstr ''.py''} \<and> ps \<noteq> [] \<and> last ps = stem @ ext)
            \<and> (\<forall>part \<in> set ps. part \<notin> EXCLUDED_DIR_NAMES \<and> part \<notin> nested)))
   \<and> (\<exists>e. is_excluded q base nested = Inl e \<and> kind_of e = ValueError) = (\<not> is_relative_to q base)"
proof -
  let ?p = "PyPath [] ps"
  have ext: "pstr ''.md'' = dot # pstr ''md''" "pstr ''.py'' = dot # pstr ''py''"
    "dot \<notin> set (pstr ''md'')" "dot \<notin> set (pstr ''py'')"
    by (simp_all add: pstr_def)
  have "path_suffix ?p \<in> OBSERVED_SUFFIXES \<longleftrightarrow>
      (\<exists>stem e. stem \<noteq> [] \<and> e \<in> {pstr ''.md'', pstr ''.py''} \<and> path_name ?p = stem @ e)"
    using path_suffix_iff [of "pstr ''md''" ?p] path_suffix_iff [of "pstr ''py''" ?p]
    by (auto simp: OBSERVED_SUFFIXES_def ext)
  moreover have "ps = [] \<Longrightarrow> path_name ?p \<noteq> stem @ e" if "stem \<noteq> []" for stem e
    using that by (simp add: path_name_def)
  ultimately show ?thesis
    by (auto simp: is_excluded_def Let_def list_ex_iff path_name_def relative_to_def is_relative_to_def)
qed

theorem is_excluded_spec_witness:
  "is_excluded (vault_file ''a.md'') sample_root {} = Inr False
   \<and> \<not> is_relative_to (PyPath [slash] [pstr ''etc'']) sample_root"
proof -
  have p: "vault_file ''a.md'' = path_join sample_root (PyPath [] [pstr ''a.md''])" by code_simp
  have "\<exists>stem ext. stem \<noteq> [] \<and> ext \<in> {pstr ''.md'', pstr ''.py''} \<and> [pstr ''a.md''] \<noteq> []
      \<and> last [pstr ''a.md''] = stem @ ext"
    by (intro exI [of _ "pstr ''a''"] exI [of _ "pstr ''.md''"]) (simp add: pstr_def)
  moreover have "\<forall>part \<in> set [pstr ''a.md'']. part \<notin> EXCLUDED_DIR_NAMES \<and> part \<notin> {}"
    by (simp add: EXCLUDED_DIR_NAMES_def pstr_def)
  moreover have "\<not> is_relative_to (PyPath [slash] [pstr ''etc'']) sample_root" by code_simp
  ultimately show ?thesis
    using is_excluded_spec [of sample_root "[pstr ''a.md'']" "{}" "PyPath [slash] [pstr ''etc'']"] p by simp
qed

end
