(* ===== verification/Utf8.thy ===== *)
theory Utf8
  imports Prelude
begin

text \<open>
  \<open>str.encode("utf-8")\<close> and \<open>bytes.decode()\<close> with strict errors. The program decodes the raw
  paths of file-system events and encodes the API key.
\<close>

definition scalar_value :: "nat \<Rightarrow> bool" where
  "scalar_value c \<longleftrightarrow> c < 55296 \<or> 57344 \<le> c \<and> c < 1114112"

text \<open>Evaluated on integers, which compare faster than \<open>nat\<close> literals.\<close>

lemma scalar_value_code [code]:
  "scalar_value c = (let i = int c in i < 55296 \<or> 57344 \<le> i \<and> i < 1114112)"
  by (auto simp: scalar_value_def Let_def)

fun encode_point :: "nat \<Rightarrow> nat list" where
  "encode_point c =
     (if c < 128 then [c]
      else if c < 2048 then [192 + c div 64, 128 + c mod 64]
      else if c < 65536 then [224 + c div 4096, 128 + c div 64 mod 64, 128 + c mod 64]
      else [240 + c div 262144, 128 + c div 4096 mod 64, 128 + c div 64 mod 64, 128 + c mod 64])"

definition continuation :: "nat \<Rightarrow> bool" where
  "continuation b \<longleftrightarrow> 128 \<le> b \<and> b < 192"

text \<open>Bytes (below 256) to code points; \<open>None\<close> where \<open>decode\<close> raises.\<close>

fun decode_bytes :: "nat list \<Rightarrow> pystr option" where
  "decode_bytes [] = Some []"
| "decode_bytes (b # bs) =
     (if b < 128 then map_option ((#) b) (decode_bytes bs)
      else if 194 \<le> b \<and> b < 224 then
        (case bs of c # r \<Rightarrow>
           if continuation c then map_option ((#) ((b - 192) * 64 + (c - 128))) (decode_bytes r) else None
         | [] \<Rightarrow> None)
      else if 224 \<le> b \<and> b < 240 then
        (case bs of c # d # r \<Rightarrow>
           let v = (b - 224) * 4096 + (c - 128) * 64 + (d - 128)
           in if continuation c \<and> continuation d \<and> 2048 \<le> v \<and> scalar_value v
              then map_option ((#) v) (decode_bytes r) else None
         | _ \<Rightarrow> None)
      else if 240 \<le> b \<and> b < 245 then
        (case bs of c # d # e # r \<Rightarrow>
           let v = (b - 240) * 262144 + (c - 128) * 4096 + (d - 128) * 64 + (e - 128)
           in if continuation c \<and> continuation d \<and> continuation e \<and> 65536 \<le> v \<and> scalar_value v
              then map_option ((#) v) (decode_bytes r) else None
         | _ \<Rightarrow> None)
      else None)"

definition utf8_encode :: "pystr \<Rightarrow> bytes res" where
  "utf8_encode s =
     (if list_all scalar_value s then Inr (map char_of (concat (map encode_point s)))
      else Inl (Exn UnicodeError (pstr ''surrogates not allowed'')))"

definition utf8_decode :: "bytes \<Rightarrow> pystr res" where
  "utf8_decode b =
     (case decode_bytes (map of_char b) of
        Some s \<Rightarrow> Inr s
      | None \<Rightarrow> Inl (Exn UnicodeError (pstr ''invalid utf-8'')))"

lemma encode_point_byte: "scalar_value c \<Longrightarrow> b \<in> set (encode_point c) \<Longrightarrow> b < 256"
  by (auto simp: scalar_value_def split: if_splits)

lemma decode_bytes_2:
  "2 \<le> x \<Longrightarrow> x < 32 \<Longrightarrow> z < 64 \<Longrightarrow>
    decode_bytes ((192 + x) # (128 + z) # bs) = map_option ((#) (x * 64 + z)) (decode_bytes bs)"
  by (subst decode_bytes.simps(2)) (simp add: continuation_def)

lemma decode_bytes_3:
  "x < 16 \<Longrightarrow> y < 64 \<Longrightarrow> z < 64 \<Longrightarrow> c = x * 4096 + y * 64 + z \<Longrightarrow> 2048 \<le> c \<Longrightarrow> scalar_value c \<Longrightarrow>
    decode_bytes ((224 + x) # (128 + y) # (128 + z) # bs) = map_option ((#) c) (decode_bytes bs)"
  by (subst decode_bytes.simps(2)) (simp add: continuation_def Let_def)

lemma decode_bytes_4:
  "x < 5 \<Longrightarrow> w < 64 \<Longrightarrow> y < 64 \<Longrightarrow> z < 64 \<Longrightarrow> c = x * 262144 + w * 4096 + y * 64 + z \<Longrightarrow>
    65536 \<le> c \<Longrightarrow> scalar_value c \<Longrightarrow>
    decode_bytes ((240 + x) # (128 + w) # (128 + y) # (128 + z) # bs) = map_option ((#) c) (decode_bytes bs)"
  by (subst decode_bytes.simps(2)) (simp add: continuation_def Let_def)

lemma split_3: "(c::nat) = c div 4096 * 4096 + c div 64 mod 64 * 64 + c mod 64"
proof -
  have "c div 4096 = c div 64 div 64" by (simp add: div_mult2_eq [symmetric])
  then show ?thesis
    using div_mult_mod_eq [of c 64] div_mult_mod_eq [of "c div 64" 64] by linarith
qed

lemma split_4:
  "(c::nat) = c div 262144 * 262144 + c div 4096 mod 64 * 4096 + c div 64 mod 64 * 64 + c mod 64"
proof -
  have "c div 262144 = c div 4096 div 64" by (simp add: div_mult2_eq [symmetric])
  then show ?thesis
    using split_3 [of c] div_mult_mod_eq [of "c div 4096" 64] by linarith
qed

lemma decode_encode_point:
  assumes "scalar_value c"
  shows "decode_bytes (encode_point c @ bs) = map_option ((#) c) (decode_bytes bs)"
proof -
  consider "c < 128" | "128 \<le> c" "c < 2048" | "2048 \<le> c" "c < 65536" | "65536 \<le> c" by linarith
  then show ?thesis
  proof cases
    case 2
    then have "2 \<le> c div 64" "c div 64 < 32" by auto
    with 2 decode_bytes_2 [of "c div 64" "c mod 64" bs] show ?thesis
      by (simp add: div_mult_mod_eq del: decode_bytes.simps)
  next
    case 3
    then have "c div 4096 < 16" by auto
    then show ?thesis
      using 3 assms split_3 [of c] decode_bytes_3 [of "c div 4096" "c div 64 mod 64" "c mod 64" c bs]
      by (simp del: decode_bytes.simps)
  next
    case 4
    then have "c div 262144 < 5" using assms by (auto simp: scalar_value_def)
    then show ?thesis
      using 4 assms split_4 [of c] decode_bytes_4 [of "c div 262144" "c div 4096 mod 64" "c div 64 mod 64" "c mod 64" c bs]
      by (simp del: decode_bytes.simps)
  qed simp
qed

lemma decode_encode_points:
  "list_all scalar_value s \<Longrightarrow> decode_bytes (concat (map encode_point s)) = Some s"
  by (induction s) (simp_all add: decode_encode_point del: encode_point.simps decode_bytes.simps(2))

lemma utf8_decode_encode: "utf8_encode s = Inr b \<Longrightarrow> utf8_decode b = Inr s"
proof -
  assume enc: "utf8_encode s = Inr b"
  then have s: "list_all scalar_value s" and b: "b = map char_of (concat (map encode_point s))"
    by (auto simp: utf8_encode_def split: if_splits)
  have "map (of_char \<circ> char_of) (concat (map encode_point s)) = concat (map encode_point s)"
    using s encode_point_byte by (intro map_idI) (fastforce simp: list_all_iff simp del: encode_point.simps)
  with s b show ?thesis by (simp add: utf8_decode_def decode_encode_points del: encode_point.simps)
qed

lemma utf8_encode_inj: "utf8_encode s = Inr b \<Longrightarrow> utf8_encode t = Inr b \<Longrightarrow> s = t"
  using utf8_decode_encode [of s b] utf8_decode_encode [of t b] by simp

end
