(* ===== verification/Py_Numbers.thy ===== *)
theory Py_Numbers
  imports Prelude "HOL-Library.Log_Nat"
begin

text \<open>
  Python's numbers as text and as floats, as far as the program uses them: \<open>str(int)\<close>,
  \<open>int(str)\<close> with \<open>str.strip\<close>, and the binary64 operations behind \<open>round(c / total * 100)\<close>.
  Elsewhere a float (a clock reading, an mtime) is a real number.
\<close>

section \<open>Whitespace\<close>

definition is_space :: "nat \<Rightarrow> bool" where
  "is_space c \<longleftrightarrow> 9 \<le> c \<and> c \<le> 13 \<or> 28 \<le> c \<and> c \<le> 32 \<or> c = 133 \<or> c = 160 \<or> c = 5760
     \<or> 8192 \<le> c \<and> c \<le> 8202 \<or> c = 8232 \<or> c = 8233 \<or> c = 8239 \<or> c = 8287 \<or> c = 12288"

definition strip_by :: "('a \<Rightarrow> bool) \<Rightarrow> 'a list \<Rightarrow> 'a list" where
  "strip_by sp s = rev (dropWhile sp (rev (dropWhile sp s)))"

definition py_strip :: "pystr \<Rightarrow> pystr" where
  "py_strip s = strip_by is_space s"

lemma strip_by_none:
  assumes "s = [] \<or> \<not> sp (hd s) \<and> \<not> sp (last s)"
  shows "strip_by sp s = s"
proof -
  have drop: "dropWhile sp t = t" if "t = [] \<or> \<not> sp (hd t)" for t
    using that by (cases t) auto
  have "dropWhile sp s = s" "dropWhile sp (rev s) = rev s"
    using assms by (auto intro!: drop simp: hd_rev)
  then show ?thesis by (simp add: strip_by_def)
qed

section \<open>Decimal integers\<close>

fun dec_digits :: "nat \<Rightarrow> pystr" where
  "dec_digits n = (if n < 10 then [48 + n] else dec_digits (n div 10) @ [48 + n mod 10])"

declare dec_digits.simps [simp del]

definition py_str_int :: "int \<Rightarrow> pystr" where
  "py_str_int i = (if i < 0 then 45 # dec_digits (nat (- i)) else dec_digits (nat i))"

definition is_digit :: "nat \<Rightarrow> bool" where
  "is_digit c \<longleftrightarrow> 48 \<le> c \<and> c \<le> 57"

text \<open>After a digit: more digits, each optionally preceded by one underscore.\<close>

fun int_digits :: "nat \<Rightarrow> pystr \<Rightarrow> nat option" where
  "int_digits acc [] = Some acc"
| "int_digits acc [c] = (if is_digit c then Some (acc * 10 + (c - 48)) else None)"
| "int_digits acc (c # d # cs) =
     (if is_digit c then int_digits (acc * 10 + (c - 48)) (d # cs)
      else if c = 95 \<and> is_digit d then int_digits (acc * 10 + (d - 48)) cs
      else None)"

definition MAX_STR_DIGITS :: nat where
  "MAX_STR_DIGITS = 4300"

text \<open>\<open>int(s)\<close> on ASCII digits, with CPython's limit on the number of digits.\<close>

definition py_int :: "pystr \<Rightarrow> int res" where
  "py_int s =
     (let t = py_strip s;
          neg = (take 1 t = [45]);
          body = (if take 1 t = [45] \<or> take 1 t = [43] then drop 1 t else t);
          bad = Inl (Exn ValueError (pstr ''invalid literal for int() with base 10: '' @ s))
      in if body = [] \<or> \<not> is_digit (hd body) \<or> MAX_STR_DIGITS < length (filter is_digit body)
         then bad
         else (case int_digits (hd body - 48) (tl body) of
                 None \<Rightarrow> bad
               | Some n \<Rightarrow> Inr (if neg then - int n else int n)))"

lemma int_digits_foldl:
  "\<forall>c \<in> set s. is_digit c \<Longrightarrow> int_digits acc s = Some (foldl (\<lambda>a c. a * 10 + (c - 48)) acc s)"
  by (induction acc s rule: int_digits.induct) auto

lemma dec_digits_not_Nil [simp]: "dec_digits n \<noteq> []"
  by (subst dec_digits.simps) simp

lemma dec_digits_digit: "c \<in> set (dec_digits n) \<Longrightarrow> is_digit c"
proof (induction n arbitrary: c rule: dec_digits.induct)
  case (1 n)
  show ?case
  proof (cases "n < 10")
    case True
    with "1.prems" show ?thesis by (auto simp: dec_digits.simps [of n] is_digit_def)
  next
    case False
    with 1 show ?thesis by (auto simp: dec_digits.simps [of n] is_digit_def)
  qed
qed

lemma foldl_dec_digits: "foldl (\<lambda>a c. a * 10 + (c - 48)) 0 (dec_digits n) = n"
proof (induction n rule: dec_digits.induct)
  case (1 n)
  show ?case
  proof (cases "n < 10")
    case True
    then show ?thesis by (simp add: dec_digits.simps [of n])
  next
    case False
    with 1 show ?thesis by (simp add: dec_digits.simps [of n] div_mult_mod_eq)
  qed
qed

lemma dec_digits_inj: "dec_digits m = dec_digits n \<Longrightarrow> m = n"
  using foldl_dec_digits by metis

lemma hd_dec_digits: "is_digit (hd (dec_digits n))"
  by (rule dec_digits_digit [of _ n]) simp

lemma last_dec_digits: "is_digit (last (dec_digits n))"
  by (rule dec_digits_digit [of _ n]) simp

lemma int_of_dec_digits:
  "int_digits (hd (dec_digits n) - 48) (tl (dec_digits n)) = Some n"
proof -
  obtain c cs where d: "dec_digits n = c # cs" by (cases "dec_digits n") auto
  then have "\<forall>x \<in> set cs. is_digit x" using dec_digits_digit [of _ n] by auto
  then have "int_digits (c - 48) cs = Some (foldl (\<lambda>a c. a * 10 + (c - 48)) (c - 48) cs)"
    by (rule int_digits_foldl)
  moreover have "foldl (\<lambda>a c. a * 10 + (c - 48)) (c - 48) cs = n"
    using foldl_dec_digits [of n] d by simp
  ultimately show ?thesis using d by simp
qed

lemma digit_not_space: "is_digit c \<Longrightarrow> \<not> is_space c"
  by (auto simp: is_digit_def is_space_def)

lemma py_strip_int: "py_strip (py_str_int i) = py_str_int i"
proof -
  have l: "\<not> is_space (last (dec_digits n))" for n
    by (rule digit_not_space, rule last_dec_digits)
  have h: "\<not> is_space (hd (dec_digits n))" for n
    by (rule digit_not_space, rule hd_dec_digits)
  have "\<not> is_space 45" by (simp add: is_space_def)
  with l h show ?thesis
    unfolding py_strip_def py_str_int_def by (intro strip_by_none) auto
qed

text \<open>\<open>int(str(i)) == i\<close>, up to the digit limit.\<close>

lemma py_int_str:
  assumes "length (dec_digits (nat \<bar>i\<bar>)) \<le> MAX_STR_DIGITS"
  shows "py_int (py_str_int i) = Inr i"
proof -
  have len: "\<not> MAX_STR_DIGITS < length (filter is_digit (dec_digits (nat \<bar>i\<bar>)))"
    using assms length_filter_le [of is_digit "dec_digits (nat \<bar>i\<bar>)"] by linarith
  have hd: "take 1 (dec_digits n) \<noteq> [45]" "take 1 (dec_digits n) \<noteq> [43]" for n
    using hd_dec_digits [of n] by (cases "dec_digits n"; force simp: is_digit_def)+
  show ?thesis
  proof (cases "i < 0")
    case True
    with len show ?thesis
      using int_of_dec_digits hd_dec_digits
      by (simp add: py_int_def py_strip_int Let_def) (simp add: py_str_int_def)
  next
    case False
    with len hd [of "nat i"] show ?thesis
      using int_of_dec_digits hd_dec_digits
      by (simp add: py_int_def py_strip_int Let_def) (simp add: py_str_int_def)
  qed
qed

lemma py_str_int_inj: "py_str_int i = py_str_int j \<Longrightarrow> i = j"
proof -
  assume eq: "py_str_int i = py_str_int j"
  have m: "45 \<notin> set (dec_digits n)" for n
    using dec_digits_digit [of 45 n] by (auto simp: is_digit_def)
  then have "hd (dec_digits n) \<noteq> 45" for n by (metis dec_digits_not_Nil list.set_sel(1))
  with eq m show "i = j"
    by (auto simp: py_str_int_def dest!: dec_digits_inj split: if_splits) (metis list.sel(1))+
qed

text \<open>\<open>str(v)\<close>; \<open>repr_of\<close> is \<open>repr\<close> of floats and containers.\<close>

fun py_str :: "(json \<Rightarrow> pystr) \<Rightarrow> json \<Rightarrow> pystr" where
  "py_str repr_of JNull = pstr ''None''"
| "py_str repr_of (JBool b) = (if b then pstr ''True'' else pstr ''False'')"
| "py_str repr_of (JInt i) = py_str_int i"
| "py_str repr_of (JStr s) = s"
| "py_str repr_of v = repr_of v"

section \<open>Binary64\<close>

text \<open>
  A non-negative double is \<open>(m, e)\<close>, read as \<open>m * 2 ^ e\<close> with \<open>m < 2 ^ 53\<close>, scaled so that
  \<open>m\<close> has 53 bits. \<open>fl a b\<close> is the double nearest to \<open>a / b\<close>, ties to even: the result of
  dividing two integers below \<open>2 ^ 53\<close>. Overflow and subnormals cannot occur in the
  program's percentages and are left out.
\<close>

type_synonym dbl = "int \<times> int"

definition round_half_even :: "int \<Rightarrow> int \<Rightarrow> int" where
  "round_half_even a b =
     (let q = a div b; r = a mod b
      in if 2 * r < b then q else if b < 2 * r then q + 1 else if even q then q else q + 1)"

fun bit_count :: "int \<Rightarrow> nat" where
  "bit_count n = (if n \<le> 0 then 0 else Suc (bit_count (n div 2)))"

declare bit_count.simps [simp del]

definition scaled :: "int \<Rightarrow> int \<Rightarrow> int \<Rightarrow> int \<times> int" where
  "scaled a b s = (a * 2 ^ nat s, b * 2 ^ nat (- s))"

definition fl :: "int \<Rightarrow> int \<Rightarrow> dbl" where
  "fl a b =
     (if a = 0 then (0, 0)
      else let s = 53 + int (bit_count b) - int (bit_count a);
               (p, q) = scaled a b s;
               s' = (if 2 ^ 53 * q \<le> p then s - 1 else s);
               (p', q') = scaled a b s'
           in (round_half_even p' q', - s'))"

definition fl_mult :: "dbl \<Rightarrow> int \<Rightarrow> dbl" where
  "fl_mult x n = (case x of (m, e) \<Rightarrow>
     let (m', e') = fl (m * n) 1 in (m', e' + e))"

definition fl_round :: "dbl \<Rightarrow> int" where
  "fl_round x = (case x of (m, e) \<Rightarrow> if 0 \<le> e then m * 2 ^ nat e else round_half_even m (2 ^ nat (- e)))"

text \<open>The program's percentages: \<open>round(c / total * 100)\<close>. Double rounding shows: 57.5 gives 57.\<close>

definition py_percent :: "nat \<Rightarrow> nat \<Rightarrow> int" where
  "py_percent c tot = fl_round (fl_mult (fl (int c) (int tot)) 100)"

lemma py_percent_23_40: "py_percent 23 40 = 57"
  by code_simp

end
