(* ===== verification/Metrics_Registry.thy ===== *)
theory Metrics_Registry
  imports Py_Numbers
begin

text \<open>
  \<open>artifact_lifecycle/metrics.py\<close>: the \<open>Metrics\<close> registry (counters, gauges, event times and
  bounded latency windows under one lock, so each method is one step), the resident set size
  and the git revision of the running process. A clock reading is an argument. The endpoint
  payload, which also reads the snapshot holder and the query cache, is in \<open>Observability\<close>.
\<close>

section \<open>The registry\<close>

definition DEFAULT_LATENCY_WINDOW :: nat where
  "DEFAULT_LATENCY_WINDOW = 1000"

record metrics =
  counters :: "(string, int) dict"
  gauges :: "(string, real) dict"
  event_times :: "(string, real) dict"
  latencies :: "(string, real list) dict"
  latency_window :: nat

definition new_metrics :: "nat \<Rightarrow> metrics" where
  "new_metrics window =
     \<lparr>counters = [], gauges = [], event_times = [], latencies = [], latency_window = window\<rparr>"

definition increment :: "string \<Rightarrow> int \<Rightarrow> metrics \<Rightarrow> metrics" where
  "increment name amount m =
     m\<lparr>counters := AList.update name (dict_get (counters m) name 0 + amount) (counters m)\<rparr>"

definition counter :: "metrics \<Rightarrow> string \<Rightarrow> int" where
  "counter m name = dict_get (counters m) name 0"

definition set_gauge :: "string \<Rightarrow> real \<Rightarrow> metrics \<Rightarrow> metrics" where
  "set_gauge name v m = m\<lparr>gauges := AList.update name v (gauges m)\<rparr>"

definition gauge :: "metrics \<Rightarrow> string \<Rightarrow> real option" where
  "gauge m name = map_of (gauges m) name"

definition record_event_time :: "string \<Rightarrow> real \<Rightarrow> metrics \<Rightarrow> metrics" where
  "record_event_time name now m = m\<lparr>event_times := AList.update name now (event_times m)\<rparr>"

definition seconds_since_event :: "metrics \<Rightarrow> string \<Rightarrow> real \<Rightarrow> real option" where
  "seconds_since_event m name now =
     (case map_of (event_times m) name of None \<Rightarrow> None | Some t0 \<Rightarrow> Some (now - t0))"

text \<open>\<open>deque(maxlen=n).append(x)\<close>: the oldest element is dropped from a full deque.\<close>

definition deque_append :: "nat \<Rightarrow> 'a \<Rightarrow> 'a list \<Rightarrow> 'a list" where
  "deque_append n x d = (let d' = d @ [x] in drop (length d' - n) d')"

definition record_latency :: "string \<Rightarrow> real \<Rightarrow> metrics \<Rightarrow> metrics" where
  "record_latency name seconds m =
     (let window = dict_get (latencies m) name []
      in m\<lparr>latencies := AList.update name (deque_append (latency_window m) seconds window) (latencies m)\<rparr>)"

record percentiles =
  p50 :: real
  p95 :: real
  p99 :: real

definition pct :: "real list \<Rightarrow> real \<Rightarrow> real" where
  "pct samples p = samples ! nat (min (int (length samples) - 1) \<lfloor>real (length samples) * p\<rfloor>)"

definition latency_percentiles :: "metrics \<Rightarrow> string \<Rightarrow> percentiles" where
  "latency_percentiles m name =
     (let samples = sort (dict_get (latencies m) name [])
      in if samples = [] then \<lparr>p50 = 0, p95 = 0, p99 = 0\<rparr>
         else \<lparr>p50 = pct samples (50 / 100), p95 = pct samples (95 / 100), p99 = pct samples (99 / 100)\<rparr>)"

section \<open>Laws of the registry\<close>

lemma counter_increment [simp]:
  "counter (increment n a m) k = (if k = n then counter m n + a else counter m k)"
  by (simp add: counter_def increment_def dict_get_def dict_simps)

lemma gauge_set_gauge [simp]: "gauge (set_gauge n v m) k = (if k = n then Some v else gauge m k)"
  by (simp add: gauge_def set_gauge_def dict_simps)

lemma registry_frames [frame_simps]:
  "counter (set_gauge n v m) k = counter m k"
  "gauge (increment n a m) k = gauge m k"
  "counter (record_event_time n t m) k = counter m k"
  "gauge (record_event_time n t m) k = gauge m k"
  "counter (record_latency n t m) k = counter m k"
  "gauge (record_latency n t m) k = gauge m k"
  by (simp_all add: counter_def gauge_def set_gauge_def increment_def record_event_time_def
      record_latency_def Let_def)

lemma deque_append_fold:
  "length d \<le> n \<Longrightarrow> fold (deque_append n) xs d = drop (length (d @ xs) - n) (d @ xs)"
proof (induction xs arbitrary: d)
  case (Cons x xs)
  have "length (deque_append n x d) \<le> n" by (simp add: deque_append_def Let_def)
  then have "fold (deque_append n) (x # xs) d
      = drop (length (deque_append n x d @ xs) - n) (deque_append n x d @ xs)"
    using Cons.IH by simp
  also have "\<dots> = drop (length (d @ x # xs) - n) (d @ x # xs)"
    using Cons.prems by (cases "length d = n") (auto simp: deque_append_def Let_def drop_Cons')
  finally show ?case .
qed simp

lemma latency_fold:
  "dict_get (latencies (fold (record_latency name) xs m)) name []
     = fold (deque_append (latency_window m)) xs (dict_get (latencies m) name [])"
proof (induction xs arbitrary: m)
  case (Cons x xs)
  have "latency_window (record_latency name x m) = latency_window m"
    by (simp add: record_latency_def Let_def)
  moreover have "dict_get (latencies (record_latency name x m)) name []
      = deque_append (latency_window m) x (dict_get (latencies m) name [])"
    by (simp add: record_latency_def Let_def dict_get_def dict_simps)
  ultimately show ?case using Cons.IH [of "record_latency name x m"] by simp
qed simp

lemma pct_index:
  assumes "samples \<noteq> []" "0 \<le> p"
  shows "nat (min (int (length samples) - 1) \<lfloor>real (length samples) * p\<rfloor>) < length samples"
  using assms by (cases samples) auto

lemma pct_mem: "samples \<noteq> [] \<Longrightarrow> 0 \<le> p \<Longrightarrow> pct samples p \<in> set samples"
  unfolding pct_def by (rule nth_mem) (rule pct_index)

lemma pct_mono:
  assumes "sorted samples" "samples \<noteq> []" "0 \<le> p" "p \<le> q"
  shows "pct samples p \<le> pct samples q"
proof -
  have "\<lfloor>real (length samples) * p\<rfloor> \<le> \<lfloor>real (length samples) * q\<rfloor>"
    using assms by (intro floor_mono mult_left_mono) auto
  then have "nat (min (int (length samples) - 1) \<lfloor>real (length samples) * p\<rfloor>)
      \<le> nat (min (int (length samples) - 1) \<lfloor>real (length samples) * q\<rfloor>)"
    by (intro nat_mono min.mono) auto
  then show ?thesis
    unfolding pct_def using assms pct_index [of samples q]
    by (intro sorted_nth_mono) auto
qed

section \<open>The process: resident set size and git revision\<close>

text \<open>\<open>ps\<close> is the output of \<open>ps -o rss=\<close>, or the exception \<open>subprocess.run\<close> raises.\<close>

definition rss_bytes :: "pystr res \<Rightarrow> int res" where
  "rss_bytes ps = bindR ps (\<lambda>output. bindR (py_int (py_strip output)) (\<lambda>kb. Inr (kb * 1024)))"

text \<open>
  \<open>environ\<close> is \<open>os.environ\<close>; \<open>rev_parse\<close> and \<open>status\<close> are the outputs of the two git
  commands (or the exceptions of running them).
\<close>

definition resolve_git_revision ::
  "(string, pystr) dict \<Rightarrow> pystr res \<Rightarrow> pystr res \<Rightarrow> pystr option \<times> bool option" where
  "resolve_git_revision environ rev_parse status =
     (let env_sha = dict_get environ ''GRAPHIFY_DAEMON_GIT_SHA'' []
      in if env_sha \<noteq> []
         then (let env_dirty = py_lower (py_strip (dict_get environ ''GRAPHIFY_DAEMON_GIT_DIRTY'' []))
               in (Some env_sha, Some (env_dirty = pstr ''1'' \<or> env_dirty = pstr ''true'')))
         else (case rev_parse of
                 Inl e \<Rightarrow> (None, None)
               | Inr sha \<Rightarrow> (case status of
                   Inl e \<Rightarrow> (None, None)
                 | Inr st \<Rightarrow> (Some (py_strip sha), Some (py_strip st \<noteq> [])))))"

end
