(* ===== verification/Batching.thy ===== *)
theory Batching
  imports Vault_Paths Utf8 Metrics_Registry
begin

text \<open>
  \<open>vault_compiler/batching.py\<close>: the changes of a batch, the event handler that decides which
  file-system events become changes, and \<open>VaultWatcher\<close>, whose methods all run under its lock
  and so are single steps on its record. \<open>threading.Timer\<close> objects are numbered; \<open>timers\<close> holds
  those started and neither cancelled nor expired. The registry the watcher reports to is shared
  with the rest of the daemon, so it is passed in and handed back. Interleavings of these steps
  with the daemon's own threads are in \<open>Daemon_Threads\<close>.
\<close>

section \<open>Changes\<close>

datatype change_kind = CREATED | MODIFIED | DELETED | RENAMED

definition WATCHDOG_EVENT_KIND :: "(string, change_kind) dict" where
  "WATCHDOG_EVENT_KIND =
     [(''created'', CREATED), (''modified'', MODIFIED), (''deleted'', DELETED), (''moved'', RENAMED)]"

record file_change =
  change_path :: pypath
  change_of :: change_kind
  previous_path :: "pypath option"

record batch =
  changes :: "file_change list"

definition mk_file_change :: "pypath \<Rightarrow> change_kind \<Rightarrow> pypath option \<Rightarrow> file_change res" where
  "mk_file_change path kind prev =
     (if kind = RENAMED \<and> prev = None
      then Inl (Exn ValueError (pstr ''RENAMED FileChange requires previous_path''))
      else if kind \<noteq> RENAMED \<and> prev \<noteq> None
      then Inl (Exn ValueError (pstr ''FileChange must not set previous_path''))
      else Inr \<lparr>change_path = path, change_of = kind, previous_path = prev\<rparr>)"

definition change_ok :: "file_change \<Rightarrow> bool" where
  "change_ok c \<longleftrightarrow> (change_of c = RENAMED \<longleftrightarrow> previous_path c \<noteq> None)"

lemma mk_file_change_ok: "mk_file_change p k prev = Inr c \<Longrightarrow> change_ok c"
  by (auto simp: mk_file_change_def change_ok_def split: if_splits)

section \<open>The event handler\<close>

datatype raw_path = RawStr pystr | RawBytes bytes

record fs_event =
  is_directory :: bool
  event_type :: string
  src_path :: raw_path
  dest_path :: raw_path

fun raw_to_path :: "raw_path \<Rightarrow> pypath res" where
  "raw_to_path (RawStr s) = Inr (path_of_str s)"
| "raw_to_path (RawBytes b) = bindR (utf8_decode b) (\<lambda>s. Inr (path_of_str s))"

definition rejected_message :: "pypath \<Rightarrow> pystr" where
  "rejected_message rel = pstr ''Rejected '' @ path_str rel @ pstr '': resolves outside the vault''"

text \<open>The change handed to \<open>on_change\<close>, if any, and the warnings logged.\<close>

definition on_any_event ::
  "world \<Rightarrow> pypath \<Rightarrow> pystr set \<Rightarrow> fs_event \<Rightarrow> (file_change option \<times> pystr list) res" where
  "on_any_event W base nested event =
     (if is_directory event then Inr (None, [])
      else case map_of WATCHDOG_EVENT_KIND (event_type event) of
        None \<Rightarrow> Inr (None, [])
      | Some kind \<Rightarrow>
          bindR (raw_to_path (if kind = RENAMED then dest_path event else src_path event)) (\<lambda>path.
          if kind = RENAMED then
            bindR (raw_to_path (src_path event)) (\<lambda>prev.
            bindR (mk_file_change path kind (Some prev)) (\<lambda>c. Inr (Some c, [])))
          else
            bindR (is_excluded path base nested) (\<lambda>excluded.
            if excluded then Inr (None, [])
            else bindR (resolve_within_vault W path base) (\<lambda>resolved.
              case resolved of
                None \<Rightarrow> bindR (relative_to path base) (\<lambda>rel. Inr (None, [rejected_message rel]))
              | Some r \<Rightarrow> bindR (mk_file_change path kind None) (\<lambda>c. Inr (Some c, []))))))"

lemma on_any_event_cases:
  assumes "on_any_event W base nested ev = Inr (Some c, logs)"
  shows "change_ok c" "logs = []" "\<not> is_directory ev"
    "map_of WATCHDOG_EVENT_KIND (event_type ev) = Some (change_of c)"
    "change_of c \<noteq> RENAMED \<Longrightarrow>
       raw_to_path (src_path ev) = Inr (change_path c) \<and>
       is_excluded (change_path c) base nested = Inr False \<and>
       (\<exists>q. resolve_within_vault W (change_path c) base = Inr (Some q))"
  using assms
  by (auto simp: on_any_event_def bindR_Inr_iff mk_file_change_def change_ok_def
      split: if_splits option.splits)

section \<open>The watcher\<close>

definition DEFAULT_PENDING_WARN_THRESHOLD :: int where
  "DEFAULT_PENDING_WARN_THRESHOLD = 200"

datatype timer_job = FlushJob | IdleJob

record watcher =
  watch_root :: pypath
  watch_nested :: "pystr set"
  debounce_seconds :: real
  pending_warn_threshold :: int
  warned_this_episode :: bool
  pending :: "file_change list"
  flush_timer :: "nat option"
  idle_timer :: "nat option"
  rejecting_events :: bool
  observing :: bool
  timers :: "(nat, timer_job \<times> real) dict"
  next_timer :: nat
  watch_log :: "pystr list"

definition new_watcher :: "pypath \<Rightarrow> int \<Rightarrow> pystr set \<Rightarrow> int \<Rightarrow> watcher" where
  "new_watcher base debounce_ms nested threshold =
     \<lparr>watch_root = base, watch_nested = nested, debounce_seconds = real_of_int debounce_ms / 1000,
      pending_warn_threshold = threshold, warned_this_episode = False, pending = [],
      flush_timer = None, idle_timer = None, rejecting_events = False, observing = False,
      timers = [], next_timer = 0, watch_log = []\<rparr>"

definition cancel_timer :: "nat option \<Rightarrow> watcher \<Rightarrow> watcher" where
  "cancel_timer t w = (case t of None \<Rightarrow> w | Some i \<Rightarrow> w\<lparr>timers := AList.delete i (timers w)\<rparr>)"

definition start_timer :: "timer_job \<Rightarrow> real \<Rightarrow> watcher \<Rightarrow> watcher" where
  "start_timer job secs w =
     w\<lparr>timers := AList.update (next_timer w) (job, secs) (timers w), next_timer := Suc (next_timer w)\<rparr>"

definition start_watcher :: "watcher \<Rightarrow> watcher" where
  "start_watcher w = w\<lparr>observing := True\<rparr>"

definition cancel_timers :: "watcher \<Rightarrow> watcher" where
  "cancel_timers w =
     (let w1 = (cancel_timer (flush_timer w) w)\<lparr>flush_timer := None\<rparr>
      in (cancel_timer (idle_timer w1) w1)\<lparr>idle_timer := None\<rparr>)"

definition stop_watcher :: "watcher \<Rightarrow> watcher" where
  "stop_watcher w = (cancel_timers w)\<lparr>observing := False\<rparr>"

definition schedule_idle :: "real \<Rightarrow> watcher \<Rightarrow> watcher" where
  "schedule_idle quiet_seconds w =
     (let w1 = cancel_timer (idle_timer w) w
      in (start_timer IdleJob quiet_seconds w1)\<lparr>idle_timer := Some (next_timer w1)\<rparr>)"

definition cancel_idle :: "watcher \<Rightarrow> watcher" where
  "cancel_idle w = (cancel_timer (idle_timer w) w)\<lparr>idle_timer := None\<rparr>"

definition reject_new_events :: "watcher \<Rightarrow> watcher" where
  "reject_new_events w = w\<lparr>rejecting_events := True\<rparr>"

definition depth_message :: "nat \<Rightarrow> int \<Rightarrow> pystr" where
  "depth_message n threshold =
     pstr ''Pending change queue depth ('' @ py_str_int (int n) @ pstr '') crossed threshold (''
       @ py_str_int threshold @ pstr '')''"

definition queue_change ::
  "file_change \<Rightarrow> watcher \<times> metrics option \<Rightarrow> watcher \<times> metrics option" where
  "queue_change c s =
     (case s of (w, m) \<Rightarrow>
        if rejecting_events w then (w, m)
        else
          let w1 = w\<lparr>pending := pending w @ [c]\<rparr>;
              n = length (pending w1);
              m1 = map_option (set_gauge ''queue_depth'' (real n)) m;
              warn = (pending_warn_threshold w1 \<le> int n \<and> \<not> warned_this_episode w1);
              w2 = (if warn
                    then w1\<lparr>warned_this_episode := True,
                            watch_log := watch_log w1 @ [depth_message n (pending_warn_threshold w1)]\<rparr>
                    else w1);
              m2 = (if warn then map_option (increment ''queue_depth_warnings'' 1) m1 else m1);
              w3 = cancel_timer (flush_timer w2) w2
          in ((start_timer FlushJob (debounce_seconds w3) w3)\<lparr>flush_timer := Some (next_timer w3)\<rparr>, m2))"

text \<open>The locked part that \<open>_flush\<close> and \<open>drain_pending_batch\<close> share: the pending changes become the batch.\<close>

definition take_pending ::
  "watcher \<times> metrics option \<Rightarrow> batch \<times> watcher \<times> metrics option" where
  "take_pending s =
     (case s of (w, m) \<Rightarrow>
        (\<lparr>changes = pending w\<rparr>, w\<lparr>pending := [], warned_this_episode := False\<rparr>,
         map_option (set_gauge ''queue_depth'' 0) m))"

definition drain_pending_batch ::
  "watcher \<times> metrics option \<Rightarrow> batch option \<times> watcher \<times> metrics option" where
  "drain_pending_batch s =
     (case s of (w, m) \<Rightarrow>
        let w1 = cancel_timers w
        in if pending w1 = [] then (None, w1, m)
           else (case take_pending (w1, m) of (b, w2, m2) \<Rightarrow> (Some b, w2, m2)))"

text \<open>\<open>_flush\<close> up to the release of the lock; the batch it returns is then passed to \<open>on_batch\<close>.\<close>

definition flush ::
  "watcher \<times> metrics option \<Rightarrow> batch option \<times> watcher \<times> metrics option" where
  "flush s =
     (case s of (w, m) \<Rightarrow>
        if pending w = [] then (None, w, m)
        else (case take_pending (w, m) of (b, w2, m2) \<Rightarrow> (Some b, w2\<lparr>flush_timer := None\<rparr>, m2)))"

text \<open>\<open>BatchConsumer.consume\<close>: the compile function, called once with the whole batch.\<close>

definition consume :: "(batch \<Rightarrow> 's \<Rightarrow> 'r) \<Rightarrow> batch \<Rightarrow> 's \<Rightarrow> 'r" where
  "consume compile_batch b = compile_batch b"

section \<open>Frames and the debounce episode\<close>

lemma cancel_timer_frames [frame_simps]:
  "pending (cancel_timer t w) = pending w"
  "warned_this_episode (cancel_timer t w) = warned_this_episode w"
  "rejecting_events (cancel_timer t w) = rejecting_events w"
  "flush_timer (cancel_timer t w) = flush_timer w"
  "idle_timer (cancel_timer t w) = idle_timer w"
  "pending_warn_threshold (cancel_timer t w) = pending_warn_threshold w"
  "debounce_seconds (cancel_timer t w) = debounce_seconds w"
  "watch_log (cancel_timer t w) = watch_log w"
  "next_timer (cancel_timer t w) = next_timer w"
  "timers (cancel_timer t w) = (case t of None \<Rightarrow> timers w | Some i \<Rightarrow> AList.delete i (timers w))"
  by (simp_all add: cancel_timer_def split: option.split)

lemma start_timer_frames [frame_simps]:
  "pending (start_timer j d w) = pending w"
  "warned_this_episode (start_timer j d w) = warned_this_episode w"
  "rejecting_events (start_timer j d w) = rejecting_events w"
  "flush_timer (start_timer j d w) = flush_timer w"
  "idle_timer (start_timer j d w) = idle_timer w"
  "pending_warn_threshold (start_timer j d w) = pending_warn_threshold w"
  "watch_log (start_timer j d w) = watch_log w"
  "next_timer (start_timer j d w) = Suc (next_timer w)"
  "timers (start_timer j d w) = AList.update (next_timer w) (j, d) (timers w)"
  by (simp_all add: start_timer_def)

lemma cancel_timers_frames [frame_simps]:
  "pending (cancel_timers w) = pending w"
  "warned_this_episode (cancel_timers w) = warned_this_episode w"
  "rejecting_events (cancel_timers w) = rejecting_events w"
  "flush_timer (cancel_timers w) = None"
  "idle_timer (cancel_timers w) = None"
  "watch_log (cancel_timers w) = watch_log w"
  by (simp_all add: cancel_timers_def frame_simps Let_def)

lemma schedule_idle_frames [frame_simps]:
  "pending (schedule_idle q w) = pending w"
  "rejecting_events (schedule_idle q w) = rejecting_events w"
  "flush_timer (schedule_idle q w) = flush_timer w"
  "idle_timer (schedule_idle q w) = Some (next_timer w)"
  by (simp_all add: schedule_idle_def frame_simps Let_def)

lemma queue_change_rejecting: "rejecting_events w \<Longrightarrow> queue_change c (w, m) = (w, m)"
  by (simp add: queue_change_def)

lemma queue_change_pending:
  "\<not> rejecting_events w \<Longrightarrow> pending (fst (queue_change c (w, m))) = pending w @ [c]"
  by (simp add: queue_change_def Let_def frame_simps)

lemma queue_change_frames [frame_simps]:
  "rejecting_events (fst (queue_change c s)) = rejecting_events (fst s)"
  "pending_warn_threshold (fst (queue_change c s)) = pending_warn_threshold (fst s)"
  "idle_timer (fst (queue_change c s)) = idle_timer (fst s)"
  by (cases s; simp add: queue_change_def Let_def frame_simps)+

definition queue_changes ::
  "file_change list \<Rightarrow> watcher \<times> metrics option \<Rightarrow> watcher \<times> metrics option" where
  "queue_changes cs s = fold queue_change cs s"

lemma queue_changes_snoc: "queue_changes (cs @ [c]) s = queue_change c (queue_changes cs s)"
  by (simp add: queue_changes_def)

lemma queue_changes_frames [frame_simps]:
  "rejecting_events (fst (queue_changes cs s)) = rejecting_events (fst s)"
  "pending_warn_threshold (fst (queue_changes cs s)) = pending_warn_threshold (fst s)"
  by (induction cs arbitrary: s) (simp_all add: queue_changes_def frame_simps)

lemma queue_changes_pending:
  "\<not> rejecting_events w \<Longrightarrow> pending (fst (queue_changes cs (w, m))) = pending w @ cs"
proof (induction cs rule: rev_induct)
  case (snoc c cs)
  obtain w' m' where s: "queue_changes cs (w, m) = (w', m')" by (cases "queue_changes cs (w, m)")
  then have "\<not> rejecting_events w'" using snoc.prems queue_changes_frames(1) [of cs "(w, m)"] by simp
  with snoc s show ?case by (simp add: queue_changes_snoc queue_change_pending)
qed (simp add: queue_changes_def)

text \<open>The warning flag and the log during an episode that starts unwarned and empty.\<close>

definition warnings_due :: "int \<Rightarrow> nat \<Rightarrow> bool" where
  "warnings_due threshold n \<longleftrightarrow> 0 < n \<and> threshold \<le> int n"

lemma queue_changes_episode:
  assumes "\<not> rejecting_events w" "pending w = []" "\<not> warned_this_episode w"
  shows "warned_this_episode (fst (queue_changes cs (w, m)))
           = warnings_due (pending_warn_threshold w) (length cs)
       \<and> length (watch_log (fst (queue_changes cs (w, m))))
           = length (watch_log w) + of_bool (warnings_due (pending_warn_threshold w) (length cs))
       \<and> map_option (\<lambda>x. counter x ''queue_depth_warnings'') (snd (queue_changes cs (w, m)))
           = map_option (\<lambda>x. counter x ''queue_depth_warnings''
               + of_bool (warnings_due (pending_warn_threshold w) (length cs))) m"
proof (induction cs rule: rev_induct)
  case Nil
  with assms show ?case by (simp add: queue_changes_def warnings_due_def)
next
  case (snoc c cs)
  obtain w' m' where s: "queue_changes cs (w, m) = (w', m')" by (cases "queue_changes cs (w, m)")
  have "\<not> rejecting_events w'" "pending_warn_threshold w' = pending_warn_threshold w" "pending w' = cs"
    using assms s queue_changes_frames [of cs "(w, m)"] queue_changes_pending [of w cs m] by simp_all
  with snoc.IH s show ?case
    by (cases m; cases m')
      (auto simp: queue_changes_snoc queue_change_def Let_def frame_simps warnings_due_def)
qed

lemma queue_changes_gauge:
  assumes "\<not> rejecting_events w" "cs \<noteq> []"
  shows "map_option (\<lambda>x. gauge x ''queue_depth'') (snd (queue_changes cs (w, m)))
    = map_option (\<lambda>_. Some (real (length (pending w) + length cs))) m"
  using assms(2)
proof (induction cs rule: rev_induct)
  case (snoc c cs)
  obtain w' m' where s: "queue_changes cs (w, m) = (w', m')" by (cases "queue_changes cs (w, m)")
  have w': "\<not> rejecting_events w'" "pending w' = pending w @ cs"
    using assms s queue_changes_frames [of cs "(w, m)"] queue_changes_pending [of w cs m] by simp_all
  have "(m' = None) = (m = None)"
  proof (cases "cs = []")
    case True
    with s show ?thesis by (simp add: queue_changes_def)
  next
    case False
    with snoc s show ?thesis by (cases m; cases m') auto
  qed
  with w' s show ?case
    by (cases m; cases m')
      (auto simp: queue_changes_snoc queue_change_def Let_def frame_simps)
qed simp

lemma take_pending_fields [simp]:
  "changes (fst (take_pending (w, m))) = pending w"
  "pending (fst (snd (take_pending (w, m)))) = []"
  "warned_this_episode (fst (snd (take_pending (w, m)))) = False"
  "rejecting_events (fst (snd (take_pending (w, m)))) = rejecting_events w"
  "flush_timer (fst (snd (take_pending (w, m)))) = flush_timer w"
  "idle_timer (fst (snd (take_pending (w, m)))) = idle_timer w"
  "timers (fst (snd (take_pending (w, m)))) = timers w"
  "next_timer (fst (snd (take_pending (w, m)))) = next_timer w"
  "snd (snd (take_pending (w, m))) = map_option (set_gauge ''queue_depth'' 0) m"
  by (simp_all add: take_pending_def)

section \<open>Properties\<close>

text \<open>C34. Vault confinement in the live watcher: a created, modified or deleted file becomes a
  change if and only if its path is not excluded and resolves to a place under the resolved vault
  root.\<close>

theorem watcher_confinement:
  assumes "\<not> is_directory ev" "map_of WATCHDOG_EVENT_KIND (event_type ev) = Some kind" "kind \<noteq> RENAMED"
    and "raw_to_path (src_path ev) = Inr path"
  shows "(\<exists>c logs. on_any_event W base nested ev = Inr (Some c, logs)) \<longleftrightarrow>
      is_excluded path base nested = Inr False \<and>
      (\<exists>r q. w_resolve W base = Inr r \<and> w_resolve W path = Inr q \<and> is_relative_to q r)"
    (is "?emits \<longleftrightarrow> ?allowed")
proof -
  have allowed: "?allowed \<longleftrightarrow> is_excluded path base nested = Inr False
      \<and> (\<exists>q. resolve_within_vault W path base = Inr (Some q))"
    by (auto simp: resolve_within_vault_Some_iff)
  show ?thesis
    unfolding allowed using assms
    by (cases "is_excluded path base nested"; cases "resolve_within_vault W path base")
      (auto simp: on_any_event_def mk_file_change_def bindR_Inr_iff split: option.splits)
qed

definition sample_event :: "string \<Rightarrow> string \<Rightarrow> string \<Rightarrow> fs_event" where
  "sample_event type src dest =
     \<lparr>is_directory = False, event_type = type, src_path = RawStr (path_str (vault_file src)),
      dest_path = RawBytes (''/vault/'' @ dest)\<rparr>"

theorem watcher_confinement_witness:
  "\<not> (\<exists>c logs. on_any_event sample_world sample_root {} (sample_event ''created'' ''link.md'' []) = Inr (Some c, logs))
   \<and> (\<exists>c logs. on_any_event sample_world sample_root {} (sample_event ''created'' ''a.md'' []) = Inr (Some c, logs))"
proof -
  have d: "\<not> is_directory (sample_event ''created'' x y)"
    "map_of WATCHDOG_EVENT_KIND (event_type (sample_event ''created'' x y)) = Some CREATED"
    "CREATED \<noteq> RENAMED" for x y
    by (simp_all add: sample_event_def WATCHDOG_EVENT_KIND_def)
  have p: "raw_to_path (src_path (sample_event ''created'' ''link.md'' [])) = Inr (vault_file ''link.md'')"
    "raw_to_path (src_path (sample_event ''created'' ''a.md'' [])) = Inr (vault_file ''a.md'')"
    by code_simp+
  have r: "w_resolve sample_world sample_root = Inr sample_root"
    "w_resolve sample_world (vault_file ''link.md'') = Inr (PyPath [slash] [pstr ''secret.md''])"
    "w_resolve sample_world (vault_file ''a.md'') = Inr (vault_file ''a.md'')"
    by code_simp+
  have rel: "\<not> is_relative_to (PyPath [slash] [pstr ''secret.md'']) sample_root"
    "is_relative_to (vault_file ''a.md'') sample_root"
    "is_excluded (vault_file ''a.md'') sample_root {} = Inr False"
    by code_simp+
  show ?thesis
    using watcher_confinement [OF d p(1), of sample_world sample_root "{}"]
      watcher_confinement [OF d p(2), of sample_world sample_root "{}"] r rel by simp
qed

text \<open>A rename always becomes one change carrying both paths, also when its destination is
  excluded, so that the source's state can be cleaned up; no confinement check is made on it.\<close>

theorem rename_always_emitted:
  assumes "\<not> is_directory ev" "event_type ev = ''moved''"
    and "raw_to_path (src_path ev) = Inr src" "raw_to_path (dest_path ev) = Inr dest"
  shows "on_any_event W base nested ev =
    Inr (Some \<lparr>change_path = dest, change_of = RENAMED, previous_path = Some src\<rparr>, [])"
  using assms by (simp add: on_any_event_def WATCHDOG_EVENT_KIND_def mk_file_change_def)

theorem rename_always_emitted_witness:
  "on_any_event sample_world sample_root {} (sample_event ''moved'' ''a.md'' ''link.md'') =
    Inr (Some \<lparr>change_path = vault_file ''link.md'', change_of = RENAMED, previous_path = Some (vault_file ''a.md'')\<rparr>, [])"
proof (rule rename_always_emitted)
  show "\<not> is_directory (sample_event ''moved'' ''a.md'' ''link.md'')" by (simp add: sample_event_def)
  show "event_type (sample_event ''moved'' ''a.md'' ''link.md'') = ''moved''" by (simp add: sample_event_def)
  show "raw_to_path (src_path (sample_event ''moved'' ''a.md'' ''link.md'')) = Inr (vault_file ''a.md'')" by code_simp
  show "raw_to_path (dest_path (sample_event ''moved'' ''a.md'' ''link.md'')) = Inr (vault_file ''link.md'')" by code_simp
qed

text \<open>One backpressure warning per accumulation episode: starting from an empty queue, any
  number of queued changes logs one warning and counts it once if the threshold is reached, none
  otherwise; the gauge ends at the queue's depth and the changes are queued in order.\<close>

theorem episode_warns_once:
  assumes "\<not> rejecting_events w" "pending w = []" "\<not> warned_this_episode w" "cs \<noteq> []"
    and "queue_changes cs (w, Some m) = (w', Some m')"
  shows "pending w' = cs \<and> gauge m' ''queue_depth'' = Some (real (length cs))
    \<and> length (watch_log w') = length (watch_log w) + (if pending_warn_threshold w \<le> int (length cs) then 1 else 0)
    \<and> counter m' ''queue_depth_warnings'' = counter m ''queue_depth_warnings''
        + (if pending_warn_threshold w \<le> int (length cs) then 1 else 0)"
  using queue_changes_episode [OF assms(1-3), of cs "Some m"] queue_changes_gauge [OF assms(1,4), of "Some m"]
    queue_changes_pending [OF assms(1), of cs "Some m"] assms
  by (auto simp: warnings_due_def)

definition sample_burst :: "nat \<Rightarrow> file_change list" where
  "sample_burst n =
     replicate n \<lparr>change_path = vault_file ''a.md'', change_of = MODIFIED, previous_path = None\<rparr>"

theorem episode_warns_once_witness:
  "\<exists>w' m'. queue_changes (sample_burst 5) (new_watcher sample_root 300 {} 2, Some (new_metrics 10)) = (w', Some m')
     \<and> counter m' ''queue_depth_warnings'' = 1 \<and> length (watch_log w') = 1"
proof -
  let ?w = "new_watcher sample_root 300 {} 2" and ?m = "new_metrics 10"
  have h: "\<not> rejecting_events ?w" "pending ?w = []" "\<not> warned_this_episode ?w" "sample_burst 5 \<noteq> []"
    by (simp_all add: new_watcher_def sample_burst_def)
  have "snd (queue_changes (sample_burst 5) (?w, Some ?m)) \<noteq> None"
    using queue_changes_gauge [OF h(1,4), of "Some ?m"] by auto
  then obtain w' m' where r: "queue_changes (sample_burst 5) (?w, Some ?m) = (w', Some m')"
    by (cases "queue_changes (sample_burst 5) (?w, Some ?m)") auto
  have z: "counter ?m ''queue_depth_warnings'' = 0" "pending_warn_threshold ?w = 2" "watch_log ?w = []"
    "length (sample_burst 5) = 5"
    by (simp_all add: counter_def new_metrics_def dict_get_def new_watcher_def sample_burst_def)
  show ?thesis using episode_warns_once [OF h r] r z by auto
qed

text \<open>Nothing is lost or repeated between the queue and the batch: the changes queued since the
  last batch are exactly the next batch, in order, whether the debounce timer flushes them or
  shutdown drains them; afterwards the queue is empty, the warning is rearmed, the gauge is 0, and
  a second flush or drain finds nothing.\<close>

theorem batch_is_what_was_queued:
  assumes "\<not> rejecting_events w" "pending w = []" "cs \<noteq> []"
    and "queue_changes cs (w, m) = (w', m')" "hand_over \<in> {flush, drain_pending_batch}"
    and "hand_over (w', m') = (b, w'', m'')"
  shows "b = Some \<lparr>changes = cs\<rparr> \<and> pending w'' = [] \<and> \<not> warned_this_episode w'' \<and> flush_timer w'' = None
    \<and> m'' = map_option (set_gauge ''queue_depth'' 0) m' \<and> fst (flush (w'', m'')) = None
    \<and> fst (drain_pending_batch (w'', m'')) = None"
proof -
  have p: "pending w' = cs"
    using queue_changes_pending [OF assms(1), of cs m] assms(2,4) by simp
  from assms(5) consider "hand_over = flush" | "hand_over = drain_pending_batch" by blast
  then show ?thesis
  proof cases
    case 1
    with p assms(3,6) show ?thesis
      by (auto simp: flush_def take_pending_def drain_pending_batch_def frame_simps Let_def)
  next
    case 2
    with p assms(3,6) show ?thesis
      by (auto simp: flush_def take_pending_def drain_pending_batch_def frame_simps Let_def)
  qed
qed

theorem batch_is_what_was_queued_witness:
  "fst (flush (queue_changes (sample_burst 2) (new_watcher sample_root 300 {} 2, None)))
    = Some \<lparr>changes = sample_burst 2\<rparr>"
proof -
  let ?w = "new_watcher sample_root 300 {} 2"
  obtain w' m' where q: "queue_changes (sample_burst 2) (?w, None) = (w', m')"
    by (cases "queue_changes (sample_burst 2) (?w, None)")
  obtain b w'' m'' where f: "flush (w', m') = (b, w'', m'')" by (cases "flush (w', m')")
  have h: "\<not> rejecting_events ?w" "pending ?w = []" "sample_burst 2 \<noteq> []"
    by (simp_all add: new_watcher_def sample_burst_def)
  have "flush \<in> {flush, drain_pending_batch}" by simp
  from batch_is_what_was_queued [OF h q this f] q f show ?thesis by simp
qed

end
