(* ===== verification/Owner_Only.thy ===== *)
theory Owner_Only
  imports Vault_Paths
begin

text \<open>
  \<open>artifact_lifecycle/security.py\<close> and the disk it works on: the directories, files and
  permission bits the daemon writes. A file or directory that does not exist yet is created
  with the process's default bits; \<open>restrict_to_owner\<close> is the only call that narrows them.
  What stands in the way raises as the operating system has it: a missing directory, a file where a directory is
  needed, a directory where a file is.
\<close>

datatype content = JsonFile json | TextFile pystr | SqliteFile | LogFile

record disk =
  d_posix :: bool                       \<comment> \<open>\<open>os.name == "posix"\<close>\<close>
  d_default :: "nat \<times> nat"              \<comment> \<open>bits of a new directory and of a new file\<close>
  d_dirs :: "pypath list"
  d_files :: "(pypath, content) dict"
  d_modes :: "(pypath, nat) dict"

definition OWNER_ONLY_DIR_MODE :: nat where
  "OWNER_ONLY_DIR_MODE = 7 * 64"

definition OWNER_ONLY_FILE_MODE :: nat where
  "OWNER_ONLY_FILE_MODE = 6 * 64"

definition not_found :: "pypath \<Rightarrow> exn" where
  "not_found p = Exn FileNotFoundError (path_str p)"

text \<open>A path, its ancestors before it.\<close>

definition path_ancestors :: "pypath \<Rightarrow> pypath list" where
  "path_ancestors p = map (\<lambda>n. PyPath (path_root p) (take n (path_parts p))) [0..<Suc (length (path_parts p))]"

definition below_file :: "pypath \<Rightarrow> disk \<Rightarrow> bool" where
  "below_file p d \<longleftrightarrow> list_ex (\<lambda>a. a \<in> set (keys (d_files d))) (butlast (path_ancestors p))"

definition not_there :: "pypath \<Rightarrow> disk \<Rightarrow> exn" where
  "not_there p d = (if below_file p d then Exn NotADirectoryError (path_str p) else not_found p)"

definition d_exists :: "disk \<Rightarrow> pypath \<Rightarrow> bool" where
  "d_exists d p \<longleftrightarrow> p \<in> set (d_dirs d) \<or> p \<in> set (keys (d_files d))"

definition chmod :: "pypath \<Rightarrow> nat \<Rightarrow> disk \<Rightarrow> disk res" where
  "chmod p mode d =
     (if d_exists d p then Inr (d\<lparr>d_modes := AList.update p mode (d_modes d)\<rparr>) else Inl (not_there p d))"

definition restrict_to_owner :: "pypath \<Rightarrow> disk \<Rightarrow> disk res" where
  "restrict_to_owner p d =
     (if \<not> d_posix d then Inr d
      else let mode = (if p \<in> set (d_dirs d) then OWNER_ONLY_DIR_MODE else OWNER_ONLY_FILE_MODE)
           in chmod p mode d)"

definition path_parent :: "pypath \<Rightarrow> pypath" where
  "path_parent p = PyPath (path_root p) (butlast (path_parts p))"

text \<open>Opening a path for writing: the file keeps its bits when it exists.\<close>

definition write_file :: "pypath \<Rightarrow> content \<Rightarrow> disk \<Rightarrow> disk res" where
  "write_file p c d =
     (if path_parent p \<notin> set (d_dirs d) then Inl (not_there p d)
      else if p \<in> set (d_dirs d) then Inl (Exn IsADirectoryError (path_str p))
      else if p \<in> set (keys (d_files d)) then Inr (d\<lparr>d_files := AList.update p c (d_files d)\<rparr>)
      else Inr (d\<lparr>d_files := AList.update p c (d_files d),
                  d_modes := AList.update p (snd (d_default d)) (d_modes d)\<rparr>))"

text \<open>\<open>p.mkdir(parents=True, exist_ok=True)\<close>: every missing ancestor is created, with default bits, unless a file is in the way.\<close>

definition mkdir_one :: "pypath \<Rightarrow> disk \<Rightarrow> disk" where
  "mkdir_one p d =
     (if p \<in> set (d_dirs d) then d
      else d\<lparr>d_dirs := d_dirs d @ [p], d_modes := AList.update p (fst (d_default d)) (d_modes d)\<rparr>)"

definition mkdir_parents :: "pypath \<Rightarrow> disk \<Rightarrow> disk res" where
  "mkdir_parents p d =
     (if p \<in> set (keys (d_files d)) then Inl (Exn FileExistsError (path_str p))
      else if below_file p d then Inl (Exn NotADirectoryError (path_str p))
      else Inr (fold mkdir_one (path_ancestors p) d))"

text \<open>The two calls the program makes for each of its directories: \<open>mkdir\<close>, then \<open>restrict_to_owner\<close>.\<close>

definition mkdir_restricted :: "pypath \<Rightarrow> disk \<Rightarrow> disk \<times> unit res" where
  "mkdir_restricted p d =
     (case mkdir_parents p d of
        Inl e \<Rightarrow> (d, Inl e)
      | Inr d1 \<Rightarrow> (case restrict_to_owner p d1 of Inl e \<Rightarrow> (d1, Inl e) | Inr d2 \<Rightarrow> (d2, Inr ())))"

section \<open>What the operations leave\<close>

text \<open>A path the daemon manages is owner-only: on POSIX, \<open>0700\<close> for a directory, \<open>0600\<close> for a file.\<close>

definition owner_only :: "disk \<Rightarrow> pypath \<Rightarrow> bool" where
  "owner_only d p \<longleftrightarrow> (d_posix d \<longrightarrow>
     map_of (d_modes d) p = Some (if p \<in> set (d_dirs d) then OWNER_ONLY_DIR_MODE else OWNER_ONLY_FILE_MODE))"

text \<open>Every file under the directory is owner-only.\<close>

definition files_owner_only :: "disk \<Rightarrow> bool" where
  "files_owner_only d \<longleftrightarrow> (\<forall>p \<in> set (keys (d_files d)). owner_only d p)"

lemma restrict_frames [frame_simps]:
  assumes "restrict_to_owner p d = Inr d'"
  shows "d_files d' = d_files d" "d_dirs d' = d_dirs d" "d_posix d' = d_posix d"
  using assms by (auto simp: restrict_to_owner_def chmod_def Let_def split: if_splits)

lemma restrict_owner_only: "restrict_to_owner p d = Inr d' \<Longrightarrow> owner_only d' p"
  by (auto simp: restrict_to_owner_def chmod_def owner_only_def Let_def dict_simps split: if_splits)

lemma restrict_keeps: "restrict_to_owner p d = Inr d' \<Longrightarrow> owner_only d q \<Longrightarrow> owner_only d' q"
  by (auto simp: restrict_to_owner_def chmod_def owner_only_def Let_def dict_simps split: if_splits)

text \<open>A write followed by \<open>restrict_to_owner\<close> keeps every file owner-only.\<close>

definition write_restricted :: "pypath \<Rightarrow> content \<Rightarrow> disk \<Rightarrow> disk res" where
  "write_restricted p c d = bindR (write_file p c d) (restrict_to_owner p)"

lemma write_file_other:
  "write_file p c d = Inr d' \<Longrightarrow> q \<noteq> p \<Longrightarrow> owner_only d' q = owner_only d q"
  by (auto simp: write_file_def owner_only_def dict_simps split: if_splits)

lemma write_restricted_owner_only:
  assumes "write_restricted p c d = Inr d'"
  shows "owner_only d' p"
    and "\<And>q. owner_only d q \<Longrightarrow> q \<noteq> p \<Longrightarrow> owner_only d' q"
    and "map_of (d_files d') = (map_of (d_files d))(p \<mapsto> c)"
    and "d_dirs d' = d_dirs d" and "d_posix d' = d_posix d"
proof -
  from assms obtain m where m: "write_file p c d = Inr m" "restrict_to_owner p m = Inr d'"
    by (auto simp: write_restricted_def bindR_Inr_iff)
  from m(2) show "owner_only d' p" by (rule restrict_owner_only)
  show "owner_only d' q" if "owner_only d q" "q \<noteq> p" for q
    using that m write_file_other restrict_keeps by blast
  show "map_of (d_files d') = (map_of (d_files d))(p \<mapsto> c)" "d_dirs d' = d_dirs d" "d_posix d' = d_posix d"
    using m(1)
    by (auto simp: write_file_def restrict_frames [OF m(2)] dict_simps split: if_splits)
qed

lemma write_restricted_files_owner_only:
  assumes "write_restricted p c d = Inr d'" "files_owner_only d"
  shows "files_owner_only d'"
  unfolding files_owner_only_def
proof
  fix q
  assume "q \<in> set (keys (d_files d'))"
  then have "q = p \<or> q \<in> set (keys (d_files d))"
    using write_restricted_owner_only(3) [OF assms(1)]
    by (metis fun_upd_apply map_of_None_iff)
  with assms write_restricted_owner_only(1,2) [OF assms(1)] show "owner_only d' q"
    unfolding files_owner_only_def by blast
qed

text \<open>A path that can be opened for writing.\<close>

definition writable :: "pypath \<Rightarrow> disk \<Rightarrow> bool" where
  "writable p d \<longleftrightarrow> path_parent p \<in> set (d_dirs d) \<and> p \<notin> set (d_dirs d)"

lemma write_file_Inr: "(\<exists>d'. write_file p c d = Inr d') \<longleftrightarrow> writable p d"
  by (simp add: write_file_def writable_def)

lemma write_restricted_Inr:
  assumes "writable p d"
  shows "\<exists>d'. write_restricted p c d = Inr d'"
  using assms
  by (auto simp: writable_def write_restricted_def write_file_def restrict_to_owner_def chmod_def d_exists_def
      Let_def keys_update)

section \<open>Making directories\<close>

lemma path_in_ancestors: "p \<in> set (path_ancestors p)"
  by (cases p) (simp add: path_ancestors_def)

lemma ancestors_split: "set (path_ancestors p) = insert p (set (butlast (path_ancestors p)))"
  by (cases p) (simp add: path_ancestors_def)

lemma ancestor_shorter: "q \<in> set (path_ancestors p) \<Longrightarrow> length (path_parts q) \<le> length (path_parts p)"
  by (auto simp: path_ancestors_def)

lemma child_not_ancestor:
  assumes "path_parts p \<noteq> []"
  shows "p \<notin> set (path_ancestors (path_parent p))"
proof
  assume "p \<in> set (path_ancestors (path_parent p))"
  moreover have "length (path_parts (path_parent p)) < length (path_parts p)"
    using assms by (simp add: path_parent_def)
  ultimately show False using ancestor_shorter by fastforce
qed

text \<open>The paths of \<open>DaemonPaths\<close> lie directly in the output directory.\<close>

lemma artifact_parents:
  "path_parent (vault_index_db ps) = output_dir ps" "path_parent (graph_cache_json ps) = output_dir ps"
  "path_parts (vault_index_db ps) \<noteq> []" "path_parts (graph_cache_json ps) \<noteq> []"
  "vault_index_db ps \<notin> set (path_ancestors (output_dir ps))" "graph_cache_json ps \<notin> set (path_ancestors (output_dir ps))"
proof -
  have "path_of_str (pstr ''vault_index.db'') = PyPath [] [pstr ''vault_index.db'']"
    "path_of_str (pstr ''graph_cache.json'') = PyPath [] [pstr ''graph_cache.json'']" by code_simp+
  then show p: "path_parent (vault_index_db ps) = output_dir ps" "path_parent (graph_cache_json ps) = output_dir ps"
    "path_parts (vault_index_db ps) \<noteq> []" "path_parts (graph_cache_json ps) \<noteq> []"
    by (simp_all add: vault_index_db_def graph_cache_json_def path_child_def path_parent_def)
  show "vault_index_db ps \<notin> set (path_ancestors (output_dir ps))" "graph_cache_json ps \<notin> set (path_ancestors (output_dir ps))"
    using child_not_ancestor [OF p(3)] child_not_ancestor [OF p(4)] by (simp_all add: p)
qed

text \<open>A file is in the way: it is the path itself or one of its ancestors.\<close>

lemma mkdir_parents_outcome:
  "(\<exists>d'. mkdir_parents p d = Inr d') \<longleftrightarrow> (\<forall>a \<in> set (path_ancestors p). a \<notin> set (keys (d_files d)))"
  "mkdir_parents p d = Inl e \<Longrightarrow> kind_of e = (if p \<in> set (keys (d_files d)) then FileExistsError else NotADirectoryError)"
  unfolding ancestors_split by (auto simp: mkdir_parents_def below_file_def list_ex_iff split: if_splits)

lemma mkdir_one_dirs: "set (d_dirs (mkdir_one p d)) = insert p (set (d_dirs d))" "d_files (mkdir_one p d) = d_files d"
  "d_posix (mkdir_one p d) = d_posix d"
  by (auto simp: mkdir_one_def)

lemma mkdir_parents_dirs:
  assumes "mkdir_parents p d = Inr d1"
  shows "set (d_dirs d1) = set (path_ancestors p) \<union> set (d_dirs d)" "d_files d1 = d_files d" "d_posix d1 = d_posix d"
proof -
  have "set (d_dirs (fold mkdir_one ps d)) = set ps \<union> set (d_dirs d) \<and> d_files (fold mkdir_one ps d) = d_files d
      \<and> d_posix (fold mkdir_one ps d) = d_posix d" for ps
    by (induction ps arbitrary: d) (auto simp: mkdir_one_dirs)
  with assms show "set (d_dirs d1) = set (path_ancestors p) \<union> set (d_dirs d)" "d_files d1 = d_files d" "d_posix d1 = d_posix d"
    by (auto simp: mkdir_parents_def split: if_splits)
qed

lemma mkdir_parents_keeps:
  assumes "mkdir_parents p d = Inr d1" "q \<notin> set (path_ancestors p)" "owner_only d q"
  shows "owner_only d1 q"
proof -
  have "q \<notin> set ps \<Longrightarrow> owner_only d q \<Longrightarrow> owner_only (fold mkdir_one ps d) q" for ps
    by (induction ps arbitrary: d) (auto simp: mkdir_one_def owner_only_def dict_simps)
  with assms show ?thesis by (auto simp: mkdir_parents_def split: if_splits)
qed

lemma restrict_Inr: "d_exists d p \<Longrightarrow> \<exists>d'. restrict_to_owner p d = Inr d'"
  by (simp add: restrict_to_owner_def chmod_def Let_def)

text \<open>It fails exactly if a file is in the way, and then has done nothing.\<close>

lemma mkdir_restricted_outcome:
  assumes "mkdir_restricted p d = (d', r)"
  shows "r = Inr () \<longleftrightarrow> (\<forall>a \<in> set (path_ancestors p). a \<notin> set (keys (d_files d)))"
    and "r = Inl e \<Longrightarrow> d' = d \<and> kind_of e = (if p \<in> set (keys (d_files d)) then FileExistsError else NotADirectoryError)"
    and "r = Inr () \<Longrightarrow> set (d_dirs d') = set (path_ancestors p) \<union> set (d_dirs d) \<and> owner_only d' p
      \<and> (\<forall>q. q \<notin> set (path_ancestors p) \<longrightarrow> owner_only d q \<longrightarrow> owner_only d' q)"
    and "d_files d' = d_files d" "d_posix d' = d_posix d"
proof -
  have ok: "mkdir_parents p d = Inr d1 \<Longrightarrow> \<exists>d2. restrict_to_owner p d1 = Inr d2" for d1
    using mkdir_parents_dirs(1) [of p d d1] path_in_ancestors by (intro restrict_Inr) (simp add: d_exists_def)
  consider (fails) e' where "mkdir_parents p d = Inl e'" "d' = d" "r = Inl e'"
    | (made) d1 where "mkdir_parents p d = Inr d1" "restrict_to_owner p d1 = Inr d'" "r = Inr ()"
    using assms ok by (auto simp: mkdir_restricted_def split: sum.splits)
  note cases = this
  show "r = Inr () \<longleftrightarrow> (\<forall>a \<in> set (path_ancestors p). a \<notin> set (keys (d_files d)))"
    using mkdir_parents_outcome(1) [of p d] by (cases rule: cases) auto
  show "r = Inl e \<Longrightarrow> d' = d \<and> kind_of e = (if p \<in> set (keys (d_files d)) then FileExistsError else NotADirectoryError)"
    using mkdir_parents_outcome(2) by (cases rule: cases) auto
  show "r = Inr () \<Longrightarrow> set (d_dirs d') = set (path_ancestors p) \<union> set (d_dirs d) \<and> owner_only d' p
      \<and> (\<forall>q. q \<notin> set (path_ancestors p) \<longrightarrow> owner_only d q \<longrightarrow> owner_only d' q)"
    by (cases rule: cases)
      (auto simp: restrict_frames(2) mkdir_parents_dirs(1) intro: restrict_owner_only restrict_keeps mkdir_parents_keeps)
  show "d_files d' = d_files d" "d_posix d' = d_posix d"
    by (cases rule: cases; simp add: restrict_frames(1,3) mkdir_parents_dirs(2,3))+
qed

end
