(* ===== verification/Interfaces.thy ===== *)
theory Interfaces
  imports Prelude
begin

text \<open>
  The contracts between the components, as locales. A client's lemmas are proved once from the
  laws; the component that provides the operations interprets the locale on its own definitions.
  \<^item> \<open>kv_store\<close>: a keyed store with insertion and deletion. The extraction cache and the
    \<open>files\<close> table of the vault index provide it; a batch is a list of writes to it.
  \<^item> \<open>memo_cache\<close>: a cache that may forget. The LRU query cache provides it; the dispatch of
    \<open>query_graph\<close> is its client.
  \<^item> \<open>transition_system\<close> and \<open>terminating_system\<close>: a step relation with an invariant, and
    one that always makes progress towards a final state.
\<close>

section \<open>Keyed stores\<close>

datatype ('k, 'v) store_op = Put 'k 'v | Del 'k

fun op_key :: "('k, 'v) store_op \<Rightarrow> 'k" where
  "op_key (Put k v) = k"
| "op_key (Del k) = k"

fun apply_op :: "('k \<Rightarrow> 'v \<Rightarrow> 's \<Rightarrow> 's) \<Rightarrow> ('k \<Rightarrow> 's \<Rightarrow> 's) \<Rightarrow> ('k, 'v) store_op \<Rightarrow> 's \<Rightarrow> 's" where
  "apply_op put del (Put k v) s = put k v s"
| "apply_op put del (Del k) s = del k s"

definition apply_ops ::
  "('k \<Rightarrow> 'v \<Rightarrow> 's \<Rightarrow> 's) \<Rightarrow> ('k \<Rightarrow> 's \<Rightarrow> 's) \<Rightarrow> ('k, 'v) store_op list \<Rightarrow> 's \<Rightarrow> 's" where
  "apply_ops put del ops s = fold (apply_op put del) ops s"

lemma apply_ops_Nil [simp]: "apply_ops put del [] s = s"
  by (simp add: apply_ops_def)

lemma apply_ops_Cons [simp]:
  "apply_ops put del (w # ws) s = apply_ops put del ws (apply_op put del w s)"
  by (simp add: apply_ops_def)

lemma apply_ops_append [simp]:
  "apply_ops put del (ws @ vs) s = apply_ops put del vs (apply_ops put del ws s)"
  by (simp add: apply_ops_def)

text \<open>The effect of a list of writes on one key: \<open>None\<close> when no write is to it.\<close>

fun last_write :: "('k, 'v) store_op list \<Rightarrow> 'k \<Rightarrow> 'v option option" where
  "last_write [] k = None"
| "last_write (w # ws) k =
     (case last_write ws k of
        Some r \<Rightarrow> Some r
      | None \<Rightarrow> (case w of
          Put k' v \<Rightarrow> if k' = k then Some (Some v) else None
        | Del k' \<Rightarrow> if k' = k then Some None else None))"

lemma last_write_None_iff: "last_write ws k = None \<longleftrightarrow> k \<notin> op_key ` set ws"
  by (induction ws) (auto split: option.splits store_op.splits)

lemma last_write_append:
  "last_write (ws @ vs) k = (case last_write vs k of Some r \<Rightarrow> Some r | None \<Rightarrow> last_write ws k)"
  by (induction ws) (auto split: option.splits)

locale kv_store =
  fixes lookup :: "'s \<Rightarrow> 'k \<Rightarrow> 'w option"
    and put :: "'k \<Rightarrow> 'v \<Rightarrow> 's \<Rightarrow> 's"
    and del :: "'k \<Rightarrow> 's \<Rightarrow> 's"
    and view :: "'v \<Rightarrow> 'w"
    and inv :: "'s \<Rightarrow> bool"
  assumes lookup_put: "inv s \<Longrightarrow> lookup (put k v s) = (lookup s)(k \<mapsto> view v)"
    and lookup_del: "inv s \<Longrightarrow> lookup (del k s) = (lookup s)(k := None)"
    and inv_put: "inv s \<Longrightarrow> inv (put k v s)"
    and inv_del: "inv s \<Longrightarrow> inv (del k s)"
begin

lemma inv_apply_op: "inv s \<Longrightarrow> inv (apply_op put del w s)"
  by (cases w) (simp_all add: inv_put inv_del)

lemma inv_apply_ops: "inv s \<Longrightarrow> inv (apply_ops put del ws s)"
  by (induction ws arbitrary: s) (simp_all add: inv_apply_op)

lemma lookup_apply_op:
  "inv s \<Longrightarrow> lookup (apply_op put del w s) k =
     (case last_write [w] k of None \<Rightarrow> lookup s k | Some r \<Rightarrow> map_option view r)"
  by (cases w) (simp_all add: lookup_put lookup_del)

lemma lookup_apply_ops:
  "inv s \<Longrightarrow> lookup (apply_ops put del ws s) k =
     (case last_write ws k of None \<Rightarrow> lookup s k | Some r \<Rightarrow> map_option view r)"
proof (induction ws arbitrary: s)
  case (Cons w ws)
  then show ?case
    by (simp add: inv_apply_op lookup_apply_op split: option.split)
qed simp

text \<open>A key that no write names keeps its value.\<close>

lemma lookup_apply_ops_other:
  "inv s \<Longrightarrow> k \<notin> op_key ` set ws \<Longrightarrow> lookup (apply_ops put del ws s) k = lookup s k"
  by (simp add: lookup_apply_ops last_write_None_iff [symmetric])

text \<open>Whatever was in the store, the last write to a key decides what is there.\<close>

lemma lookup_apply_ops_agree:
  assumes "inv s" "inv t" "k \<in> op_key ` set ws"
  shows "lookup (apply_ops put del ws s) k = lookup (apply_ops put del ws t) k"
proof -
  from assms(3) obtain r where "last_write ws k = Some r"
    using last_write_None_iff by fastforce
  with assms(1,2) show ?thesis by (simp add: lookup_apply_ops)
qed

text \<open>Replaying the same writes changes nothing that can be observed.\<close>

lemma lookup_apply_ops_idem:
  assumes "inv s"
  shows "lookup (apply_ops put del ws (apply_ops put del ws s)) = lookup (apply_ops put del ws s)"
proof
  fix k
  show "lookup (apply_ops put del ws (apply_ops put del ws s)) k = lookup (apply_ops put del ws s) k"
    using assms by (cases "last_write ws k") (simp_all add: lookup_apply_ops inv_apply_ops)
qed

lemma lookup_del_same: "inv s \<Longrightarrow> lookup (del k s) k = None"
  by (simp add: lookup_del)

end

section \<open>Caches that may forget\<close>

locale memo_cache =
  fixes fetch :: "'k \<Rightarrow> 's \<Rightarrow> 'v option \<times> 's"
    and store :: "'k \<Rightarrow> 'v \<Rightarrow> 's \<Rightarrow> 's"
    and content :: "'s \<Rightarrow> 'k \<Rightarrow> 'v option"
    and inv :: "'s \<Rightarrow> bool"
  assumes fetch_value: "inv s \<Longrightarrow> fst (fetch k s) = content s k"
    and fetch_content: "inv s \<Longrightarrow> content (snd (fetch k s)) = content s"
    and store_content: "inv s \<Longrightarrow> content (store k v s) \<subseteq>\<^sub>m (content s)(k \<mapsto> v)"
    and inv_fetch: "inv s \<Longrightarrow> inv (snd (fetch k s))"
    and inv_store: "inv s \<Longrightarrow> inv (store k v s)"
begin

text \<open>Every entry is a value that the specification \<open>ok\<close> allows for its key.\<close>

definition sound :: "('k \<Rightarrow> 'v \<Rightarrow> bool) \<Rightarrow> 's \<Rightarrow> bool" where
  "sound ok s \<longleftrightarrow> inv s \<and> (\<forall>k v. content s k = Some v \<longrightarrow> ok k v)"

lemma sound_fetch_value: "sound ok s \<Longrightarrow> fst (fetch k s) = Some v \<Longrightarrow> ok k v"
  by (simp add: sound_def fetch_value)

lemma sound_fetch: "sound ok s \<Longrightarrow> sound ok (snd (fetch k s))"
  by (simp add: sound_def inv_fetch fetch_content)

lemma sound_store:
  assumes "sound ok s" "ok k v"
  shows "sound ok (store k v s)"
  unfolding sound_def
proof (intro conjI allI impI)
  show "inv (store k v s)" using assms(1) by (simp add: sound_def inv_store)
next
  fix k' w
  assume "content (store k v s) k' = Some w"
  moreover have "content (store k v s) \<subseteq>\<^sub>m (content s)(k \<mapsto> v)"
    using assms(1) by (simp add: sound_def store_content)
  ultimately have "((content s)(k \<mapsto> v)) k' = Some w"
    by (metis domI map_le_def)
  with assms show "ok k' w" by (auto simp: sound_def split: if_splits)
qed

lemma sound_weaken: "sound ok s \<Longrightarrow> (\<And>k v. ok k v \<Longrightarrow> ok' k v) \<Longrightarrow> sound ok' s"
  by (auto simp: sound_def)

end

section \<open>Step relations\<close>

locale transition_system =
  fixes init :: "'s \<Rightarrow> bool"
    and step :: "'s \<Rightarrow> 's \<Rightarrow> bool"
    and inv :: "'s \<Rightarrow> bool"
  assumes inv_init: "init s \<Longrightarrow> inv s"
    and inv_step: "inv s \<Longrightarrow> step s t \<Longrightarrow> inv t"
begin

lemma inv_steps: "step\<^sup>*\<^sup>* s t \<Longrightarrow> inv s \<Longrightarrow> inv t"
  by (induction rule: rtranclp_induct) (auto intro: inv_step)

lemma reachable_inv: "init s \<Longrightarrow> step\<^sup>*\<^sup>* s t \<Longrightarrow> inv t"
  using inv_steps inv_init by blast

end

locale terminating_system = transition_system +
  fixes final :: "'s \<Rightarrow> bool"
    and todo :: "'s \<Rightarrow> nat"
  assumes step_todo: "inv s \<Longrightarrow> step s t \<Longrightarrow> todo t < todo s"
    and progress: "inv s \<Longrightarrow> \<not> final s \<Longrightarrow> \<exists>t. step s t"
begin

text \<open>Every run can be completed, and a run that cannot go on is complete.\<close>

lemma reaches_final: "inv s \<Longrightarrow> \<exists>t. step\<^sup>*\<^sup>* s t \<and> final t"
proof (induction "todo s" arbitrary: s rule: less_induct)
  case less
  show ?case
  proof (cases "final s")
    case False
    with less.prems obtain u where u: "step s u" using progress by blast
    with less.prems have "todo u < todo s" "inv u" by (auto intro: step_todo inv_step)
    with less.hyps obtain t where "step\<^sup>*\<^sup>* u t" "final t" by blast
    with u show ?thesis by (meson converse_rtranclp_into_rtranclp)
  qed blast
qed

lemma stuck_is_final: "init s \<Longrightarrow> step\<^sup>*\<^sup>* s t \<Longrightarrow> \<nexists>u. step t u \<Longrightarrow> final t"
  using progress reachable_inv by blast

end

end
