(* ===== verification/Vault_Extraction.thy ===== *)
theory Vault_Extraction
  imports Batching Owner_Only Interfaces
begin

text \<open>
  \<open>vault_compiler/extraction.py\<close>: dispatch to graphify's extractors, the isolation of a failing
  file, the in-RAM \<open>ExtractionCache\<close> and the compilation of a batch into it. The state of
  \<open>extract_batch\<close> is the cache, the metrics registry and the log; it is returned also when the
  call raises, since what was done before the exception stays done.
\<close>

section \<open>One file\<close>

text \<open>\<open>for x in result.get(key, []): x["source_file"] = relative\<close>.\<close>

fun stamp_item :: "pystr \<Rightarrow> json \<Rightarrow> json res" where
  "stamp_item relative (JObj d) = Inr (JObj (AList.update (pstr ''source_file'') (JStr relative) d))"
| "stamp_item relative v = Inl (Exn TypeError (pstr ''object does not support item assignment''))"

fun stamp_value :: "pystr \<Rightarrow> json \<Rightarrow> json res" where
  "stamp_value relative (JArr xs) = bindR (mapR (stamp_item relative) xs) (\<lambda>ys. Inr (JArr ys))"
| "stamp_value relative v =
     bindR (py_iter v) (\<lambda>xs. if xs = [] then Inr v
       else Inl (Exn TypeError (pstr ''object does not support item assignment'')))"

definition stamp_key :: "pystr \<Rightarrow> string \<Rightarrow> pyobj \<Rightarrow> pyobj res" where
  "stamp_key relative key result =
     (case map_of result (pstr key) of
        None \<Rightarrow> Inr result
      | Some v \<Rightarrow> bindR (stamp_value relative v) (\<lambda>v'. Inr (AList.update (pstr key) v' result)))"

definition EXTRACTORS :: "world \<Rightarrow> (pystr, pypath \<Rightarrow> pyobj res) dict" where
  "EXTRACTORS W = [(pstr ''.md'', w_extract_markdown W), (pstr ''.py'', w_extract_python W)]"

definition extract_file :: "world \<Rightarrow> pypath \<Rightarrow> pypath \<Rightarrow> pyobj res" where
  "extract_file W path base =
     bindR (dict_index (EXTRACTORS W) id (path_suffix path)) (\<lambda>extractor.
     bindR (extractor path) (\<lambda>result.
     bindR (relative_to path base) (\<lambda>rel.
     bindR (stamp_key (path_str rel) ''nodes'' result) (stamp_key (path_str rel) ''edges''))))"

definition failure_message :: "pystr \<Rightarrow> pypath \<Rightarrow> pystr \<Rightarrow> pystr" where
  "failure_message log_prefix relative reason =
     log_prefix @ pstr '' for '' @ path_str relative @ pstr '': '' @ reason"

text \<open>The result, if any, the registry and the warnings.\<close>

definition extract_file_with_failure_isolation ::
  "world \<Rightarrow> pypath \<Rightarrow> pypath \<Rightarrow> pypath \<Rightarrow> pystr \<Rightarrow> metrics option
     \<Rightarrow> (pyobj option \<times> metrics option \<times> pystr list) res" where
  "extract_file_with_failure_isolation W path base relative log_prefix m =
     (let failed = (\<lambda>text. bindR (sanitize_log_text W text base) (\<lambda>reason.
            Inr (None, map_option (increment ''extraction_errors'' 1) m,
                 [failure_message log_prefix relative reason])))
      in case extract_file W path base of
           Inl e \<Rightarrow> failed (exn_str e)
         | Inr result \<Rightarrow>
             (case map_of result (pstr ''error'') of
                Some err \<Rightarrow> failed (py_str (w_repr W) err)
              | None \<Rightarrow> Inr (Some result, m, [])))"

section \<open>The cache\<close>

record extraction_cache =
  entries :: "(pystr, pyobj) dict"
  mtimes :: "(pystr, real) dict"

definition empty_cache :: extraction_cache where
  "empty_cache = \<lparr>entries = [], mtimes = []\<rparr>"

definition cache_put :: "pystr \<Rightarrow> pyobj \<times> real option \<Rightarrow> extraction_cache \<Rightarrow> extraction_cache" where
  "cache_put key v c =
     c\<lparr>entries := AList.update key (fst v) (entries c),
       mtimes := (case snd v of None \<Rightarrow> mtimes c | Some t \<Rightarrow> AList.update key t (mtimes c))\<rparr>"

definition cache_del :: "pystr \<Rightarrow> extraction_cache \<Rightarrow> extraction_cache" where
  "cache_del key c = c\<lparr>entries := AList.delete key (entries c), mtimes := AList.delete key (mtimes c)\<rparr>"

definition cache_get :: "extraction_cache \<Rightarrow> pypath \<Rightarrow> pyobj option" where
  "cache_get c relative = map_of (entries c) (path_str relative)"

definition cache_set :: "pypath \<Rightarrow> pyobj \<Rightarrow> real option \<Rightarrow> extraction_cache \<Rightarrow> extraction_cache" where
  "cache_set relative result mt c = cache_put (path_str relative) (result, mt) c"

definition cache_mtime :: "extraction_cache \<Rightarrow> pypath \<Rightarrow> real option" where
  "cache_mtime c relative = map_of (mtimes c) (path_str relative)"

definition cache_delete :: "pypath \<Rightarrow> extraction_cache \<Rightarrow> extraction_cache" where
  "cache_delete relative c = cache_del (path_str relative) c"

definition cache_entries :: "extraction_cache \<Rightarrow> (pypath, pyobj) dict" where
  "cache_entries c = fold (\<lambda>(key, v). AList.update (path_of_str key) v) (entries c) []"

text \<open>One entry per key, and an mtime only for a cached file.\<close>

definition cache_ok :: "extraction_cache \<Rightarrow> bool" where
  "cache_ok c \<longleftrightarrow> dict_ok (entries c) \<and> dict_ok (mtimes c) \<and>
     set (keys (mtimes c)) \<subseteq> set (keys (entries c))"

lemma cache_ok_empty [simp]: "cache_ok empty_cache"
  by (simp add: cache_ok_def empty_cache_def)

interpretation cache_store: kv_store
  "\<lambda>c. map_of (entries c)" cache_put cache_del fst cache_ok
proof unfold_locales
  fix c :: extraction_cache and k :: pystr and v :: "pyobj \<times> real option"
  assume ok: "cache_ok c"
  show "map_of (entries (cache_put k v c)) = (map_of (entries c))(k \<mapsto> fst v)"
    by (simp add: cache_put_def dict_simps)
  show "map_of (entries (cache_del k c)) = (map_of (entries c))(k := None)"
    by (simp add: cache_del_def dict_simps)
  show "cache_ok (cache_put k v c)"
    using ok by (auto simp: cache_ok_def cache_put_def dict_simps split: option.split)
  show "cache_ok (cache_del k c)"
    using ok by (auto simp: cache_ok_def cache_del_def dict_simps)
qed

lemma cache_ok_set: "cache_ok c \<Longrightarrow> cache_ok (cache_set r v mt c)"
  by (simp add: cache_set_def cache_store.inv_put)

lemma cache_ok_delete: "cache_ok c \<Longrightarrow> cache_ok (cache_delete r c)"
  by (simp add: cache_delete_def cache_store.inv_del)

text \<open>Every key is the text of a path: what \<open>set\<close> writes.\<close>

definition canonical_keys :: "extraction_cache \<Rightarrow> bool" where
  "canonical_keys c \<longleftrightarrow> (\<forall>k \<in> set (keys (entries c)). \<exists>p. path_ok p \<and> k = path_str p)"

lemma canonical_keys_set: "canonical_keys c \<Longrightarrow> path_ok p \<Longrightarrow> canonical_keys (cache_set p r mt c)"
  by (auto simp: canonical_keys_def cache_set_def cache_put_def dict_simps)

lemma canonical_keys_delete: "canonical_keys c \<Longrightarrow> canonical_keys (cache_delete p c)"
  by (auto simp: canonical_keys_def cache_delete_def cache_del_def dict_simps)

lemma map_of_fold_entries:
  assumes "path_ok p" "\<forall>k \<in> fst ` set es. \<exists>q. path_ok q \<and> k = path_str q" "distinct (map fst es)"
  shows "map_of (fold (\<lambda>(key, v). AList.update (path_of_str key) v) es d) p
    = (case map_of es (path_str p) of Some v \<Rightarrow> Some v | None \<Rightarrow> map_of d p)"
  using assms(2,3)
proof (induction es arbitrary: d)
  case (Cons kv es)
  obtain k v where kv: "kv = (k, v)" by (cases kv)
  with Cons.prems obtain q where q: "path_ok q" "k = path_str q" by auto
  then have pq: "path_of_str k = p \<longleftrightarrow> k = path_str p"
    using assms(1) path_str_inj path_of_str_of_path by metis
  have "map_of es k = None" using Cons.prems kv by (simp add: map_of_eq_None_iff)
  with Cons pq kv show ?case
    by (auto simp: dict_simps split: option.split)
qed simp

lemma map_of_cache_entries:
  "canonical_keys c \<Longrightarrow> dict_ok (entries c) \<Longrightarrow> path_ok p \<Longrightarrow> map_of (cache_entries c) p = cache_get c p"
  by (simp add: cache_entries_def cache_get_def canonical_keys_def map_of_fold_entries split: option.split)

section \<open>Persistence\<close>

definition cache_json :: "extraction_cache \<Rightarrow> json" where
  "cache_json c =
     JObj [(pstr ''entries'', JObj (map (\<lambda>(k, v). (k, JObj v)) (entries c))),
           (pstr ''mtimes'', JObj (map (\<lambda>(k, t). (k, JFloat t)) (mtimes c)))]"

definition cache_save :: "extraction_cache \<Rightarrow> pypath \<Rightarrow> disk \<Rightarrow> disk res" where
  "cache_save c path d = write_restricted path (JsonFile (cache_json c)) d"

text \<open>
  The two dictionaries of the cache file. The code takes whatever the file holds; a value of
  another shape than \<open>save\<close> writes fails at its first use, here already at the load.
\<close>

definition shape_error :: exn where
  "shape_error = Exn TypeError (pstr ''unexpected shape of the cache file'')"

fun entry_value :: "pystr \<times> json \<Rightarrow> (pystr \<times> pyobj) res" where
  "entry_value (k, JObj v) = Inr (k, v)"
| "entry_value kv = Inl shape_error"

fun mtime_value :: "pystr \<times> json \<Rightarrow> (pystr \<times> real) res" where
  "mtime_value (k, JFloat t) = Inr (k, t)"
| "mtime_value (k, JInt i) = Inr (k, real_of_int i)"
| "mtime_value kv = Inl shape_error"

fun dict_of :: "json \<Rightarrow> pyobj res" where
  "dict_of (JObj d) = Inr d"
| "dict_of v = Inl shape_error"

definition read_json :: "pypath \<Rightarrow> disk \<Rightarrow> json res" where
  "read_json path d =
     (case map_of (d_files d) path of
        None \<Rightarrow> Inl (if path \<in> set (d_dirs d) then Exn IsADirectoryError (path_str path) else not_there path d)
      | Some (JsonFile j) \<Rightarrow> Inr j
      | Some _ \<Rightarrow> Inl (Exn ValueError (pstr ''Expecting value'')))"

definition cache_load :: "pypath \<Rightarrow> disk \<Rightarrow> extraction_cache res" where
  "cache_load path d =
     bindR (read_json path d) (\<lambda>j.
     bindR (dict_of j) (\<lambda>data.
     bindR (dict_index data id (pstr ''entries'')) (\<lambda>es.
     bindR (bindR (dict_of es) (mapR entry_value)) (\<lambda>es'.
     bindR (dict_index data id (pstr ''mtimes'')) (\<lambda>ms.
     bindR (bindR (dict_of ms) (mapR mtime_value)) (\<lambda>ms'.
       Inr \<lparr>entries = es', mtimes = ms'\<rparr>))))))"

lemma mapR_entry_value: "mapR entry_value (map (\<lambda>(k, v). (k, JObj v)) es) = Inr es"
  by (induction es) auto

lemma mapR_mtime_value: "mapR mtime_value (map (\<lambda>(k, t). (k, JFloat t)) ms) = Inr ms"
  by (induction ms) auto

section \<open>A batch\<close>

record extract_state =
  x_cache :: extraction_cache
  x_metrics :: "metrics option"
  x_log :: "pystr list"

type_synonym results = "(pypath, pyobj) dict"

definition EXTRACTION_FAILED :: pystr where
  "EXTRACTION_FAILED = pstr ''Extraction failed''"

text \<open>The tail of the loop body: extract the file at \<open>path\<close>, and cache it when that succeeded.\<close>

definition extract_and_cache ::
  "world \<Rightarrow> pypath \<Rightarrow> pypath \<Rightarrow> pypath \<Rightarrow> extract_state \<Rightarrow> extract_state \<times> (pypath \<times> pyobj) option res" where
  "extract_and_cache W base path relative st =
     (case extract_file_with_failure_isolation W path base relative EXTRACTION_FAILED (x_metrics st) of
        Inl e \<Rightarrow> (st, Inl e)
      | Inr (r, m, logs) \<Rightarrow>
          let st1 = st\<lparr>x_metrics := m, x_log := x_log st @ logs\<rparr>
          in (case r of
                None \<Rightarrow> (st1, Inr None)
              | Some result \<Rightarrow>
                  (case w_stat W path of
                     Inl e \<Rightarrow>
                       if kind_of e = FileNotFoundError
                       then (st1\<lparr>x_cache := cache_set relative result None (x_cache st1)\<rparr>,
                             Inr (Some (relative, result)))
                       else (st1, Inl e)
                   | Inr (mt, sz) \<Rightarrow>
                       (st1\<lparr>x_cache := cache_set relative result (Some mt) (x_cache st1)\<rparr>,
                        Inr (Some (relative, result))))))"

definition extract_change ::
  "world \<Rightarrow> pypath \<Rightarrow> pystr set \<Rightarrow> file_change \<Rightarrow> extract_state
     \<Rightarrow> extract_state \<times> (pypath \<times> pyobj) option res" where
  "extract_change W base nested change st =
     (case relative_to (change_path change) base of
        Inl e \<Rightarrow> (st, Inl e)
      | Inr relative \<Rightarrow>
          (case change_of change of
             DELETED \<Rightarrow> (st\<lparr>x_cache := cache_delete relative (x_cache st)\<rparr>, Inr None)
           | RENAMED \<Rightarrow>
               (case previous_path change of
                  None \<Rightarrow> (st, Inl (Exn AssertionError []))
                | Some prev \<Rightarrow>
                    (case relative_to prev base of
                       Inl e \<Rightarrow> (st, Inl e)
                     | Inr previous \<Rightarrow>
                         let st1 = st\<lparr>x_cache := cache_delete previous (x_cache st)\<rparr>
                         in (case is_excluded (change_path change) base nested of
                               Inl e \<Rightarrow> (st1, Inl e)
                             | Inr True \<Rightarrow> (st1, Inr None)
                             | Inr False \<Rightarrow> extract_and_cache W base (change_path change) relative st1)))
           | _ \<Rightarrow> extract_and_cache W base (change_path change) relative st))"

fun extract_changes ::
  "world \<Rightarrow> pypath \<Rightarrow> pystr set \<Rightarrow> file_change list \<Rightarrow> results \<Rightarrow> extract_state
     \<Rightarrow> extract_state \<times> results res" where
  "extract_changes W base nested [] results st = (st, Inr results)"
| "extract_changes W base nested (c # cs) results st =
     (case extract_change W base nested c st of
        (st', Inl e) \<Rightarrow> (st', Inl e)
      | (st', Inr None) \<Rightarrow> extract_changes W base nested cs results st'
      | (st', Inr (Some (relative, result))) \<Rightarrow>
          extract_changes W base nested cs (AList.update relative result results) st')"

definition extract_batch ::
  "world \<Rightarrow> pypath \<Rightarrow> pystr set \<Rightarrow> batch \<Rightarrow> extract_state \<Rightarrow> extract_state \<times> results res" where
  "extract_batch W base nested b st = extract_changes W base nested (changes b) [] st"

section \<open>What one extraction yields\<close>

text \<open>The usable result of extracting \<open>path\<close>: none when the extractor raises or reports an error.\<close>

definition extracts :: "world \<Rightarrow> pypath \<Rightarrow> pypath \<Rightarrow> pyobj option" where
  "extracts W base path =
     (case extract_file W path base of
        Inr r \<Rightarrow> if map_of r (pstr ''error'') = None then Some r else None
      | Inl e \<Rightarrow> None)"

lemma isolation_total:
  assumes "w_resolve W base = Inr q"
  shows "\<exists>logs. extract_file_with_failure_isolation W path base relative pre m =
      Inr (extracts W base path,
           if extracts W base path = None then map_option (increment ''extraction_errors'' 1) m else m, logs)
    \<and> length logs = of_bool (extracts W base path = None)"
  using assms
  by (auto simp: extract_file_with_failure_isolation_def extracts_def sanitize_log_text_def Let_def
      split: sum.split option.split)

lemma isolation_Inr:
  assumes "extract_file_with_failure_isolation W path base relative pre m = Inr (r, m', logs)"
  shows "r = extracts W base path"
    and "m' = (if r = None then map_option (increment ''extraction_errors'' 1) m else m)"
  using assms
  by (auto simp: extract_file_with_failure_isolation_def extracts_def Let_def bindR_Inr_iff
      split: sum.splits option.splits)

lemma stamp_items_source:
  assumes "mapR (stamp_item relative) xs = Inr ys" "JObj d \<in> set ys"
  shows "map_of d (pstr ''source_file'') = Some (JStr relative)"
proof -
  from assms obtain i where i: "i < length xs" "ys ! i = JObj d"
    by (metis in_set_conv_nth mapR_length)
  with assms(1) have "stamp_item relative (xs ! i) = Inr (JObj d)" by (metis mapR_nth)
  then show ?thesis by (cases "xs ! i") (auto simp: dict_simps)
qed

lemma stamp_value_source:
  "stamp_value relative v = Inr (JArr ys) \<Longrightarrow> JObj d \<in> set ys \<Longrightarrow>
     map_of d (pstr ''source_file'') = Some (JStr relative)"
  by (cases v) (auto simp: bindR_Inr_iff dest: stamp_items_source split: if_splits)

lemma stamp_key_other:
  "stamp_key relative key r = Inr r' \<Longrightarrow> k \<noteq> pstr key \<Longrightarrow> map_of r' k = map_of r k"
  by (auto simp: stamp_key_def bindR_Inr_iff dict_simps split: option.splits)

lemma stamp_key_source:
  "stamp_key relative key r = Inr r' \<Longrightarrow> map_of r' (pstr key) = Some (JArr ys) \<Longrightarrow> JObj d \<in> set ys \<Longrightarrow>
     map_of d (pstr ''source_file'') = Some (JStr relative)"
  by (auto simp: stamp_key_def bindR_Inr_iff dict_simps dest: stamp_value_source split: option.splits)

section \<open>A batch as a list of writes to the cache\<close>

definition stat_mtime :: "world \<Rightarrow> pypath \<Rightarrow> real option" where
  "stat_mtime W path = (case w_stat W path of Inr (mt, sz) \<Rightarrow> Some mt | Inl e \<Rightarrow> None)"

definition rel_key :: "pypath \<Rightarrow> pypath \<Rightarrow> pystr" where
  "rel_key base path = (case relative_to path base of Inr r \<Rightarrow> path_str r | Inl e \<Rightarrow> [])"

definition extracted_ops :: "world \<Rightarrow> pypath \<Rightarrow> pypath \<Rightarrow> (pystr, pyobj \<times> real option) store_op list" where
  "extracted_ops W base path =
     (case extracts W base path of None \<Rightarrow> [] | Some r \<Rightarrow> [Put (rel_key base path) (r, stat_mtime W path)])"

text \<open>Whether the change's own path is to be extracted.\<close>

definition to_extract :: "pypath \<Rightarrow> pystr set \<Rightarrow> file_change \<Rightarrow> bool" where
  "to_extract base nested c =
     (case change_of c of
        DELETED \<Rightarrow> False
      | RENAMED \<Rightarrow> is_excluded (change_path c) base nested \<noteq> Inr True
      | _ \<Rightarrow> True)"

definition change_ops ::
  "world \<Rightarrow> pypath \<Rightarrow> pystr set \<Rightarrow> file_change \<Rightarrow> (pystr, pyobj \<times> real option) store_op list" where
  "change_ops W base nested c =
     (case change_of c of
        DELETED \<Rightarrow> [Del (rel_key base (change_path c))]
      | RENAMED \<Rightarrow> map (\<lambda>p. Del (rel_key base p)) (case previous_path c of None \<Rightarrow> [] | Some p \<Rightarrow> [p])
      | _ \<Rightarrow> [])
     @ (if to_extract base nested c then extracted_ops W base (change_path c) else [])"

definition batch_ops ::
  "world \<Rightarrow> pypath \<Rightarrow> pystr set \<Rightarrow> batch \<Rightarrow> (pystr, pyobj \<times> real option) store_op list" where
  "batch_ops W base nested b = concat (map (change_ops W base nested) (changes b))"

lemma extract_and_cache_ops:
  assumes "extract_and_cache W base path relative st = (st', Inr u)" "relative_to path base = Inr relative"
  shows "x_cache st' = apply_ops cache_put cache_del (extracted_ops W base path) (x_cache st)"
  using assms
  by (auto simp: extract_and_cache_def extracted_ops_def rel_key_def stat_mtime_def cache_set_def Let_def
      dest!: isolation_Inr(1) split: sum.splits option.splits prod.splits if_splits)

lemma extract_change_ops:
  assumes "extract_change W base nested c st = (st', Inr u)"
  shows "x_cache st' = apply_ops cache_put cache_del (change_ops W base nested c) (x_cache st)"
  using assms
  by (auto simp: extract_change_def change_ops_def to_extract_def rel_key_def cache_delete_def Let_def
      dest!: extract_and_cache_ops split: sum.splits change_kind.splits option.splits bool.splits)

lemma extract_changes_ops:
  assumes "extract_changes W base nested cs rs st = (st', Inr rs')"
  shows "x_cache st' =
    apply_ops cache_put cache_del (concat (map (change_ops W base nested) cs)) (x_cache st)"
  using assms
proof (induction cs arbitrary: rs st)
  case (Cons c cs)
  then show ?case
    by (auto split: prod.splits sum.splits option.splits dest!: extract_change_ops)
qed simp

section \<open>When a batch cannot abort\<close>

text \<open>
  The batch is about vault files, and the disk answers as the code expects: the vault root
  resolves, and \<open>stat\<close> fails only because a file is gone.
\<close>

definition change_in_vault :: "pypath \<Rightarrow> file_change \<Rightarrow> bool" where
  "change_in_vault base c \<longleftrightarrow> change_ok c \<and> is_relative_to (change_path c) base \<and>
     (case previous_path c of None \<Rightarrow> True | Some p \<Rightarrow> is_relative_to p base)"

definition stat_ok :: "world \<Rightarrow> pypath \<Rightarrow> bool" where
  "stat_ok W p = (case w_stat W p of Inl e \<Rightarrow> kind_of e = FileNotFoundError | Inr r \<Rightarrow> True)"

definition failures :: "world \<Rightarrow> pypath \<Rightarrow> pystr set \<Rightarrow> file_change list \<Rightarrow> nat" where
  "failures W base nested cs =
     length (filter (\<lambda>c. to_extract base nested c \<and> extracts W base (change_path c) = None) cs)"

lemma relative_to_in: "is_relative_to p base \<Longrightarrow> \<exists>r. relative_to p base = Inr r"
  by (simp add: relative_to_def)

lemma extract_and_cache_total:
  assumes "w_resolve W base = Inr q" "stat_ok W path"
  shows "\<exists>st' u. extract_and_cache W base path relative st = (st', Inr u)
    \<and> x_metrics st' = (if extracts W base path = None
        then map_option (increment ''extraction_errors'' 1) (x_metrics st) else x_metrics st)"
proof -
  obtain logs where "extract_file_with_failure_isolation W path base relative EXTRACTION_FAILED (x_metrics st)
      = Inr (extracts W base path, if extracts W base path = None
          then map_option (increment ''extraction_errors'' 1) (x_metrics st) else x_metrics st, logs)"
    using isolation_total [OF assms(1)] by blast
  with assms(2) show ?thesis
    by (auto simp: extract_and_cache_def stat_ok_def Let_def split: option.splits sum.splits prod.splits)
qed

lemma extract_change_total:
  assumes "w_resolve W base = Inr q" "change_in_vault base c"
    "to_extract base nested c \<Longrightarrow> stat_ok W (change_path c)"
  shows "\<exists>st' u. extract_change W base nested c st = (st', Inr u)
    \<and> x_metrics st' = (if failures W base nested [c] = 0 then x_metrics st
        else map_option (increment ''extraction_errors'' 1) (x_metrics st))"
proof -
  obtain relative where rel: "relative_to (change_path c) base = Inr relative"
    using assms(2) relative_to_in by (auto simp: change_in_vault_def)
  have ex: "\<exists>b. is_excluded (change_path c) base nested = Inr b"
    using rel by (auto simp: is_excluded_def)
  have tot: "\<And>s. to_extract base nested c \<Longrightarrow>
      \<exists>st' u. extract_and_cache W base (change_path c) relative s = (st', Inr u)
      \<and> x_metrics st' = (if extracts W base (change_path c) = None
          then map_option (increment ''extraction_errors'' 1) (x_metrics s) else x_metrics s)"
    using extract_and_cache_total [OF assms(1)] assms(3) by blast
  show ?thesis
  proof (cases "change_of c")
    case RENAMED
    then obtain prev where "previous_path c = Some prev" "is_relative_to prev base"
      using assms(2) by (auto simp: change_in_vault_def change_ok_def)
    moreover then obtain previous where "relative_to prev base = Inr previous"
      using relative_to_in by blast
    moreover obtain b where b: "is_excluded (change_path c) base nested = Inr b" using ex by blast
    moreover define st1 where "st1 = st\<lparr>x_cache := cache_delete previous (x_cache st)\<rparr>"
    ultimately have step: "extract_change W base nested c st =
        (if b then (st1, Inr None) else extract_and_cache W base (change_path c) relative st1)"
      using RENAMED rel by (simp add: extract_change_def Let_def)
    have te: "to_extract base nested c = (\<not> b)" using RENAMED b by (simp add: to_extract_def)
    have m: "x_metrics st1 = x_metrics st" by (simp add: st1_def)
    show ?thesis
    proof (cases b)
      case True
      with step te m show ?thesis by (simp add: failures_def)
    next
      case False
      with te obtain st' u where "extract_and_cache W base (change_path c) relative st1 = (st', Inr u)"
        "x_metrics st' = (if extracts W base (change_path c) = None
          then map_option (increment ''extraction_errors'' 1) (x_metrics st1) else x_metrics st1)"
        using tot [of st1] by blast
      with False step te m show ?thesis by (simp add: failures_def)
    qed
  qed (use rel tot in \<open>auto simp: extract_change_def failures_def to_extract_def\<close>)
qed

definition batch_in_vault :: "world \<Rightarrow> pypath \<Rightarrow> pystr set \<Rightarrow> batch \<Rightarrow> bool" where
  "batch_in_vault W base nested b \<longleftrightarrow> (\<exists>q. w_resolve W base = Inr q) \<and>
     (\<forall>c \<in> set (changes b). change_in_vault base c \<and> (to_extract base nested c \<longrightarrow> stat_ok W (change_path c)))"

abbreviation errors_of :: "metrics option \<Rightarrow> int option" where
  "errors_of m \<equiv> map_option (\<lambda>x. counter x ''extraction_errors'') m"

lemma errors_of_if:
  "errors_of (if n = 0 then m else map_option (increment ''extraction_errors'' 1) m)
     = map_option (\<lambda>k. k + of_bool (n \<noteq> (0::nat))) (errors_of m)"
  by (cases m) auto

lemma failures_Cons: "failures W base nested (c # cs) = failures W base nested [c] + failures W base nested cs"
  by (simp add: failures_def)

lemma failures_single: "failures W base nested [c] = of_bool (failures W base nested [c] \<noteq> 0)"
  by (simp add: failures_def)

lemma extract_changes_total:
  assumes "w_resolve W base = Inr q"
    and "\<forall>c \<in> set cs. change_in_vault base c \<and> (to_extract base nested c \<longrightarrow> stat_ok W (change_path c))"
  shows "\<exists>st' rs'. extract_changes W base nested cs rs st = (st', Inr rs')
    \<and> errors_of (x_metrics st') = map_option (\<lambda>k. k + int (failures W base nested cs)) (errors_of (x_metrics st))"
  using assms(2)
proof (induction cs arbitrary: rs st)
  case Nil
  then show ?case by (simp add: failures_def option.map_comp comp_def)
next
  case (Cons c cs)
  then obtain st1 u where step: "extract_change W base nested c st = (st1, Inr u)"
    and m: "x_metrics st1 = (if failures W base nested [c] = 0 then x_metrics st
        else map_option (increment ''extraction_errors'' 1) (x_metrics st))"
    using extract_change_total [OF assms(1), of c nested st] by auto
  define rs1 where "rs1 = (case u of None \<Rightarrow> rs | Some (r, v) \<Rightarrow> AList.update r v rs)"
  obtain st' rs' where rest: "extract_changes W base nested cs rs1 st1 = (st', Inr rs')"
    and e: "errors_of (x_metrics st') = map_option (\<lambda>k. k + int (failures W base nested cs)) (errors_of (x_metrics st1))"
    using Cons.IH [of rs1 st1] Cons.prems by auto
  have "extract_changes W base nested (c # cs) rs st = (st', Inr rs')"
    using step rest by (cases u) (auto simp: rs1_def)
  moreover have "errors_of (x_metrics st')
      = map_option (\<lambda>k. k + int (failures W base nested (c # cs))) (errors_of (x_metrics st))"
    using failures_single [of W base nested c]
    by (cases "x_metrics st") (auto simp: e m failures_Cons [of W base nested c cs])
  ultimately show ?case by blast
qed

text \<open>An entry that no change of the batch names survives it: the law of the store.\<close>

lemma untouched_entry:
  assumes "cache_ok (x_cache st)" "extract_batch W base nested b st = (st', Inr rs)"
    and "key \<notin> op_key ` set (batch_ops W base nested b)"
  shows "map_of (entries (x_cache st')) key = map_of (entries (x_cache st)) key"
proof -
  have "x_cache st' = apply_ops cache_put cache_del (batch_ops W base nested b) (x_cache st)"
    using assms(2) by (auto simp: extract_batch_def batch_ops_def dest!: extract_changes_ops)
  then show ?thesis using cache_store.lookup_apply_ops_other [OF assms(1,3)] by simp
qed

lemma extract_changes_append:
  "extract_changes W base nested (cs @ [c]) rs st = (st', Inr rs') \<Longrightarrow>
     \<exists>st1 rs1. extract_changes W base nested cs rs st = (st1, Inr rs1)
       \<and> extract_changes W base nested [c] rs1 st1 = (st', Inr rs')"
proof (induction cs arbitrary: rs st)
  case (Cons d cs)
  then show ?case
    by (auto split: prod.splits sum.splits option.splits simp del: extract_changes.simps(2)
        simp: extract_changes.simps(2) [of W base nested d])
qed auto

section \<open>Properties\<close>

text \<open>C11. A batch about vault files never aborts, whatever the extractors do with each file: it
  returns, the new cache is the old one after exactly the writes the changes stand for (deletions,
  the source of every rename, and one entry per file that extracts), and the error counter has
  gone up by the number of files that failed.\<close>

theorem extract_batch_total:
  assumes "batch_in_vault W base nested b"
  shows "\<exists>st' rs. extract_batch W base nested b st = (st', Inr rs)
    \<and> x_cache st' = apply_ops cache_put cache_del (batch_ops W base nested b) (x_cache st)
    \<and> errors_of (x_metrics st')
        = map_option (\<lambda>k. k + int (failures W base nested (changes b))) (errors_of (x_metrics st))"
proof -
  from assms obtain q where q: "w_resolve W base = Inr q" by (auto simp: batch_in_vault_def)
  with assms obtain st' rs where r: "extract_changes W base nested (changes b) [] st = (st', Inr rs)"
    and e: "errors_of (x_metrics st')
        = map_option (\<lambda>k. k + int (failures W base nested (changes b))) (errors_of (x_metrics st))"
    using extract_changes_total [OF q, of "changes b" nested "[]" st] by (auto simp: batch_in_vault_def)
  from extract_changes_ops [OF r] r e show ?thesis
    by (auto simp: extract_batch_def batch_ops_def)
qed

definition sample_change :: "change_kind \<Rightarrow> string \<Rightarrow> file_change" where
  "sample_change k name = \<lparr>change_path = vault_file name, change_of = k, previous_path = None\<rparr>"

definition sample_rename :: "string \<Rightarrow> string \<Rightarrow> file_change" where
  "sample_rename src dest =
     \<lparr>change_path = vault_file dest, change_of = RENAMED, previous_path = Some (vault_file src)\<rparr>"

definition sample_batch :: batch where
  "sample_batch =
     \<lparr>changes = [sample_change MODIFIED ''bad.md'', sample_change CREATED ''c.py'',
                 sample_rename ''a.md'' ''b.md'', sample_change DELETED ''d.md'']\<rparr>"

definition sample_state :: extract_state where
  "sample_state =
     \<lparr>x_cache = cache_set (PyPath [] [pstr ''bad.md'']) [(pstr ''nodes'', JArr [])] (Some 1)
        (cache_set (PyPath [] [pstr ''a.md'']) [] (Some 2) empty_cache),
      x_metrics = Some (new_metrics 10), x_log = []\<rparr>"

lemma sample_batch_in_vault: "batch_in_vault sample_world sample_root {} sample_batch"
proof -
  have "w_resolve sample_world sample_root = Inr sample_root" by code_simp
  moreover have "list_all (\<lambda>c. change_in_vault sample_root c
      \<and> (to_extract sample_root {} c \<longrightarrow> stat_ok sample_world (change_path c))) (changes sample_batch)"
    by code_simp
  ultimately show ?thesis unfolding batch_in_vault_def list_all_iff by blast
qed

theorem extract_batch_total_witness:
  "batch_in_vault sample_world sample_root {} sample_batch
   \<and> failures sample_world sample_root {} (changes sample_batch) = 2
   \<and> (\<exists>st' rs. extract_batch sample_world sample_root {} sample_batch sample_state = (st', Inr rs)
        \<and> errors_of (x_metrics st') = Some 2)"
proof -
  have f: "failures sample_world sample_root {} (changes sample_batch) = 2" by code_simp
  have e: "errors_of (x_metrics sample_state) = Some 0" by code_simp
  show ?thesis
    using extract_batch_total [OF sample_batch_in_vault, of sample_state] sample_batch_in_vault f e by auto
qed

text \<open>Failure isolation: an entry whose file is only created or modified in the batch, and
  whose extraction fails each time, is what it was before the batch, whatever else the batch does.\<close>

theorem failed_extraction_keeps_entry:
  assumes "cache_ok (x_cache st)" "extract_batch W base nested b st = (st', Inr rs)"
    and "relative_to path base = Inr relative" "extracts W base path = None"
    and "\<forall>c \<in> set (changes b).
        (rel_key base (change_path c) = path_str relative \<longrightarrow>
           change_path c = path \<and> change_of c \<in> {CREATED, MODIFIED})
        \<and> (\<forall>p. previous_path c = Some p \<longrightarrow> rel_key base p \<noteq> path_str relative)"
  shows "cache_get (x_cache st') relative = cache_get (x_cache st) relative"
proof -
  have "path_str relative \<notin> op_key ` set (change_ops W base nested c)" if "c \<in> set (changes b)" for c
  proof -
    have c: "rel_key base (change_path c) = path_str relative \<Longrightarrow>
          change_path c = path \<and> change_of c \<in> {CREATED, MODIFIED}"
      "\<And>p. previous_path c = Some p \<Longrightarrow> rel_key base p \<noteq> path_str relative"
      using assms(5) that by blast+
    show ?thesis
      using c assms(4)
      by (cases "previous_path c")
        (auto simp: change_ops_def extracted_ops_def split: change_kind.splits if_splits)
  qed
  then have "path_str relative \<notin> op_key ` set (batch_ops W base nested b)"
    by (auto simp: batch_ops_def)
  from untouched_entry [OF assms(1,2) this] show ?thesis by (simp add: cache_get_def)
qed

theorem failed_extraction_keeps_entry_witness:
  "cache_get (x_cache (fst (extract_batch sample_world sample_root {} sample_batch sample_state)))
     (PyPath [] [pstr ''bad.md'']) = Some [(pstr ''nodes'', JArr [])]"
proof -
  have ok: "cache_ok (x_cache sample_state)"
    by (simp add: sample_state_def cache_ok_set)
  obtain st' rs where r: "extract_batch sample_world sample_root {} sample_batch sample_state = (st', Inr rs)"
    using extract_changes_total [of sample_world sample_root sample_root "changes sample_batch" "{}" "[]" sample_state]
      sample_batch_in_vault
    by (auto simp: extract_batch_def batch_in_vault_def sample_world_def sample_root_def path_name_def)
  have p: "relative_to (vault_file ''bad.md'') sample_root = Inr (PyPath [] [pstr ''bad.md''])"
    "extracts sample_world sample_root (vault_file ''bad.md'') = None"
    by code_simp+
  have o: "\<forall>c \<in> set (changes sample_batch).
        (rel_key sample_root (change_path c) = path_str (PyPath [] [pstr ''bad.md'']) \<longrightarrow>
           change_path c = vault_file ''bad.md'' \<and> change_of c \<in> {CREATED, MODIFIED})
        \<and> (\<forall>p. previous_path c = Some p \<longrightarrow> rel_key sample_root p \<noteq> path_str (PyPath [] [pstr ''bad.md'']))"
    by (auto simp: sample_batch_def sample_change_def sample_rename_def rel_key_def sample_root_def
        vault_file_def relative_to_def is_relative_to_def path_str_def)
  have "cache_get (x_cache sample_state) (PyPath [] [pstr ''bad.md'']) = Some [(pstr ''nodes'', JArr [])]"
    by code_simp
  with failed_extraction_keeps_entry [OF ok r p o] r show ?thesis by simp
qed

text \<open>A rename at the end of a batch moves the file's state: the source has no entry left, and
  the destination has the freshly extracted one exactly when it is not excluded and extracts.\<close>

theorem rename_moves_entry:
  assumes "cache_ok (x_cache st)" "change_of c = RENAMED" "previous_path c = Some prev"
    and "relative_to prev base = Inr src" "relative_to (change_path c) base = Inr dest"
    and "path_str src \<noteq> path_str dest"
    and "extract_batch W base nested \<lparr>changes = cs @ [c]\<rparr> st = (st', Inr rs)"
  shows "cache_get (x_cache st') src = None
    \<and> (is_excluded (change_path c) base nested = Inr False \<and> extracts W base (change_path c) = Some r
       \<longrightarrow> cache_get (x_cache st') dest = Some r)"
proof (intro conjI impI; (elim conjE)?)
  have ops: "x_cache st' = apply_ops cache_put cache_del (batch_ops W base nested \<lparr>changes = cs @ [c]\<rparr>) (x_cache st)"
    using assms(7) by (auto simp: extract_batch_def batch_ops_def dest!: extract_changes_ops)
  have cops: "change_ops W base nested c = Del (path_str src)
      # (if to_extract base nested c then extracted_ops W base (change_path c) else [])"
    using assms(2-4) by (simp add: change_ops_def rel_key_def)
  have last: "cache_get (x_cache st') rel = (case last_write (change_ops W base nested c) (path_str rel) of
      Some w \<Rightarrow> map_option fst w
    | None \<Rightarrow> map_of (entries (apply_ops cache_put cache_del (concat (map (change_ops W base nested) cs)) (x_cache st))) (path_str rel))"
    for rel
    using assms(1)
    by (simp add: cache_get_def ops batch_ops_def cache_store.lookup_apply_ops cache_store.inv_apply_ops)
  show "cache_get (x_cache st') src = None"
    using assms(5,6) by (auto simp: last cops extracted_ops_def rel_key_def split: option.split)
  assume "is_excluded (change_path c) base nested = Inr False" "extracts W base (change_path c) = Some r"
  then show "cache_get (x_cache st') dest = Some r"
    using assms(2,5) by (simp add: last cops extracted_ops_def rel_key_def to_extract_def)
qed

theorem rename_moves_entry_witness:
  "cache_get (x_cache (fst (extract_batch sample_world sample_root {}
      \<lparr>changes = [] @ [sample_rename ''a.md'' ''b.md'']\<rparr> sample_state))) (PyPath [] [pstr ''a.md'']) = None
   \<and> cache_get (x_cache (fst (extract_batch sample_world sample_root {}
      \<lparr>changes = [] @ [sample_rename ''a.md'' ''b.md'']\<rparr> sample_state))) (PyPath [] [pstr ''b.md''])
       = extracts sample_world sample_root (vault_file ''b.md'')"
proof -
  let ?c = "sample_rename ''a.md'' ''b.md''"
  have ok: "cache_ok (x_cache sample_state)" by (simp add: sample_state_def cache_ok_set)
  have c: "change_of ?c = RENAMED" "previous_path ?c = Some (vault_file ''a.md'')"
    "relative_to (vault_file ''a.md'') sample_root = Inr (PyPath [] [pstr ''a.md''])"
    "relative_to (change_path ?c) sample_root = Inr (PyPath [] [pstr ''b.md''])"
    "path_str (PyPath [] [pstr ''a.md'']) \<noteq> path_str (PyPath [] [pstr ''b.md''])"
    by code_simp+
  obtain st' rs where r: "extract_batch sample_world sample_root {} \<lparr>changes = [] @ [?c]\<rparr> sample_state = (st', Inr rs)"
  proof -
    have "case snd (extract_batch sample_world sample_root {} \<lparr>changes = [] @ [?c]\<rparr> sample_state) of Inr rs \<Rightarrow> True | Inl e \<Rightarrow> False"
      by code_simp
    then show ?thesis
      using that by (cases "extract_batch sample_world sample_root {} \<lparr>changes = [] @ [?c]\<rparr> sample_state")
        (auto split: sum.splits)
  qed
  obtain d where d: "extracts sample_world sample_root (change_path ?c) = Some d"
  proof -
    have "extracts sample_world sample_root (change_path ?c) \<noteq> None" by code_simp
    then show ?thesis using that by auto
  qed
  have n: "is_excluded (change_path ?c) sample_root {} = Inr False" by code_simp
  have b: "vault_file ''b.md'' = change_path ?c" by code_simp
  show ?thesis
    using rename_moves_entry [OF ok c r] n d r b by simp
qed

text \<open>Provenance: in a result of \<open>extract_file\<close> every node and every edge carries the path of
  its file relative to the vault as its \<open>source_file\<close>, whatever the extractor had put there.\<close>

theorem extract_file_provenance:
  assumes "extract_file W path base = Inr r" "relative_to path base = Inr relative"
    and "map_of r (pstr key) = Some (JArr items)" "key \<in> {''nodes'', ''edges''}" "JObj d \<in> set items"
  shows "map_of d (pstr ''source_file'') = Some (JStr (path_str relative))"
proof -
  from assms(1,2) obtain raw r1
    where s: "stamp_key (path_str relative) ''nodes'' raw = Inr r1" "stamp_key (path_str relative) ''edges'' r1 = Inr r"
    by (auto simp: extract_file_def bindR_Inr_iff)
  show ?thesis
  proof (cases "key = ''edges''")
    case True
    with s(2) assms(3,5) show ?thesis by (auto intro: stamp_key_source)
  next
    case False
    then have "map_of r1 (pstr key) = Some (JArr items)"
      using stamp_key_other [OF s(2), of "pstr key"] assms(3) by simp
    with s(1) assms(4,5) False show ?thesis by (auto intro: stamp_key_source)
  qed
qed

theorem extract_file_provenance_witness:
  "map_of [(pstr ''id'', JStr (pstr ''a.md'')), (pstr ''source_file'', JStr (pstr ''a.md''))] (pstr ''source_file'')
     = Some (JStr (path_str (PyPath [] [pstr ''a.md''])))"
proof (rule extract_file_provenance [where key = "''nodes''" and items = "[JObj [(pstr ''id'', JStr (pstr ''a.md'')), (pstr ''source_file'', JStr (pstr ''a.md''))]]"])
  show "extract_file sample_world (vault_file ''a.md'') sample_root
    = Inr [(pstr ''nodes'', JArr [JObj [(pstr ''id'', JStr (pstr ''a.md'')), (pstr ''source_file'', JStr (pstr ''a.md''))]]),
           (pstr ''edges'', JArr [])]"
    by code_simp
  show "relative_to (vault_file ''a.md'') sample_root = Inr (PyPath [] [pstr ''a.md''])" by code_simp
qed (simp_all add: pstr_def)

lemma cache_load_saved:
  assumes "map_of (d_files d) p = Some (JsonFile (cache_json c))"
  shows "cache_load p d = Inr c"
proof -
  have "pstr ''entries'' \<noteq> pstr ''mtimes''" by simp
  then show ?thesis
    by (simp add: cache_load_def read_json_def assms cache_json_def dict_index_def mapR_entry_value mapR_mtime_value)
qed

text \<open>The persisted cache is read back as it was: after a \<open>save\<close>, a \<open>load\<close> of the same file
  returns the same entries and mtimes, and on POSIX the file is owner-only.\<close>

theorem cache_save_load:
  assumes "cache_save c path d = Inr d'"
  shows "cache_load path d' = Inr c \<and> owner_only d' path"
proof -
  have "map_of (d_files d') path = Some (JsonFile (cache_json c))"
    using assms write_restricted_owner_only(3) [of path _ d d'] by (simp add: cache_save_def)
  then have "cache_load path d' = Inr c" by (rule cache_load_saved)
  with assms show ?thesis
    using write_restricted_owner_only(1) by (auto simp: cache_save_def)
qed

definition sample_disk :: disk where
  "sample_disk = \<lparr>d_posix = True, d_default = (493, 420), d_dirs = [PyPath [slash] [], PyPath [slash] [pstr ''out'']],
     d_files = [], d_modes = []\<rparr>"

theorem cache_save_load_witness:
  "\<exists>d'. cache_save (x_cache sample_state) (PyPath [slash] [pstr ''out'', pstr ''graph_cache.json'']) sample_disk = Inr d'
     \<and> cache_load (PyPath [slash] [pstr ''out'', pstr ''graph_cache.json'']) d' = Inr (x_cache sample_state)"
proof -
  let ?p = "PyPath [slash] [pstr ''out'', pstr ''graph_cache.json'']"
  have "writable ?p sample_disk" by code_simp
  then obtain d' where "cache_save (x_cache sample_state) ?p sample_disk = Inr d'"
    using write_restricted_Inr unfolding cache_save_def by blast
  with cache_save_load show ?thesis by blast
qed

text \<open>Cache keys are strings, yet two vault-relative paths never share an entry: setting one
  leaves every other path's result as it was, and as long as every key is the text of a path,
  \<open>entries()\<close> has at each path what \<open>get\<close> returns for it.\<close>

theorem cache_key_names_path:
  assumes "path_ok p" "path_ok q"
  shows "cache_get (cache_set p r mt c) q = (if q = p then Some r else cache_get c q)
    \<and> (canonical_keys c \<and> cache_ok c \<longrightarrow>
         canonical_keys (cache_set p r mt c) \<and> map_of (cache_entries (cache_set p r mt c)) q
           = (if q = p then Some r else cache_get c q))"
proof (intro conjI impI; (elim conjE)?)
  show get: "cache_get (cache_set p r mt c) q = (if q = p then Some r else cache_get c q)"
    using path_str_inj [OF assms(2,1)] by (auto simp: cache_get_def cache_set_def cache_put_def dict_simps)
  assume ok: "canonical_keys c" "cache_ok c"
  with assms(1) show canon: "canonical_keys (cache_set p r mt c)" by (simp add: canonical_keys_set)
  have "dict_ok (entries (cache_set p r mt c))"
    using cache_ok_set [OF ok(2)] by (simp add: cache_ok_def)
  then show "map_of (cache_entries (cache_set p r mt c)) q = (if q = p then Some r else cache_get c q)"
    using map_of_cache_entries [OF canon _ assms(2)] get by simp
qed

theorem cache_key_names_path_witness:
  "cache_get (cache_set (PyPath [] [pstr ''a.md'']) [] None empty_cache) (PyPath [] [pstr ''b.md'']) = None
   \<and> map_of (cache_entries (cache_set (PyPath [] [pstr ''a.md'']) [] None empty_cache)) (PyPath [] [pstr ''b.md'']) = None"
proof -
  have ok: "path_ok (PyPath [] [pstr ''a.md''])" "path_ok (PyPath [] [pstr ''b.md''])" by code_simp+
  have "cache_get empty_cache (PyPath [] [pstr ''b.md'']) = None" by code_simp
  moreover have "canonical_keys empty_cache \<and> cache_ok empty_cache"
    by (simp add: canonical_keys_def empty_cache_def cache_ok_def)
  ultimately show ?thesis using cache_key_names_path [OF ok, of "[]" None empty_cache] by simp
qed

text \<open>The confinement invariant has a hole: a rename whose destination resolves outside the
  vault (a symlink moved into place) passes the watcher and is extracted and cached, while the
  creation of the same path is rejected.\<close>

theorem renamed_symlink_is_extracted:
  "resolve_within_vault sample_world (vault_file ''link.md'') sample_root = Inr None
   \<and> on_any_event sample_world sample_root {} (sample_event ''created'' ''link.md'' ''link.md'')
       = Inr (None, [rejected_message (PyPath [] [pstr ''link.md''])])
   \<and> on_any_event sample_world sample_root {} (sample_event ''moved'' ''x.txt'' ''link.md'')
       = Inr (Some (sample_rename ''x.txt'' ''link.md''), [])
   \<and> cache_get (x_cache (fst (extract_batch sample_world sample_root {}
        \<lparr>changes = [sample_rename ''x.txt'' ''link.md'']\<rparr> sample_state))) (PyPath [] [pstr ''link.md'']) \<noteq> None"
proof (intro conjI)
  show "resolve_within_vault sample_world (vault_file ''link.md'') sample_root = Inr None"
    by code_simp
  show "on_any_event sample_world sample_root {} (sample_event ''created'' ''link.md'' ''link.md'')
       = Inr (None, [rejected_message (PyPath [] [pstr ''link.md''])])"
    by code_simp
  show "on_any_event sample_world sample_root {} (sample_event ''moved'' ''x.txt'' ''link.md'')
       = Inr (Some (sample_rename ''x.txt'' ''link.md''), [])"
    by code_simp
  show "cache_get (x_cache (fst (extract_batch sample_world sample_root {}
        \<lparr>changes = [sample_rename ''x.txt'' ''link.md'']\<rparr> sample_state))) (PyPath [] [pstr ''link.md'']) \<noteq> None"
    by code_simp
qed

end
