(* ===== verification/Snapshots.thy ===== *)
theory Snapshots
  imports Vault_Extraction
begin

text \<open>
  \<open>adapters/graphify_query.py\<close> and \<open>vault_compiler/snapshot.py\<close>: the one door to graphify's query
  functions, the merge of the cache into one graph, and the holder of the published snapshot.

  graphify, networkx and jsonschema are not part of the repository. What the code calls of them
  is the record \<open>lib\<close>, an argument of every definition that uses it: \<open>'g\<close> is a graph, \<open>'t\<close> a
  trigram index. A call that the code guards against failing returns \<open>exn + 'a\<close>. The record also holds the
  two operations of the interpreter that rest on its own tables: \<open>repr\<close> and the lower case of any Unicode text.
\<close>

section \<open>The third-party libraries\<close>

type_synonym community_map = "(int, pystr list) dict"

record ('g, 't) lib =
  l_build :: "json list \<Rightarrow> json list \<Rightarrow> 'g res"        \<comment> \<open>\<open>build_from_json\<close>, directed\<close>
  l_trigram :: "'g \<Rightarrow> 't \<times> 'g"                        \<comment> \<open>the index, and the graph that now caches it\<close>
  l_has_trigram :: "'g \<Rightarrow> bool"                        \<comment> \<open>\<open>"_trigram_index" in graph.graph\<close>\<close>
  l_without_trigram :: "'g \<Rightarrow> 'g"                      \<comment> \<open>\<open>graph.copy()\<close> with that attribute deleted\<close>
  l_to_json :: "'g \<Rightarrow> community_map \<Rightarrow> json res"
  l_god_nodes :: "'g \<Rightarrow> int \<Rightarrow> (pystr \<times> int) list"     \<comment> \<open>label and degree\<close>
  l_cluster :: "'g \<Rightarrow> community_map res"
  l_remap :: "community_map \<Rightarrow> (pystr, int) dict \<Rightarrow> community_map"
  l_nodes :: "'g \<Rightarrow> (pystr, pyobj) dict"
  l_edges :: "'g \<Rightarrow> (pystr \<times> pystr \<times> pyobj) list"
  l_degree :: "'g \<Rightarrow> pystr \<Rightarrow> int"
  l_successors :: "'g \<Rightarrow> pystr \<Rightarrow> pystr list"
  l_predecessors :: "'g \<Rightarrow> pystr \<Rightarrow> pystr list"
  l_edge_data :: "'g \<Rightarrow> pystr \<Rightarrow> pystr \<Rightarrow> pyobj"
  l_find_node :: "'g \<Rightarrow> pystr \<Rightarrow> pystr list res"
  l_query_text :: "'g \<Rightarrow> pystr \<Rightarrow> pystr \<Rightarrow> int \<Rightarrow> int \<Rightarrow> json \<Rightarrow> pystr res"
  l_path_text :: "'g \<Rightarrow> pyobj \<Rightarrow> pystr res"
  l_communities :: "'g \<Rightarrow> community_map"
  l_sanitize_label :: "json \<Rightarrow> pystr"
  l_validate :: "pyobj \<Rightarrow> json \<Rightarrow> pystr option"         \<comment> \<open>\<open>jsonschema.validate\<close>: the message, if any\<close>
  l_repr :: "json \<Rightarrow> pystr"
  l_lower :: "pystr \<Rightarrow> pystr"                      \<comment> \<open>\<open>str.lower\<close>, by the interpreter's Unicode tables\<close>

section \<open>The adapter\<close>

definition query_graph_text :: "('g, 't) lib \<Rightarrow> 'g \<Rightarrow> pystr \<Rightarrow> pystr \<Rightarrow> int \<Rightarrow> int \<Rightarrow> json \<Rightarrow> pystr res" where
  "query_graph_text L G question mode depth token_budget context_filters =
     l_query_text L G question mode depth token_budget context_filters"

definition get_trigram_index :: "('g, 't) lib \<Rightarrow> 'g \<Rightarrow> 't \<times> 'g" where
  "get_trigram_index L G = l_trigram L G"

definition communities_from_graph :: "('g, 't) lib \<Rightarrow> 'g \<Rightarrow> community_map" where
  "communities_from_graph L G = l_communities L G"

definition shortest_path_text :: "('g, 't) lib \<Rightarrow> 'g \<Rightarrow> pyobj \<Rightarrow> pystr res" where
  "shortest_path_text L G arguments = l_path_text L G arguments"

definition find_node :: "('g, 't) lib \<Rightarrow> 'g \<Rightarrow> pystr \<Rightarrow> pystr list res" where
  "find_node L G label = l_find_node L G label"

section \<open>Building the graph\<close>

text \<open>The nodes and edges of every cached result, in the order of the cache.\<close>

definition result_items :: "pyobj \<Rightarrow> (json list \<times> json list) res" where
  "result_items result =
     bindR (py_iter (dict_get result (pstr ''nodes'') (JArr []))) (\<lambda>ns.
     bindR (py_iter (dict_get result (pstr ''edges'') (JArr []))) (\<lambda>es. Inr (ns, es)))"

definition graph_input :: "extraction_cache \<Rightarrow> (json list \<times> json list) res" where
  "graph_input cache =
     bindR (mapR result_items (map snd (cache_entries cache))) (\<lambda>items.
       Inr (concat (map fst items), concat (map snd items)))"

definition build_graph :: "('g, 't) lib \<Rightarrow> extraction_cache \<Rightarrow> 'g res" where
  "build_graph L cache = bindR (graph_input cache) (\<lambda>(nodes, edges). l_build L nodes edges)"

section \<open>Snapshots\<close>

record ('g, 't) graph_snapshot =
  graph :: 'g
  trigram_index :: 't
  community_map :: community_map
  version :: nat

record ('g, 't) snapshot_holder =
  current :: "('g, 't) graph_snapshot option"
  next_version :: nat

definition new_holder :: "('g, 't) snapshot_holder" where
  "new_holder = \<lparr>current = None, next_version = 1\<rparr>"

definition publish ::
  "('g, 't) lib \<Rightarrow> 'g \<Rightarrow> community_map \<Rightarrow> ('g, 't) snapshot_holder
     \<Rightarrow> ('g, 't) graph_snapshot \<times> ('g, 't) snapshot_holder" where
  "publish L g communities h =
     (case get_trigram_index L g of (index, g') \<Rightarrow>
        let snapshot = \<lparr>graph = g', trigram_index = index, community_map = communities, version = next_version h\<rparr>
        in (snapshot, h\<lparr>next_version := next_version h + 1, current := Some snapshot\<rparr>))"

text \<open>\<open>health.py\<close>.\<close>

record health =
  alive :: bool
  ready :: bool

definition health_check :: "('g, 't) snapshot_holder \<Rightarrow> health" where
  "health_check h = \<lparr>alive = True, ready = (current h \<noteq> None)\<rparr>"

text \<open>
  The holder's invariant: the published snapshot is an older version than the next one, and its
  index was computed from its own graph before it was published.
\<close>

definition holder_ok :: "('g, 't) lib \<Rightarrow> ('g, 't) snapshot_holder \<Rightarrow> bool" where
  "holder_ok L h \<longleftrightarrow> 0 < next_version h \<and>
     (case current h of
        None \<Rightarrow> next_version h = 1
      | Some s \<Rightarrow> version s + 1 = next_version h \<and> (\<exists>g. l_trigram L g = (trigram_index s, graph s)))"

lemma holder_ok_new [simp]: "holder_ok L new_holder"
  by (simp add: holder_ok_def new_holder_def)

lemma publish_fields:
  assumes "publish L g cm h = (s, h')"
  shows "current h' = Some s" "next_version h' = next_version h + 1" "version s = next_version h"
    "community_map s = cm" "l_trigram L g = (trigram_index s, graph s)"
  using assms by (auto simp: publish_def get_trigram_index_def Let_def split: prod.splits)

lemma holder_ok_publish: "holder_ok L h \<Longrightarrow> publish L g cm h = (s, h') \<Longrightarrow> holder_ok L h'"
  by (frule publish_fields(1), frule publish_fields(2), frule publish_fields(3), drule publish_fields(5))
    (auto simp: holder_ok_def)

text \<open>A run of publications, as the writer makes them.\<close>

fun publish_all ::
  "('g, 't) lib \<Rightarrow> ('g \<times> community_map) list \<Rightarrow> ('g, 't) snapshot_holder
     \<Rightarrow> ('g, 't) graph_snapshot list \<times> ('g, 't) snapshot_holder" where
  "publish_all L [] h = ([], h)"
| "publish_all L ((g, cm) # ps) h =
     (case publish L g cm h of (s, h1) \<Rightarrow> case publish_all L ps h1 of (ss, h2) \<Rightarrow> (s # ss, h2))"

lemma publish_all_versions:
  "publish_all L ps h = (ss, h') \<Longrightarrow>
     map version ss = [next_version h..<next_version h + length ps]
     \<and> next_version h' = next_version h + length ps
     \<and> current h' = (if ps = [] then current h else Some (last ss))
     \<and> length ss = length ps"
proof (induction ps arbitrary: h ss h')
  case (Cons gc ps)
  obtain g cm where gc: "gc = (g, cm)" by (cases gc)
  obtain s h1 where p: "publish L g cm h = (s, h1)" by (cases "publish L g cm h")
  obtain ss1 h2 where r: "publish_all L ps h1 = (ss1, h2)" by (cases "publish_all L ps h1")
  from Cons.prems gc p r have "ss = s # ss1" "h' = h2" by auto
  with Cons.IH [OF r] publish_fields [OF p] show ?case by (auto simp: upt_conv_Cons)
qed simp

section \<open>Where the graph's items come from\<close>

text \<open>Every node and edge of an entry is stamped with the entry's key.\<close>

definition entry_stamped :: "pystr \<Rightarrow> pyobj \<Rightarrow> bool" where
  "entry_stamped k r \<longleftrightarrow>
     (\<forall>key \<in> {''nodes'', ''edges''}. \<forall>items d. map_of r (pstr key) = Some (JArr items) \<longrightarrow> JObj d \<in> set items \<longrightarrow>
        map_of d (pstr ''source_file'') = Some (JStr k))"

definition cache_stamped :: "extraction_cache \<Rightarrow> bool" where
  "cache_stamped c \<longleftrightarrow> (\<forall>(k, r) \<in> set (entries c). entry_stamped k r)"

lemma stamp_file:
  assumes "extract_file W path base = Inr r"
  shows "entry_stamped (rel_key base path) r"
proof -
  from assms obtain raw r1 rel where rel: "relative_to path base = Inr rel"
    and s: "stamp_key (path_str rel) ''nodes'' raw = Inr r1" "stamp_key (path_str rel) ''edges'' r1 = Inr r"
    by (auto simp: extract_file_def bindR_Inr_iff)
  have "map_of r1 (pstr ''nodes'') = map_of r (pstr ''nodes'')"
    using stamp_key_other [OF s(2), of "pstr ''nodes''"] by simp
  with rel s show ?thesis
    by (auto simp: entry_stamped_def rel_key_def intro: stamp_key_source)
qed

lemma set_update_sub: "set (AList.update k v d) \<subseteq> insert (k, v) (set d)"
  by (induction d) auto

lemma set_delete_sub: "set (AList.delete k d) \<subseteq> set d"
  by (auto simp: AList.delete_eq)

lemma cache_stamped_put: "cache_stamped c \<Longrightarrow> entry_stamped k (fst v) \<Longrightarrow> cache_stamped (cache_put k v c)"
  using set_update_sub [of k "fst v" "entries c"] by (fastforce simp: cache_stamped_def cache_put_def)

lemma cache_stamped_del: "cache_stamped c \<Longrightarrow> cache_stamped (cache_del k c)"
  using set_delete_sub [of k "entries c"] by (fastforce simp: cache_stamped_def cache_del_def)

lemma cache_stamped_ops:
  assumes "cache_stamped c" "\<forall>w \<in> set ws. case w of Put k v \<Rightarrow> entry_stamped k (fst v) | Del k \<Rightarrow> True"
  shows "cache_stamped (apply_ops cache_put cache_del ws c)"
  using assms
proof (induction ws arbitrary: c)
  case (Cons w ws)
  then show ?case by (cases w) (auto intro: cache_stamped_put cache_stamped_del)
qed simp

lemma put_in_change_ops:
  "Put k v \<in> set (change_ops W base nested c) \<Longrightarrow>
     extracts W base (change_path c) = Some (fst v) \<and> k = rel_key base (change_path c)"
  by (auto simp: change_ops_def extracted_ops_def split: change_kind.splits option.splits if_splits)

lemma extracts_file: "extracts W base path = Some r \<Longrightarrow> extract_file W path base = Inr r"
  by (auto simp: extracts_def split: sum.splits if_splits)

lemma batch_ops_stamped:
  "w \<in> set (batch_ops W base nested b) \<Longrightarrow> case w of Put k v \<Rightarrow> entry_stamped k (fst v) | Del k \<Rightarrow> True"
  by (cases w) (auto simp: batch_ops_def dest!: put_in_change_ops extracts_file intro: stamp_file)

lemma py_iter_JObj: "py_iter v = Inr xs \<Longrightarrow> JObj d \<in> set xs \<Longrightarrow> \<exists>items. v = JArr items \<and> JObj d \<in> set items"
  by (cases v) auto

lemma result_items_JObj:
  assumes "result_items r = Inr (ns, es)" "entry_stamped k r" "JObj d \<in> set ns \<union> set es"
  shows "map_of d (pstr ''source_file'') = Some (JStr k)"
  using assms
  by (auto simp: result_items_def bindR_Inr_iff dict_get_def entry_stamped_def
      dest!: py_iter_JObj split: option.splits)

lemma cache_entries_values:
  "(p, r) \<in> set (cache_entries c) \<Longrightarrow> \<exists>k. (k, r) \<in> set (entries c)"
proof -
  have "(p, r) \<in> set (fold (\<lambda>(key, v). AList.update (path_of_str key) v) es d) \<Longrightarrow>
      (\<exists>k. (k, r) \<in> set es) \<or> (p, r) \<in> set d" for es d
  proof (induction es arbitrary: d)
    case (Cons kv es)
    then show ?case using set_update_sub by (cases kv) fastforce
  qed simp
  then show "(p, r) \<in> set (cache_entries c) \<Longrightarrow> \<exists>k. (k, r) \<in> set (entries c)"
    by (fastforce simp: cache_entries_def)
qed

lemma graph_input_sources:
  assumes "graph_input c = Inr (ns, es)" "cache_stamped c" "JObj d \<in> set ns \<union> set es"
  shows "\<exists>k \<in> set (keys (entries c)). map_of d (pstr ''source_file'') = Some (JStr k)"
proof -
  from assms(1) obtain items where items: "mapR result_items (map snd (cache_entries c)) = Inr items"
    and ns: "ns = concat (map fst items)" "es = concat (map snd items)"
    by (auto simp: graph_input_def bindR_Inr_iff)
  from assms(3) ns obtain x where "x \<in> set items" "JObj d \<in> set (fst x) \<union> set (snd x)" by auto
  then obtain i where i: "i < length items" "JObj d \<in> set (fst (items ! i)) \<union> set (snd (items ! i))"
    by (auto simp: in_set_conv_nth [of x])
  have len: "length items = length (cache_entries c)" using mapR_length [OF items] by simp
  obtain p r where pr: "cache_entries c ! i = (p, r)" by (cases "cache_entries c ! i")
  then have "(p, r) \<in> set (cache_entries c)" using i len by (metis nth_mem)
  then obtain k where k: "(k, r) \<in> set (entries c)" using cache_entries_values by blast
  have "result_items r = Inr (fst (items ! i), snd (items ! i))"
    using mapR_nth [OF items, of i] i len pr by simp
  with k assms(2) i have "map_of d (pstr ''source_file'') = Some (JStr k)"
    by (intro result_items_JObj) (auto simp: cache_stamped_def)
  with k show ?thesis by force
qed

section \<open>A small library, for closed examples\<close>

type_synonym sample_graph = "(pystr, pyobj) dict \<times> (pystr \<times> pystr \<times> pyobj) list"

fun sample_nodes :: "json list \<Rightarrow> (pystr, pyobj) dict" where
  "sample_nodes (JObj d # js) =
     (case map_of d (pstr ''id'') of Some (JStr i) \<Rightarrow> (i, d) # sample_nodes js | _ \<Rightarrow> sample_nodes js)"
| "sample_nodes (j # js) = sample_nodes js"
| "sample_nodes [] = []"

definition sample_lib :: "(sample_graph, nat) lib" where
  "sample_lib =
     \<lparr>l_build = (\<lambda>ns es. Inr (sample_nodes ns, [])),
      l_trigram = (\<lambda>g. (length (fst g), g)),
      l_has_trigram = (\<lambda>g. True),
      l_without_trigram = (\<lambda>g. g),
      l_to_json = (\<lambda>g cm. Inr (JArr (map (JStr \<circ> fst) (fst g)))),
      l_god_nodes = (\<lambda>g n. map (\<lambda>x. (fst x, 0)) (take (nat n) (fst g))),
      l_cluster = (\<lambda>g. Inr [(0, map fst (fst g))]),
      l_remap = (\<lambda>cm prev. cm),
      l_nodes = fst,
      l_edges = snd,
      l_degree = (\<lambda>g n. int (length (filter (\<lambda>(a, b, d). a = n \<or> b = n) (snd g)))),
      l_successors = (\<lambda>g n. map (\<lambda>(a, b, d). b) (filter (\<lambda>(a, b, d). a = n) (snd g))),
      l_predecessors = (\<lambda>g n. map (\<lambda>(a, b, d). a) (filter (\<lambda>(a, b, d). b = n) (snd g))),
      l_edge_data = (\<lambda>g a b. case filter (\<lambda>(x, y, d). x = a \<and> y = b) (snd g) of (x, y, d) # r \<Rightarrow> d | [] \<Rightarrow> []),
      l_find_node = (\<lambda>g label. Inr (filter ((=) label) (map fst (fst g)))),
      l_query_text = (\<lambda>g q mode depth budget filters. Inr (q @ mode)),
      l_path_text = (\<lambda>g args. Inr (pstr ''path'')),
      l_communities = (\<lambda>g. []),
      l_sanitize_label = (\<lambda>v. case v of JStr s \<Rightarrow> s | _ \<Rightarrow> pstr ''?''),
      l_validate = (\<lambda>args schema. if map_of args (pstr ''context_filter'') = None then None else Some []),
      l_repr = (\<lambda>v. pstr ''?''),
      l_lower = py_lower\<rparr>"

section \<open>Properties\<close>

text \<open>Snapshots are published in one order: the versions of any run of publications are the
  consecutive numbers from the holder's counter on, so no two snapshots share a version, and the
  current snapshot is the last one published.\<close>

theorem publish_versions:
  assumes "publish_all L ps h = (ss, h')"
  shows "map version ss = [next_version h..<next_version h + length ps] \<and> distinct (map version ss)
    \<and> next_version h' = next_version h + length ps
    \<and> current h' = (if ps = [] then current h else Some (last ss))"
  using publish_all_versions [OF assms] by simp

theorem publish_versions_witness:
  "map version (fst (publish_all sample_lib [(([], []), []), (([], []), [])] new_holder)) = [1, 2]"
proof -
  obtain ss h' where r: "publish_all sample_lib [(([], []), []), (([], []), [])] new_holder = (ss, h')"
    by (cases "publish_all sample_lib [(([], []), []), (([], []), [])] new_holder")
  have "next_version (new_holder :: (sample_graph, nat) snapshot_holder) = 1" by (simp add: new_holder_def)
  with publish_versions [OF r] r show ?thesis by (simp add: upt_conv_Cons)
qed

text \<open>A reader never meets a snapshot without its index, and readiness is permanent: every
  publication leaves a snapshot whose trigram index is the one of its own graph and a holder that
  reports ready, and the snapshot before it stays as it was for readers that hold it.\<close>

theorem publish_prewarms:
  assumes "holder_ok L h" "publish L g cm h = (s, h')"
  shows "holder_ok L h' \<and> (trigram_index s, graph s) = l_trigram L g \<and> community_map s = cm
    \<and> ready (health_check h') \<and> (\<forall>s0. current h = Some s0 \<longrightarrow> version s0 < version s)"
  using holder_ok_publish [OF assms] publish_fields [OF assms(2)] assms(1)
  by (auto simp: health_check_def holder_ok_def)

theorem publish_prewarms_witness:
  "ready (health_check (snd (publish sample_lib ([], []) [] new_holder))) \<and> \<not> ready (health_check new_holder)"
proof -
  obtain s h' where r: "publish sample_lib ([], []) [] new_holder = (s, h')"
    by (cases "publish sample_lib ([], []) [] new_holder")
  from publish_prewarms [OF holder_ok_new r] r show ?thesis
    by (simp add: health_check_def new_holder_def)
qed



end
