(* ===== verification/Clustering.thy ===== *)
theory Clustering
  imports Snapshots
begin

text \<open>
  \<open>vault_compiler/clustering.py\<close>: community detection in a spawned subprocess and the
  republication of the current graph with the result. What the code cannot control of the
  child is an argument: whether it could be spawned, whether its message arrives within the timeout,
  and whether it exits within five seconds of it. A log record is kept with the arguments the
  call was given. How the message crosses the pipe, and why it is read before the child is
  joined, is in \<open>Clustering_Pipe\<close>.
\<close>

definition DEFAULT_CLUSTERING_TIMEOUT_SECONDS :: real where
  "DEFAULT_CLUSTERING_TIMEOUT_SECONDS = 30"

section \<open>The subprocess\<close>

datatype worker_message = WorkerOk community_map | WorkerError pystr

definition cluster_worker :: "('g, 't) lib \<Rightarrow> 'g \<Rightarrow> worker_message" where
  "cluster_worker L g = (case l_cluster L g of Inr cm \<Rightarrow> WorkerOk cm | Inl e \<Rightarrow> WorkerError (exn_str e))"

record child_env =
  ce_spawn :: "real res"       \<comment> \<open>the seconds pickling and spawning took, or the exception of \<open>start\<close>\<close>
  ce_answers :: bool           \<comment> \<open>the message is read before the timeout\<close>
  ce_exits :: bool             \<comment> \<open>the child ends by itself within the join's five seconds\<close>

datatype cluster_log =
    HandoffTook real
  | ExceededTimeout real
  | DidNotExit
  | WorkerFailed pystr

datatype child_state = NotStarted | Alive | Ended | Reaped

text \<open>\<open>process.terminate()\<close> ends a live child, and \<open>process.join()\<close> reaps one that has ended.\<close>

fun proc_terminate :: "child_state \<Rightarrow> child_state" where
  "proc_terminate Alive = Ended"
| "proc_terminate p = p"

fun proc_join :: "child_state \<Rightarrow> child_state" where
  "proc_join Ended = Reaped"
| "proc_join p = p"

text \<open>\<open>process.join(timeout=5.0)\<close>: reaps the child when it ends in time.\<close>

definition proc_join_timeout :: "child_env \<Rightarrow> child_state \<Rightarrow> child_state" where
  "proc_join_timeout E p = (if ce_exits E \<and> p = Alive then Reaped else p)"

definition run_clustering_subprocess ::
  "('g, 't) lib \<Rightarrow> child_env \<Rightarrow> real \<Rightarrow> 'g \<Rightarrow> (community_map option \<times> child_state \<times> cluster_log list) res" where
  "run_clustering_subprocess L E tmo g =
     bindR (ce_spawn E) (\<lambda>handoff.
       let logs = [HandoffTook handoff] in
       if \<not> ce_answers E
       then Inr (None, proc_join (proc_terminate Alive), logs @ [ExceededTimeout tmo])
       else
         let p = proc_join_timeout E Alive;
             still = (p = Alive);
             p' = (if still then proc_join (proc_terminate p) else p);
             logs1 = (if still then logs @ [DidNotExit] else logs)
         in case cluster_worker L g of
              WorkerError text \<Rightarrow> Inr (None, p', logs1 @ [WorkerFailed text])
            | WorkerOk cm \<Rightarrow> Inr (Some cm, p', logs1))"

section \<open>The cycle\<close>

definition build_previous_node_community :: "community_map \<Rightarrow> (pystr, int) dict" where
  "build_previous_node_community cm =
     fold (\<lambda>(cid, nodes) d. fold (\<lambda>node. AList.update node cid) nodes d) cm []"

record ('g, 't) cluster_state =
  c_holder :: "('g, 't) snapshot_holder"
  c_metrics :: "metrics option"
  c_log :: "cluster_log list"

definition run_clustering_cycle ::
  "('g, 't) lib \<Rightarrow> child_env \<Rightarrow> real \<Rightarrow> real \<Rightarrow> ('g, 't) cluster_state
     \<Rightarrow> ('g, 't) cluster_state \<times> ('g, 't) graph_snapshot option res" where
  "run_clustering_cycle L E tmo now st =
     (case current (c_holder st) of
        None \<Rightarrow> (st, Inr None)
      | Some cur \<Rightarrow>
          (case run_clustering_subprocess L E tmo (graph cur) of
             Inl e \<Rightarrow> (st, Inl e)
           | Inr (None, p, logs) \<Rightarrow> (st\<lparr>c_log := c_log st @ logs\<rparr>, Inr None)
           | Inr (Some raw, p, logs) \<Rightarrow>
               (case publish L (graph cur)
                       (l_remap L raw (build_previous_node_community (community_map cur))) (c_holder st) of
                  (s, h) \<Rightarrow>
                    (\<lparr>c_holder = h,
                      c_metrics = map_option (record_event_time ''clustering_success'' now) (c_metrics st),
                      c_log = c_log st @ logs\<rparr>, Inr (Some s)))))"

section \<open>Facts\<close>

text \<open>What the subprocess is worth to its caller.\<close>

definition usable_communities :: "('g, 't) lib \<Rightarrow> child_env \<Rightarrow> 'g \<Rightarrow> community_map option" where
  "usable_communities L E g =
     (if ce_answers E then (case l_cluster L g of Inr cm \<Rightarrow> Some cm | Inl e \<Rightarrow> None) else None)"

lemma subprocess_result:
  "ce_spawn E = Inr t \<Longrightarrow>
     \<exists>logs. run_clustering_subprocess L E tmo g = Inr (usable_communities L E g, Reaped, logs)"
  by (auto simp: run_clustering_subprocess_def usable_communities_def cluster_worker_def
      proc_join_timeout_def Let_def split: sum.split)

lemma subprocess_raises: "ce_spawn E = Inl e \<Longrightarrow> run_clustering_subprocess L E tmo g = Inl e"
  by (simp add: run_clustering_subprocess_def)

lemma cycle_unusable:
  assumes "ce_spawn E = Inr t" "current (c_holder st) = Some cur" "usable_communities L E (graph cur) = None"
  shows "\<exists>logs. run_clustering_cycle L E tmo now st = (st\<lparr>c_log := c_log st @ logs\<rparr>, Inr None)"
  using subprocess_result [OF assms(1), of L tmo "graph cur"] assms
  by (auto simp: run_clustering_cycle_def)

lemma cycle_usable:
  assumes "ce_spawn E = Inr t" "current (c_holder st) = Some cur" "usable_communities L E (graph cur) = Some raw"
  shows "\<exists>s st'. run_clustering_cycle L E tmo now st = (st', Inr (Some s))
    \<and> publish L (graph cur) (l_remap L raw (build_previous_node_community (community_map cur))) (c_holder st)
        = (s, c_holder st')
    \<and> c_metrics st' = map_option (record_event_time ''clustering_success'' now) (c_metrics st)"
  using subprocess_result [OF assms(1), of L tmo "graph cur"] assms
  by (auto simp: run_clustering_cycle_def split: prod.split)

lemma cycle_returns:
  assumes "ce_spawn E = Inr t"
  shows "\<exists>st' u. run_clustering_cycle L E tmo now st = (st', Inr u)"
proof (cases "current (c_holder st)")
  case (Some cur)
  show ?thesis
  proof (cases "usable_communities L E (graph cur)")
    case None
    from cycle_unusable [OF assms Some None, of tmo now] show ?thesis by blast
  next
    case usable: (Some raw)
    from cycle_usable [OF assms Some usable, of tmo now] show ?thesis by blast
  qed
qed (simp add: run_clustering_cycle_def)

lemma cycle_holder_ok:
  assumes "holder_ok L (c_holder st)" "run_clustering_cycle L E tmo now st = (st', r)"
  shows "holder_ok L (c_holder st')"
  using assms
  by (auto simp: run_clustering_cycle_def holder_ok_publish split: option.splits sum.splits prod.splits)

lemma cycle_keeps_published:
  assumes "run_clustering_cycle L E tmo now st = (st', r)" "current (c_holder st) \<noteq> None"
  shows "current (c_holder st') \<noteq> None"
  using assms
  by (auto simp: run_clustering_cycle_def dest: publish_fields(1) split: option.splits sum.splits prod.splits)

lemma map_of_fold_const:
  "map_of (fold (\<lambda>node. AList.update node cid) nodes d) n = (if n \<in> set nodes then Some cid else map_of d n)"
  by (induction nodes arbitrary: d) (auto simp: dict_simps)

lemma previous_community_fold:
  assumes "\<And>c d ns ms. (c, ns) \<in> set cm \<Longrightarrow> (d, ms) \<in> set cm \<Longrightarrow> n \<in> set ns \<Longrightarrow> n \<in> set ms \<Longrightarrow> c = d"
  shows "map_of (fold (\<lambda>(cid, nodes) d. fold (\<lambda>node. AList.update node cid) nodes d) cm acc) n =
    (if \<exists>c ns. (c, ns) \<in> set cm \<and> n \<in> set ns then Some (THE c. \<exists>ns. (c, ns) \<in> set cm \<and> n \<in> set ns)
     else map_of acc n)"
  using assms
proof (induction cm arbitrary: acc)
  case (Cons x cm)
  obtain c ns where x: "x = (c, ns)" by (cases x)
  have tl: "map_of (fold (\<lambda>(cid, nodes) d. fold (\<lambda>node. AList.update node cid) nodes d) cm acc') n =
    (if \<exists>c ns. (c, ns) \<in> set cm \<and> n \<in> set ns then Some (THE c. \<exists>ns. (c, ns) \<in> set cm \<and> n \<in> set ns)
     else map_of acc' n)" for acc'
    by (rule Cons.IH) (meson Cons.prems list.set_intros(2))
  have uniq: "\<And>d ms. (d, ms) \<in> set (x # cm) \<Longrightarrow> n \<in> set ms \<Longrightarrow>
      (THE c. \<exists>ns. (c, ns) \<in> set (x # cm) \<and> n \<in> set ns) = d"
    by (rule the_equality) (use Cons.prems in blast)+
  show ?case
  proof (cases "\<exists>c ns. (c, ns) \<in> set cm \<and> n \<in> set ns")
    case True
    then obtain d ms where d: "(d, ms) \<in> set cm" "n \<in> set ms" by blast
    then have "(THE c. \<exists>ns. (c, ns) \<in> set cm \<and> n \<in> set ns) = d"
      by (intro the_equality) (meson Cons.prems list.set_intros(2))+
    with d uniq [of d ms] tl x True show ?thesis by auto
  next
    case False
    with tl x uniq [of c ns] show ?thesis by (auto simp: map_of_fold_const)
  qed
qed simp

text \<open>In a partition of the nodes every node belongs to one community.\<close>

definition disjoint_communities :: "community_map \<Rightarrow> bool" where
  "disjoint_communities cm \<longleftrightarrow> (\<forall>(c, ns) \<in> set cm. \<forall>(d, ms) \<in> set cm. \<forall>n \<in> set ns. n \<in> set ms \<longrightarrow> c = d)"

lemma previous_community_iff:
  assumes "disjoint_communities cm"
  shows "map_of (build_previous_node_community cm) n = Some c \<longleftrightarrow> (\<exists>ns. (c, ns) \<in> set cm \<and> n \<in> set ns)"
proof -
  have u: "\<And>c d ns ms. (c, ns) \<in> set cm \<Longrightarrow> (d, ms) \<in> set cm \<Longrightarrow> n \<in> set ns \<Longrightarrow> n \<in> set ms \<Longrightarrow> c = d"
    using assms by (fastforce simp: disjoint_communities_def)
  have "\<And>d ms. (d, ms) \<in> set cm \<Longrightarrow> n \<in> set ms \<Longrightarrow> (THE c. \<exists>ns. (c, ns) \<in> set cm \<and> n \<in> set ns) = d"
    by (rule the_equality) (use u in blast)+
  then show ?thesis
    by (auto simp: build_previous_node_community_def previous_community_fold [OF u])
qed

section \<open>Properties\<close>

definition sample_holder :: "(sample_graph, nat) snapshot_holder" where
  "sample_holder = snd (publish sample_lib ([(pstr ''a.md'', [])], []) [(4, [pstr ''a.md''])] new_holder)"

definition sample_child :: child_env where
  "sample_child = \<lparr>ce_spawn = Inr 1, ce_answers = True, ce_exits = True\<rparr>"

text \<open>C26. A clustering cycle publishes exactly when the subprocess answered in time with communities,
  and otherwise leaves the holder and the registry as they were, so readers keep the previous
  assignment. What it publishes is the graph and index it clustered, under the next version, with
  the remapped communities; the success time is recorded then and only then. (The library is
  assumed to return a cached index as it is.)\<close>

theorem clustering_cycle_outcome:
  assumes "ce_spawn E = Inr t" "holder_ok L (c_holder st)"
    and "\<forall>g. l_trigram L (snd (l_trigram L g)) = l_trigram L g"
    and "run_clustering_cycle L E tmo now st = (st', r)" "current (c_holder st) = Some cur"
  shows "holder_ok L (c_holder st') \<and>
    (case usable_communities L E (graph cur) of
       None \<Rightarrow> r = Inr None \<and> c_holder st' = c_holder st \<and> c_metrics st' = c_metrics st
     | Some raw \<Rightarrow>
         (let s = \<lparr>graph = graph cur, trigram_index = trigram_index cur,
                   community_map = l_remap L raw (build_previous_node_community (community_map cur)),
                   version = version cur + 1\<rparr>
          in r = Inr (Some s) \<and> current (c_holder st') = Some s
             \<and> c_metrics st' = map_option (record_event_time ''clustering_success'' now) (c_metrics st)))"
proof (cases "usable_communities L E (graph cur)")
  case None
  from cycle_unusable [OF assms(1,5) None, of tmo now] assms(4)
  have "r = Inr None \<and> c_holder st' = c_holder st \<and> c_metrics st' = c_metrics st" by auto
  with None assms(2) show ?thesis by simp
next
  case (Some raw)
  from cycle_usable [OF assms(1,5) Some, of tmo now] assms(4) obtain s where r: "r = Inr (Some s)"
    and p: "publish L (graph cur) (l_remap L raw (build_previous_node_community (community_map cur))) (c_holder st)
        = (s, c_holder st')"
    and m: "c_metrics st' = map_option (record_event_time ''clustering_success'' now) (c_metrics st)"
    by auto
  from assms(2,5) obtain g where "l_trigram L g = (trigram_index cur, graph cur)"
    and v: "version cur + 1 = next_version (c_holder st)"
    by (auto simp: holder_ok_def)
  with assms(3) have "l_trigram L (graph cur) = (trigram_index cur, graph cur)" by (metis snd_conv)
  with publish_fields [OF p] v have "s = \<lparr>graph = graph cur, trigram_index = trigram_index cur,
      community_map = l_remap L raw (build_previous_node_community (community_map cur)), version = version cur + 1\<rparr>"
    by simp
  with publish_fields(1) [OF p] r m Some cycle_holder_ok [OF assms(2,4)] show ?thesis by (simp add: Let_def)
qed

theorem clustering_cycle_outcome_witness:
  "\<exists>s. snd (run_clustering_cycle sample_lib sample_child 30 7
        \<lparr>c_holder = sample_holder, c_metrics = None, c_log = []\<rparr>) = Inr (Some s) \<and> version s = 2"
proof -
  let ?st = "\<lparr>c_holder = sample_holder, c_metrics = None, c_log = []\<rparr>"
  obtain st' r where r: "run_clustering_cycle sample_lib sample_child 30 7 ?st = (st', r)"
    by (cases "run_clustering_cycle sample_lib sample_child 30 7 ?st")
  obtain s0 h where p: "publish sample_lib ([(pstr ''a.md'', [])], []) [(4, [pstr ''a.md''])] new_holder = (s0, h)"
    by (cases "publish sample_lib ([(pstr ''a.md'', [])], []) [(4, [pstr ''a.md''])] new_holder")
  then have h: "sample_holder = h" by (simp add: sample_holder_def)
  have ok: "holder_ok sample_lib (c_holder ?st)" using holder_ok_publish [OF holder_ok_new p] h by simp
  have cur: "current (c_holder ?st) = Some s0" "version s0 = 1"
    using publish_fields [OF p] h by (simp_all add: new_holder_def)
  have idx: "\<forall>g. l_trigram sample_lib (snd (l_trigram sample_lib g)) = l_trigram sample_lib g"
    by (simp add: sample_lib_def)
  have sp: "ce_spawn sample_child = Inr 1" by (simp add: sample_child_def)
  have "usable_communities sample_lib sample_child (graph s0) = Some [(0, map fst (fst (graph s0)))]"
    by (simp add: usable_communities_def sample_child_def sample_lib_def)
  with clustering_cycle_outcome [OF sp ok idx r cur(1)] r cur(2) show ?thesis by (simp add: Let_def)
qed

text \<open>However the child behaves, the call never leaves a process behind: it returns communities
  exactly when the message came in time and was no error, and the child has been reaped.\<close>

theorem clustering_child_reaped:
  assumes "ce_spawn E = Inr t"
  shows "\<exists>logs. run_clustering_subprocess L E tmo g = Inr (usable_communities L E g, Reaped, logs)
    \<and> (\<not> ce_answers E \<longrightarrow> ExceededTimeout tmo \<in> set logs)"
  using assms
  by (auto simp: run_clustering_subprocess_def usable_communities_def cluster_worker_def
      proc_join_timeout_def Let_def split: sum.split)

theorem clustering_child_reaped_witness:
  "\<exists>logs. run_clustering_subprocess sample_lib \<lparr>ce_spawn = Inr 1, ce_answers = False, ce_exits = False\<rparr> 30 ([], [])
     = Inr (None, Reaped, logs)"
  using clustering_child_reaped [of "\<lparr>ce_spawn = Inr 1, ce_answers = False, ce_exits = False\<rparr>" 1 sample_lib 30 "([], [])"]
  by (auto simp: usable_communities_def)

text \<open>The inversion the remap is given is faithful: when the communities are disjoint, a node is
  mapped to a community exactly when the community lists it.\<close>

theorem previous_communities_inverted:
  assumes "disjoint_communities cm"
  shows "map_of (build_previous_node_community cm) n = Some c \<longleftrightarrow> (\<exists>ns. (c, ns) \<in> set cm \<and> n \<in> set ns)"
  using assms by (rule previous_community_iff)

theorem previous_communities_inverted_witness:
  "map_of (build_previous_node_community [(0, [pstr ''a'', pstr ''b'']), (1, [pstr ''c''])]) (pstr ''b'') = Some 0"
proof -
  have "disjoint_communities [(0, [pstr ''a'', pstr ''b'']), (1, [pstr ''c''])]"
    by (simp add: disjoint_communities_def)
  from previous_communities_inverted [OF this, of "pstr ''b''" 0] show ?thesis by simp
qed

end
