(* ===== verification/Slow_Cadence.thy ===== *)
theory Slow_Cadence
  imports Clustering
begin

text \<open>
  The slow cadence: \<open>vault_compiler/slow_cadence.py\<close> (when it is due),
  \<open>artifact_lifecycle/graph_artifacts.py\<close> (what it writes) and \<open>artifact_lifecycle/cadence.py\<close> (the
  cycle). A clock reading is an argument. A writer returns the disk also when it raises, since
  what it wrote before stays written; \<open>write_text\<close> truncates the file before it encodes the text.
\<close>

section \<open>slow_cadence.py\<close>

record cadence_tracker =
  quiet_seconds :: real
  change_threshold :: int
  accumulated_changes :: int
  last_batch_at :: real

definition new_tracker :: "real \<Rightarrow> int \<Rightarrow> real \<Rightarrow> cadence_tracker" where
  "new_tracker quiet threshold now =
     \<lparr>quiet_seconds = quiet, change_threshold = threshold, accumulated_changes = 0, last_batch_at = now\<rparr>"

definition record_batch :: "int \<Rightarrow> real \<Rightarrow> cadence_tracker \<Rightarrow> cadence_tracker" where
  "record_batch change_count now t =
     t\<lparr>accumulated_changes := accumulated_changes t + change_count, last_batch_at := now\<rparr>"

definition should_trigger :: "real \<Rightarrow> cadence_tracker \<Rightarrow> bool" where
  "should_trigger now t \<longleftrightarrow>
     (if change_threshold t \<le> accumulated_changes t then True else quiet_seconds t \<le> now - last_batch_at t)"

definition reset_tracker :: "real \<Rightarrow> cadence_tracker \<Rightarrow> cadence_tracker" where
  "reset_tracker now t = t\<lparr>accumulated_changes := 0, last_batch_at := now\<rparr>"

section \<open>graph_artifacts.py\<close>

type_synonym writer = "disk \<Rightarrow> disk \<times> unit res"

definition as_writer :: "(disk \<Rightarrow> disk res) \<Rightarrow> writer" where
  "as_writer f d = (case f d of Inl e \<Rightarrow> (d, Inl e) | Inr d' \<Rightarrow> (d', Inr ()))"

definition node_line :: "nat \<Rightarrow> pystr \<times> int \<Rightarrow> pystr" where
  "node_line i n = py_str_int (int i) @ pstr ''. '' @ fst n @ pstr '' ('' @ py_str_int (snd n) @ pstr '' edges)''"

definition community_line :: "int \<times> pystr list \<Rightarrow> pystr" where
  "community_line c =
     pstr ''- Community '' @ py_str_int (fst c) @ pstr '': '' @ py_str_int (int (length (snd c))) @ pstr '' nodes''"

definition knowledge_lines :: "('g, 't) lib \<Rightarrow> ('g, 't) graph_snapshot \<Rightarrow> pystr list" where
  "knowledge_lines L s =
     [pstr ''# Knowledge Graph Summary'', [],
      pstr ''- Snapshot version: '' @ py_str_int (int (version s)),
      pstr ''- Nodes: '' @ py_str_int (int (length (l_nodes L (graph s)))),
      pstr ''- Edges: '' @ py_str_int (int (length (l_edges L (graph s)))),
      pstr ''- Communities: '' @ py_str_int (int (length (community_map s))),
      [], pstr ''## God nodes'', []]
     @ map (\<lambda>(i, n). node_line i n) (enumerate 1 (l_god_nodes L (graph s) 10))
     @ [[], pstr ''## Communities'', []]
     @ map community_line (sort_key fst (community_map s))"

definition generate_knowledge_md :: "('g, 't) lib \<Rightarrow> ('g, 't) graph_snapshot \<Rightarrow> pystr" where
  "generate_knowledge_md L s = py_join [newline] (knowledge_lines L s) @ [newline]"

definition write_graph_json :: "('g, 't) lib \<Rightarrow> ('g, 't) graph_snapshot \<Rightarrow> pypath \<Rightarrow> writer" where
  "write_graph_json L s path d =
     (let g = (if l_has_trigram L (graph s) then l_without_trigram L (graph s) else graph s)
      in case l_to_json L g (community_map s) of
           Inl e \<Rightarrow> (d, Inl e)
         | Inr j \<Rightarrow> as_writer (write_restricted path (JsonFile j)) d)"

definition write_knowledge_md :: "('g, 't) lib \<Rightarrow> ('g, 't) graph_snapshot \<Rightarrow> pypath \<Rightarrow> writer" where
  "write_knowledge_md L s path d =
     (let text = generate_knowledge_md L s
      in case utf8_encode text of
           Inl e \<Rightarrow> (case write_file path (TextFile []) d of Inl e' \<Rightarrow> (d, Inl e') | Inr d' \<Rightarrow> (d', Inl e))
         | Inr b \<Rightarrow> as_writer (write_restricted path (TextFile text)) d)"

section \<open>cadence.py\<close>

record ('g, 't) cadence_state =
  s_tracker :: cadence_tracker
  s_cluster :: "('g, 't) cluster_state"
  s_disk :: disk

record cadence_clock =
  at_trigger :: real
  at_success :: real
  at_reset :: real

record artifact_paths =
  ap_graph_json :: pypath
  ap_knowledge_md :: pypath
  ap_graph_cache :: pypath

definition artifact_writers ::
  "('g, 't) lib \<Rightarrow> ('g, 't) graph_snapshot option \<Rightarrow> extraction_cache \<Rightarrow> artifact_paths \<Rightarrow> writer list" where
  "artifact_writers L cur cache ps =
     (case cur of
        None \<Rightarrow> []
      | Some s \<Rightarrow> [write_graph_json L s (ap_graph_json ps), write_knowledge_md L s (ap_knowledge_md ps)])
     @ [as_writer (cache_save cache (ap_graph_cache ps))]"

definition run_slow_cadence_cycle ::
  "('g, 't) lib \<Rightarrow> child_env \<Rightarrow> real \<Rightarrow> cadence_clock \<Rightarrow> artifact_paths \<Rightarrow> extraction_cache
     \<Rightarrow> ('g, 't) cadence_state \<Rightarrow> ('g, 't) cadence_state \<times> bool res" where
  "run_slow_cadence_cycle L E tmo clk ps cache st =
     (if \<not> should_trigger (at_trigger clk) (s_tracker st) then (st, Inr False)
      else case run_clustering_cycle L E tmo (at_success clk) (s_cluster st) of
        (cs, Inl e) \<Rightarrow> (st\<lparr>s_cluster := cs\<rparr>, Inl e)
      | (cs, Inr r) \<Rightarrow>
          (case run_all (artifact_writers L (current (c_holder cs)) cache ps) (s_disk st) of
             (d, Inl e) \<Rightarrow> (st\<lparr>s_cluster := cs, s_disk := d\<rparr>, Inl e)
           | (d, Inr u) \<Rightarrow>
               (\<lparr>s_tracker = reset_tracker (at_reset clk) (s_tracker st), s_cluster = cs, s_disk = d\<rparr>, Inr True)))"

section \<open>When the cycle is due\<close>

definition record_batches :: "(int \<times> real) list \<Rightarrow> cadence_tracker \<Rightarrow> cadence_tracker" where
  "record_batches bs t = fold (\<lambda>(n, now). record_batch n now) bs t"

lemma record_batches_fields:
  "accumulated_changes (record_batches bs t) = accumulated_changes t + sum_list (map fst bs)"
  "change_threshold (record_batches bs t) = change_threshold t"
  "quiet_seconds (record_batches bs t) = quiet_seconds t"
  "last_batch_at (record_batches bs t) = (if bs = [] then last_batch_at t else snd (last bs))"
  unfolding record_batches_def
  by (induction bs arbitrary: t) (auto simp: record_batch_def)

section \<open>What a cycle writes\<close>

text \<open>A writer that leaves every file owner-only when it returns.\<close>

definition restricting :: "writer \<Rightarrow> bool" where
  "restricting w \<longleftrightarrow> (\<forall>d d' u. w d = (d', Inr u) \<longrightarrow> d_dirs d' = d_dirs d \<and>
     (files_owner_only d \<longrightarrow> files_owner_only d'))"

lemma restrictingD: "restricting w \<Longrightarrow> w d = (d', Inr u) \<Longrightarrow> files_owner_only d \<Longrightarrow> files_owner_only d'"
  by (auto simp: restricting_def)

lemma restricting_as_writer: "restricting (as_writer (write_restricted p c))"
  by (auto simp: restricting_def as_writer_def write_restricted_owner_only(4)
      intro: write_restricted_files_owner_only split: sum.splits)

lemma restricting_graph_json: "restricting (write_graph_json L s p)"
  using restricting_as_writer by (auto simp: restricting_def write_graph_json_def Let_def split: sum.splits)

lemma restricting_knowledge_md: "restricting (write_knowledge_md L s p)"
  using restricting_as_writer by (auto simp: restricting_def write_knowledge_md_def Let_def split: sum.splits)

lemma restricting_cache_save: "restricting (as_writer (cache_save c p))"
proof -
  have "cache_save c p = write_restricted p (JsonFile (cache_json c))" by (rule ext) (simp add: cache_save_def)
  then show ?thesis using restricting_as_writer by simp
qed

lemma restricting_run_all: "\<forall>w \<in> set ws. restricting w \<Longrightarrow> restricting (run_all ws)"
proof (induction ws)
  case (Cons w ws)
  then have "restricting w" "restricting (run_all ws)" by simp_all
  then show ?case unfolding restricting_def
    by (auto split: prod.splits sum.splits)
qed (simp add: restricting_def)

lemma restricting_artifacts: "restricting (run_all (artifact_writers L cur cache ps))"
  by (rule restricting_run_all)
    (auto simp: artifact_writers_def restricting_graph_json restricting_knowledge_md restricting_cache_save
      split: option.splits)

text \<open>The artifacts of a snapshot, when they can be rendered and can be opened for writing.\<close>

definition graph_json_of :: "('g, 't) lib \<Rightarrow> ('g, 't) graph_snapshot \<Rightarrow> json res" where
  "graph_json_of L s =
     l_to_json L (if l_has_trigram L (graph s) then l_without_trigram L (graph s) else graph s) (community_map s)"

definition renderable :: "('g, 't) lib \<Rightarrow> ('g, 't) graph_snapshot \<Rightarrow> bool" where
  "renderable L s \<longleftrightarrow> (\<exists>j. graph_json_of L s = Inr j) \<and> (\<exists>b. utf8_encode (generate_knowledge_md L s) = Inr b)"

definition artifact_dirs_ok :: "artifact_paths \<Rightarrow> disk \<Rightarrow> bool" where
  "artifact_dirs_ok ps d \<longleftrightarrow>
     (\<forall>p \<in> {ap_graph_json ps, ap_knowledge_md ps, ap_graph_cache ps}. writable p d) \<and>
     distinct [ap_graph_json ps, ap_knowledge_md ps, ap_graph_cache ps]"

lemma as_writer_write:
  assumes "writable p d"
  shows "\<exists>d'. as_writer (write_restricted p c) d = (d', Inr ()) \<and> map_of (d_files d') = (map_of (d_files d))(p \<mapsto> c)
    \<and> d_dirs d' = d_dirs d"
proof -
  obtain d' where d': "write_restricted p c d = Inr d'" using write_restricted_Inr [OF assms] by blast
  then show ?thesis using write_restricted_owner_only(3,4) [OF d'] by (simp add: as_writer_def)
qed

lemma write_artifacts:
  assumes "artifact_dirs_ok ps d" "\<forall>s. cur = Some s \<longrightarrow> renderable L s"
  shows "\<exists>d'. run_all (artifact_writers L cur cache ps) d = (d', Inr ()) \<and> d_dirs d' = d_dirs d
    \<and> map_of (d_files d') (ap_graph_cache ps) = Some (JsonFile (cache_json cache))
    \<and> (\<forall>s j. cur = Some s \<longrightarrow> graph_json_of L s = Inr j \<longrightarrow>
         map_of (d_files d') (ap_graph_json ps) = Some (JsonFile j)
         \<and> map_of (d_files d') (ap_knowledge_md ps) = Some (TextFile (generate_knowledge_md L s)))"
proof (cases cur)
  case None
  obtain d' where "as_writer (cache_save cache (ap_graph_cache ps)) d = (d', Inr ())"
    "map_of (d_files d') = (map_of (d_files d))(ap_graph_cache ps \<mapsto> JsonFile (cache_json cache))" "d_dirs d' = d_dirs d"
    using as_writer_write [of "ap_graph_cache ps" d "JsonFile (cache_json cache)"] assms(1)
    by (auto simp: artifact_dirs_ok_def as_writer_def cache_save_def)
  with None show ?thesis by (simp add: artifact_writers_def)
next
  case (Some s)
  then obtain j b where j: "graph_json_of L s = Inr j" and b: "utf8_encode (generate_knowledge_md L s) = Inr b"
    using assms(2) by (auto simp: renderable_def)
  obtain d1 where d1: "write_graph_json L s (ap_graph_json ps) d = (d1, Inr ())" "d_dirs d1 = d_dirs d"
    "map_of (d_files d1) = (map_of (d_files d))(ap_graph_json ps \<mapsto> JsonFile j)"
    using as_writer_write [of "ap_graph_json ps" d "JsonFile j"] assms(1) j
    by (auto simp: artifact_dirs_ok_def write_graph_json_def graph_json_of_def Let_def)
  obtain d2 where d2: "write_knowledge_md L s (ap_knowledge_md ps) d1 = (d2, Inr ())" "d_dirs d2 = d_dirs d"
    "map_of (d_files d2) = (map_of (d_files d1))(ap_knowledge_md ps \<mapsto> TextFile (generate_knowledge_md L s))"
    using as_writer_write [of "ap_knowledge_md ps" d1 "TextFile (generate_knowledge_md L s)"] assms(1) b d1(2)
    by (auto simp: writable_def artifact_dirs_ok_def write_knowledge_md_def Let_def)
  obtain d3 where d3: "as_writer (cache_save cache (ap_graph_cache ps)) d2 = (d3, Inr ())" "d_dirs d3 = d_dirs d"
    "map_of (d_files d3) = (map_of (d_files d2))(ap_graph_cache ps \<mapsto> JsonFile (cache_json cache))"
    using as_writer_write [of "ap_graph_cache ps" d2 "JsonFile (cache_json cache)"] assms(1) d1(2) d2(2)
    by (auto simp: writable_def artifact_dirs_ok_def as_writer_def cache_save_def)
  show ?thesis
    using Some j d1 d2 d3 assms(1) by (auto simp: artifact_writers_def artifact_dirs_ok_def)
qed

lemma cadence_cycle_writes:
  assumes "ce_spawn E = Inr t" "artifact_dirs_ok ps (s_disk st)"
    and "run_slow_cadence_cycle L E tmo clk ps cache st = (st', r)"
    and "\<forall>s. current (c_holder (s_cluster st')) = Some s \<longrightarrow> renderable L s"
    and "should_trigger (at_trigger clk) (s_tracker st)"
  shows "r = Inr True \<and> s_tracker st' = reset_tracker (at_reset clk) (s_tracker st)
      \<and> map_of (d_files (s_disk st')) (ap_graph_cache ps) = Some (JsonFile (cache_json cache))
      \<and> (\<forall>s j. current (c_holder (s_cluster st')) = Some s \<longrightarrow> graph_json_of L s = Inr j \<longrightarrow>
           map_of (d_files (s_disk st')) (ap_graph_json ps) = Some (JsonFile j)
           \<and> map_of (d_files (s_disk st')) (ap_knowledge_md ps) = Some (TextFile (generate_knowledge_md L s)))"
proof -
  obtain cs u where cs: "run_clustering_cycle L E tmo (at_success clk) (s_cluster st) = (cs, Inr u)"
    using cycle_returns [OF assms(1), of L tmo "at_success clk" "s_cluster st"] by blast
  with assms(3,5) have "s_cluster st' = cs"
    by (auto simp: run_slow_cadence_cycle_def split: prod.splits sum.splits)
  with assms(4) have "\<forall>s. current (c_holder cs) = Some s \<longrightarrow> renderable L s" by simp
  from write_artifacts [OF assms(2) this, of cache]
  obtain d where d: "run_all (artifact_writers L (current (c_holder cs)) cache ps) (s_disk st) = (d, Inr ())"
    and f: "map_of (d_files d) (ap_graph_cache ps) = Some (JsonFile (cache_json cache))"
      "\<forall>s j. current (c_holder cs) = Some s \<longrightarrow> graph_json_of L s = Inr j \<longrightarrow>
         map_of (d_files d) (ap_graph_json ps) = Some (JsonFile j)
         \<and> map_of (d_files d) (ap_knowledge_md ps) = Some (TextFile (generate_knowledge_md L s))"
    by blast
  from assms(3,5) cs d have "r = Inr True"
    "st' = \<lparr>s_tracker = reset_tracker (at_reset clk) (s_tracker st), s_cluster = cs, s_disk = d\<rparr>"
    by (simp_all add: run_slow_cadence_cycle_def)
  with f show ?thesis by simp
qed

section \<open>Properties\<close>

text \<open>The slow cadence counts exactly what happened since the last reset: after a reset and any
  batches, it is due when their changes add up to the threshold, or when the quiet period has passed since the last
  of them (or since the reset). In particular a timer of the quiet period, started after the last
  batch, always finds it due.\<close>

theorem cadence_due:
  shows "should_trigger now (record_batches bs (reset_tracker t0 t)) \<longleftrightarrow>
    change_threshold t \<le> sum_list (map fst bs) \<or>
    quiet_seconds t \<le> now - (if bs = [] then t0 else snd (last bs))"
  by (simp add: should_trigger_def record_batches_fields) (simp add: reset_tracker_def)


definition sample_artifacts :: artifact_paths where
  "sample_artifacts =
     \<lparr>ap_graph_json = PyPath [slash] [pstr ''out'', pstr ''graph.json''],
      ap_knowledge_md = PyPath [slash] [pstr ''out'', pstr ''KNOWLEDGE.md''],
      ap_graph_cache = PyPath [slash] [pstr ''out'', pstr ''graph_cache.json'']\<rparr>"

definition sample_cadence :: "(sample_graph, nat) cadence_state" where
  "sample_cadence =
     \<lparr>s_tracker = \<lparr>quiet_seconds = 60, change_threshold = 2, accumulated_changes = 3, last_batch_at = 0\<rparr>,
      s_cluster = \<lparr>c_holder = new_holder, c_metrics = None, c_log = []\<rparr>, s_disk = sample_disk\<rparr>"


text \<open>C29. Derived artifacts stay confidential: if every file of the output directory is owner-only, it is
  so again after a cycle that returned, also for the files the cycle created.\<close>

theorem artifacts_owner_only:
  assumes "run_slow_cadence_cycle L E tmo clk ps cache st = (st', Inr b)" "files_owner_only (s_disk st)"
  shows "files_owner_only (s_disk st')"
  using assms
  by (auto simp: run_slow_cadence_cycle_def intro: restrictingD [OF restricting_artifacts]
      split: if_splits prod.splits sum.splits)

theorem artifacts_owner_only_witness:
  "files_owner_only (s_disk (fst (run_slow_cadence_cycle sample_lib sample_child 30
      \<lparr>at_trigger = 1, at_success = 2, at_reset = 3\<rparr> sample_artifacts empty_cache sample_cadence)))"
proof -
  let ?run = "run_slow_cadence_cycle sample_lib sample_child 30 \<lparr>at_trigger = 1, at_success = 2, at_reset = 3\<rparr>
      sample_artifacts empty_cache sample_cadence"
  have "\<exists>d. ?run = (d, Inr True)"
    by (simp add: run_slow_cadence_cycle_def run_clustering_cycle_def sample_cadence_def new_holder_def
        should_trigger_def artifact_writers_def as_writer_def cache_save_def write_restricted_def write_file_def
        sample_artifacts_def sample_disk_def path_parent_def restrict_to_owner_def chmod_def d_exists_def Let_def)
  then obtain st' where r: "?run = (st', Inr True)" by blast
  have "files_owner_only (s_disk sample_cadence)"
    by (simp add: files_owner_only_def sample_cadence_def sample_disk_def)
  from artifacts_owner_only [OF r this] r show ?thesis by simp
qed

end
