(* ===== verification/Cold_Start.thy ===== *)
theory Cold_Start
  imports Slow_Cadence
begin

text \<open>
  \<open>artifact_lifecycle/cold_start.py\<close>: the reconciliation of the persisted cache with the vault by
  modification times, and the first publication. The state is that of \<open>extract_batch\<close>
  (cache, registry, log); it is returned also when the call raises.
\<close>

section \<open>One path of the walk\<close>

definition COLD_START_FAILED :: pystr where
  "COLD_START_FAILED = pstr ''Cold-start extraction failed''"

text \<open>A candidate file, after \<open>observed.add(relative)\<close>.\<close>

definition cold_file ::
  "world \<Rightarrow> pypath \<Rightarrow> pypath \<Rightarrow> pypath \<Rightarrow> extract_state \<Rightarrow> extract_state \<times> unit res" where
  "cold_file W base path relative st =
     (case w_stat W path of
        Inl e \<Rightarrow> (st, Inl e)
      | Inr (current_mtime, sz) \<Rightarrow>
          if cache_mtime (x_cache st) relative = Some current_mtime then (st, Inr ())
          else (case extract_file_with_failure_isolation W path base relative COLD_START_FAILED (x_metrics st) of
                  Inl e \<Rightarrow> (st, Inl e)
                | Inr (r, m, logs) \<Rightarrow>
                    let st1 = st\<lparr>x_metrics := m, x_log := x_log st @ logs\<rparr>
                    in (case r of
                          None \<Rightarrow> (st1, Inr ())
                        | Some result \<Rightarrow>
                            (st1\<lparr>x_cache := cache_set relative result (Some current_mtime) (x_cache st1)\<rparr>, Inr ()))))"

text \<open>The relative path, when the file is observed.\<close>

definition cold_path ::
  "world \<Rightarrow> pypath \<Rightarrow> pystr set \<Rightarrow> pypath \<Rightarrow> extract_state \<Rightarrow> extract_state \<times> pypath option res" where
  "cold_path W base nested path st =
     (if w_is_dir W path \<or> path_suffix path \<notin> OBSERVED_SUFFIXES then (st, Inr None)
      else case is_excluded path base nested of
        Inl e \<Rightarrow> (st, Inl e)
      | Inr True \<Rightarrow> (st, Inr None)
      | Inr False \<Rightarrow>
          (case relative_to path base of
             Inl e \<Rightarrow> (st, Inl e)
           | Inr relative \<Rightarrow>
               (case resolve_within_vault W path base of
                  Inl e \<Rightarrow> (st, Inl e)
                | Inr None \<Rightarrow> (st\<lparr>x_log := x_log st @ [rejected_message relative]\<rparr>, Inr None)
                | Inr (Some q) \<Rightarrow>
                    (case cold_file W base path relative st of
                       (st', Inl e) \<Rightarrow> (st', Inl e)
                     | (st', Inr u) \<Rightarrow> (st', Inr (Some relative))))))"

section \<open>The walk, and what is dropped\<close>

fun cold_walk ::
  "world \<Rightarrow> pypath \<Rightarrow> pystr set \<Rightarrow> pypath list \<Rightarrow> pypath list \<Rightarrow> extract_state
     \<Rightarrow> extract_state \<times> pypath list res" where
  "cold_walk W base nested [] observed st = (st, Inr observed)"
| "cold_walk W base nested (p # ps) observed st =
     (case cold_path W base nested p st of
        (st', Inl e) \<Rightarrow> (st', Inl e)
      | (st', Inr None) \<Rightarrow> cold_walk W base nested ps observed st'
      | (st', Inr (Some relative)) \<Rightarrow> cold_walk W base nested ps (relative # observed) st')"

definition drop_unobserved :: "pypath list \<Rightarrow> extraction_cache \<Rightarrow> extraction_cache" where
  "drop_unobserved observed c =
     fold (\<lambda>p c. if p \<notin> set observed then cache_delete p c else c) (keys (cache_entries c)) c"

definition cold_start ::
  "('g, 't) lib \<Rightarrow> world \<Rightarrow> pypath \<Rightarrow> pystr set \<Rightarrow> extract_state \<times> ('g, 't) snapshot_holder
     \<Rightarrow> (extract_state \<times> ('g, 't) snapshot_holder) \<times> ('g, 't) graph_snapshot res" where
  "cold_start L W base nested s =
     (case s of (st, h) \<Rightarrow>
        (case cold_walk W base nested (w_rglob W base) [] st of
           (st1, Inl e) \<Rightarrow> ((st1, h), Inl e)
         | (st1, Inr observed) \<Rightarrow>
             let st2 = st1\<lparr>x_cache := drop_unobserved observed (x_cache st1)\<rparr>
             in (case build_graph L (x_cache st2) of
                   Inl e \<Rightarrow> ((st2, h), Inl e)
                 | Inr g \<Rightarrow> (case publish L g [] h of (snap, h') \<Rightarrow> ((st2, h'), Inr snap)))))"

section \<open>What the walk does to one entry\<close>

text \<open>The paths the vault rules admit.\<close>

definition admitted :: "world \<Rightarrow> pypath \<Rightarrow> pystr set \<Rightarrow> pypath \<Rightarrow> bool" where
  "admitted W base nested p \<longleftrightarrow>
     \<not> w_is_dir W p \<and> is_excluded p base nested = Inr False \<and>
     (\<exists>q. resolve_within_vault W p base = Inr (Some q))"

text \<open>What \<open>rglob\<close> yields: distinct well-formed paths under its base.\<close>

definition rglob_ok :: "world \<Rightarrow> pypath \<Rightarrow> bool" where
  "rglob_ok W base \<longleftrightarrow> distinct (w_rglob W base) \<and>
     (\<forall>p \<in> set (w_rglob W base). path_ok p \<and> is_relative_to p base \<and> p \<noteq> base)"

text \<open>An entry with its modification time.\<close>

definition entry_of :: "extraction_cache \<Rightarrow> pypath \<Rightarrow> pyobj option \<times> real option" where
  "entry_of c rel = (cache_get c rel, cache_mtime c rel)"

definition refreshed :: "world \<Rightarrow> pypath \<Rightarrow> pypath \<Rightarrow> pyobj option \<times> real option \<Rightarrow> pyobj option \<times> real option" where
  "refreshed W base p old =
     (if snd old = stat_mtime W p then old
      else case extracts W base p of None \<Rightarrow> old | Some r \<Rightarrow> (Some r, stat_mtime W p))"

lemma entry_of_set:
  "path_ok p \<Longrightarrow> path_ok q \<Longrightarrow> entry_of (cache_set p r (Some t) c) q = (if q = p then (Some r, Some t) else entry_of c q)"
  by (auto simp: entry_of_def cache_set_def cache_put_def cache_get_def cache_mtime_def dict_simps
      dest: path_str_inj)

lemma entry_of_delete:
  "path_ok p \<Longrightarrow> path_ok q \<Longrightarrow> entry_of (cache_delete p c) q = (if q = p then (None, None) else entry_of c q)"
  by (auto simp: entry_of_def cache_delete_def cache_del_def cache_get_def cache_mtime_def dict_simps
      dest: path_str_inj)

lemma cold_file_entry:
  assumes "cold_file W base path rel st = (st', Inr u)" "path_ok rel" "path_ok q"
  shows "entry_of (x_cache st') q =
      (if q = rel then refreshed W base path (entry_of (x_cache st) q) else entry_of (x_cache st) q)
    \<and> (\<exists>t. stat_mtime W path = Some t)"
proof -
  from assms(1) obtain t sz where t: "w_stat W path = Inr (t, sz)"
    by (auto simp: cold_file_def split: sum.splits)
  show ?thesis
  proof (cases "cache_mtime (x_cache st) rel = Some t")
    case True
    with assms(1) t show ?thesis
      by (auto simp: cold_file_def refreshed_def entry_of_def stat_mtime_def)
  next
    case False
    with assms(1) t obtain r m logs where
      i: "extract_file_with_failure_isolation W path base rel COLD_START_FAILED (x_metrics st) = Inr (r, m, logs)"
      by (auto simp: cold_file_def split: sum.splits)
    from isolation_Inr(1) [OF i] have r: "r = extracts W base path" .
    show ?thesis
    proof (cases r)
      case None
      with assms(1) t False i r show ?thesis
        by (auto simp: cold_file_def refreshed_def entry_of_def stat_mtime_def Let_def)
    next
      case (Some x)
      with assms(1) t False i have "x_cache st' = cache_set rel x (Some t) (x_cache st)"
        by (auto simp: cold_file_def Let_def)
      moreover have "snd (entry_of (x_cache st) rel) \<noteq> Some t" using False by (simp add: entry_of_def)
      moreover have "extracts W base path = Some x" using r Some by simp
      ultimately show ?thesis
        using t assms(2,3) by (simp add: entry_of_set refreshed_def stat_mtime_def)
    qed
  qed
qed

lemma suffix_relative:
  assumes "relative_to p base = Inr rel" "p \<noteq> base"
  shows "path_suffix rel = path_suffix p"
proof -
  obtain ps where rel: "rel = PyPath [] ps" using assms(1) by (cases rel) (auto simp: relative_to_Inr_iff)
  with assms(1) have p: "p = path_join base (PyPath [] ps)" by (simp add: relative_to_Inr_iff)
  with assms(2) have "ps \<noteq> []" by (cases base) auto
  with p rel show ?thesis by (simp add: path_suffix_def path_name_def)
qed

text \<open>The suffix test of the walk is implied by the exclusion test.\<close>

lemma cold_path_cases:
  assumes "cold_path W base nested p st = (st', Inr u)" "is_relative_to p base" "p \<noteq> base"
  shows "(admitted W base nested p \<and>
      (\<exists>rel v. relative_to p base = Inr rel \<and> u = Some rel \<and> cold_file W base p rel st = (st', Inr v)))
    \<or> (\<not> admitted W base nested p \<and> u = None \<and> x_cache st' = x_cache st)"
proof -
  obtain rel where rel: "relative_to p base = Inr rel" using relative_to_in [OF assms(2)] by blast
  have sfx: "is_excluded p base nested = Inr False \<Longrightarrow> path_suffix p \<in> OBSERVED_SUFFIXES"
    using suffix_relative [OF rel assms(3)] rel by (auto simp: is_excluded_Inr_iff)
  with assms(1) rel show ?thesis
    by (auto simp: cold_path_def admitted_def split: if_splits sum.splits bool.splits option.splits prod.splits)
qed

lemma cold_walk_entry:
  assumes "cold_walk W base nested ps obs st = (st', Inr obs')"
    and "distinct ps" "\<forall>p \<in> set ps. path_ok p \<and> is_relative_to p base \<and> p \<noteq> base" "path_ok q"
  shows "entry_of (x_cache st') q =
      (if \<exists>p \<in> set ps. relative_to p base = Inr q \<and> admitted W base nested p
       then refreshed W base (path_join base q) (entry_of (x_cache st) q) else entry_of (x_cache st) q)
    \<and> set obs' = set obs \<union> {rel. \<exists>p \<in> set ps. relative_to p base = Inr rel \<and> admitted W base nested p}
    \<and> (\<forall>p \<in> set ps. admitted W base nested p \<longrightarrow> (\<exists>t. stat_mtime W p = Some t))"
  using assms(1-3)
proof (induction ps arbitrary: obs st)
  case (Cons p ps)
  obtain st1 v where one: "cold_path W base nested p st = (st1, v)" by (cases "cold_path W base nested p st")
  with Cons.prems(1) obtain u where u: "v = Inr u" by (cases v) auto
  obtain rel where rel: "relative_to p base = Inr rel" using Cons.prems(3) relative_to_in by force
  have ok: "path_ok rel" using rel Cons.prems(3) path_ok_relative_to by force
  have other: "relative_to p' base \<noteq> Inr rel" if "p' \<in> set ps" for p'
    using that Cons.prems(2) rel relative_to_inj by fastforce
  have pj: "path_join base rel = p" using rel by (simp add: relative_to_Inr_iff)
  show ?case
  proof (cases "admitted W base nested p")
    case True
    with cold_path_cases [of W base nested p st st1 u] one u rel Cons.prems(3)
    obtain w where f: "cold_file W base p rel st = (st1, Inr w)" and us: "u = Some rel" by auto
    have walk: "cold_walk W base nested ps (rel # obs) st1 = (st', Inr obs')"
      using Cons.prems(1) one u us by simp
    show ?thesis
      using Cons.IH [OF walk] Cons.prems(2,3) cold_file_entry [OF f ok assms(4)] True rel other pj
      by auto
  next
    case False
    with cold_path_cases [of W base nested p st st1 u] one u Cons.prems(3)
    have us: "u = None" and same: "x_cache st1 = x_cache st" by auto
    have walk: "cold_walk W base nested ps obs st1 = (st', Inr obs')"
      using Cons.prems(1) one u us by simp
    show ?thesis using Cons.IH [OF walk] Cons.prems(2,3) False same by auto
  qed
qed simp

lemma drop_fold_entry:
  assumes "\<forall>p \<in> set ks. path_ok p" "path_ok q"
  shows "entry_of (fold (\<lambda>p c. if p \<notin> set obs then cache_delete p c else c) ks c) q =
    (if q \<in> set ks - set obs then (None, None) else entry_of c q)"
  using assms(1)
proof (induction ks arbitrary: c)
  case (Cons k ks)
  then show ?case using assms(2) by (auto simp: entry_of_delete)
qed simp

section \<open>The cache invariant\<close>

definition cache_inv :: "extraction_cache \<Rightarrow> bool" where
  "cache_inv c \<longleftrightarrow> cache_ok c \<and> canonical_keys c"

lemma cache_inv_set: "cache_inv c \<Longrightarrow> path_ok p \<Longrightarrow> cache_inv (cache_set p r mt c)"
  by (simp add: cache_inv_def cache_ok_set canonical_keys_set)

lemma cache_inv_delete: "cache_inv c \<Longrightarrow> cache_inv (cache_delete p c)"
  by (simp add: cache_inv_def cache_ok_delete canonical_keys_delete)

lemma cold_file_inv:
  "cold_file W base p rel st = (st', r) \<Longrightarrow> path_ok rel \<Longrightarrow> cache_inv (x_cache st) \<Longrightarrow> cache_inv (x_cache st')"
  by (auto simp: cold_file_def Let_def cache_inv_set split: sum.splits if_splits option.splits prod.splits)

lemma cold_path_inv:
  assumes "cold_path W base nested p st = (st', r)" "path_ok p" "cache_inv (x_cache st)"
  shows "cache_inv (x_cache st')"
proof -
  have ok: "path_ok rel" if "relative_to p base = Inr rel" for rel
    using assms(2) that by (rule path_ok_relative_to)
  show ?thesis
    using assms ok
    by (auto simp: cold_path_def intro: cold_file_inv
        split: if_splits sum.splits bool.splits option.splits prod.splits)
qed

lemma cold_walk_inv:
  assumes "cold_walk W base nested ps obs st = (st', r)" "\<forall>p \<in> set ps. path_ok p" "cache_inv (x_cache st)"
  shows "cache_inv (x_cache st')"
  using assms
proof (induction ps arbitrary: obs st)
  case (Cons p ps)
  then show ?case
    by (auto split: prod.splits sum.splits option.splits dest: cold_path_inv)
qed simp

lemma drop_inv: "cache_inv c \<Longrightarrow> cache_inv (drop_unobserved obs c)"
proof -
  have "cache_inv c \<Longrightarrow> cache_inv (fold (\<lambda>p c. if p \<notin> set obs then cache_delete p c else c) ks c)" for ks c
    by (induction ks arbitrary: c) (auto intro: cache_inv_delete)
  then show "cache_inv c \<Longrightarrow> cache_inv (drop_unobserved obs c)" by (simp add: drop_unobserved_def)
qed

lemma keys_cache_entries: "fst ` set (cache_entries c) = path_of_str ` fst ` set (entries c)"
proof -
  have "fst ` set (fold (\<lambda>(key, v). AList.update (path_of_str key) v) es d) =
      path_of_str ` fst ` set es \<union> fst ` set d" for es and d :: results
    by (induction es arbitrary: d) (simp_all add: split_beta keys_update)
  from this [of "entries c" "[]"] show ?thesis by (simp add: cache_entries_def)
qed

lemma cached_paths:
  assumes "cache_inv c"
  shows "\<forall>p \<in> set (keys (cache_entries c)). path_ok p"
    and "path_ok q \<Longrightarrow> q \<in> set (keys (cache_entries c)) \<longleftrightarrow> cache_get c q \<noteq> None"
proof -
  have canon: "canonical_keys c" using assms by (simp add: cache_inv_def)
  then show "\<forall>p \<in> set (keys (cache_entries c)). path_ok p"
    by (auto simp: keys_cache_entries canonical_keys_def path_of_str_of_path)
  show "q \<in> set (keys (cache_entries c)) \<longleftrightarrow> cache_get c q \<noteq> None" if q: "path_ok q"
  proof -
    have "path_of_str k = q \<longleftrightarrow> k = path_str q" if "k \<in> fst ` set (entries c)" for k
      using that canon q path_of_str_of_path unfolding canonical_keys_def list.set_map by metis
    then show ?thesis
      by (auto simp: keys_cache_entries cache_get_def map_of_eq_None_iff image_iff) force+
  qed
qed

lemma drop_entry:
  assumes "cache_inv c" "path_ok q"
  shows "entry_of (drop_unobserved obs c) q = (if q \<in> set obs then entry_of c q else (None, None))"
proof -
  have gone: "entry_of c q = (None, None)" if "cache_get c q = None"
  proof -
    have "cache_mtime c q = None"
      using that assms(1) unfolding cache_inv_def cache_ok_def cache_get_def cache_mtime_def map_of_None_iff by blast
    with that show ?thesis by (simp add: entry_of_def)
  qed
  show ?thesis
    using drop_fold_entry [OF cached_paths(1) [OF assms(1)] assms(2), of obs c]
      cached_paths(2) [OF assms] gone
    by (auto simp: drop_unobserved_def)
qed

section \<open>A second walk\<close>

lemma cold_path_stable:
  assumes "cold_path W base nested p st = (st1, Inr u)" "is_relative_to p base" "p \<noteq> base"
    and "\<And>rel. relative_to p base = Inr rel \<Longrightarrow> admitted W base nested p \<Longrightarrow>
      refreshed W base p (entry_of (x_cache s) rel) = entry_of (x_cache s) rel"
  shows "\<exists>s1. cold_path W base nested p s = (s1, Inr u) \<and> x_cache s1 = x_cache s"
proof (cases "admitted W base nested p")
  case True
  from cold_path_cases [OF assms(1-3)] True obtain rel v where rel: "relative_to p base = Inr rel"
    and u: "u = Some rel" and f: "cold_file W base p rel st = (st1, Inr v)" by blast
  from f obtain t sz where t: "w_stat W p = Inr (t, sz)" by (auto simp: cold_file_def split: sum.splits)
  from True obtain r where r: "w_resolve W base = Inr r"
    by (auto simp: admitted_def resolve_within_vault_Some_iff)
  have "\<exists>s1. cold_file W base p rel s = (s1, Inr ()) \<and> x_cache s1 = x_cache s"
  proof (cases "cache_mtime (x_cache s) rel = Some t")
    case False
    then have "extracts W base p = None"
      using assms(4) [OF rel True] t by (auto simp: refreshed_def entry_of_def stat_mtime_def split: option.splits)
    with False t isolation_total [OF r, of p rel COLD_START_FAILED "x_metrics s"] show ?thesis
      by (auto simp: cold_file_def)
  qed (simp add: cold_file_def t)
  moreover have "\<not> (w_is_dir W p \<or> path_suffix p \<notin> OBSERVED_SUFFIXES)"
    using True suffix_relative [OF rel assms(3)] rel by (auto simp: admitted_def is_excluded_Inr_iff)
  ultimately show ?thesis
    using True rel u by (auto simp: cold_path_def admitted_def)
next
  case False
  from cold_path_cases [OF assms(1-3)] False have "u = None" by blast
  with assms(1) False show ?thesis
    by (auto simp: cold_path_def admitted_def split: if_splits sum.splits bool.splits option.splits prod.splits)
qed

lemma cold_walk_stable:
  assumes "cold_walk W base nested ps obs st = (st1, Inr obs1)"
    and "\<forall>p \<in> set ps. is_relative_to p base \<and> p \<noteq> base"
    and "\<And>p rel. p \<in> set ps \<Longrightarrow> relative_to p base = Inr rel \<Longrightarrow> admitted W base nested p \<Longrightarrow>
      refreshed W base p (entry_of (x_cache s) rel) = entry_of (x_cache s) rel"
  shows "\<exists>s1. cold_walk W base nested ps obs s = (s1, Inr obs1) \<and> x_cache s1 = x_cache s"
  using assms
proof (induction ps arbitrary: obs st s)
  case (Cons p ps)
  obtain st2 u where one: "cold_path W base nested p st = (st2, Inr u)"
    using Cons.prems(1) by (auto split: prod.splits sum.splits)
  obtain s2 where two: "cold_path W base nested p s = (s2, Inr u)" "x_cache s2 = x_cache s"
    using cold_path_stable [OF one, of s] Cons.prems(2,3) by auto
  have rest: "\<exists>s1. cold_walk W base nested ps obs' s2 = (s1, Inr obs1) \<and> x_cache s1 = x_cache s2"
    if "cold_walk W base nested ps obs' st2 = (st1, Inr obs1)" for obs'
    using Cons.IH [OF that, of s2] Cons.prems(2,3) two(2) by auto
  with Cons.prems(1) one two show ?case by (cases u) auto
qed simp

lemma refreshed_idem: "refreshed W base p (refreshed W base p e) = refreshed W base p e"
  by (simp add: refreshed_def split: option.split)

lemma drop_nothing:
  assumes "set (keys (cache_entries c)) \<subseteq> set obs"
  shows "drop_unobserved obs c = c"
proof -
  have "set ks \<subseteq> set obs \<Longrightarrow> fold (\<lambda>p c. if p \<notin> set obs then cache_delete p c else c) ks c = c" for ks
    by (induction ks) auto
  with assms show ?thesis by (simp add: drop_unobserved_def)
qed

section \<open>Properties\<close>

lemma cold_start_parts:
  assumes "cold_start L W base nested (st, h) = ((st', h'), Inr snap)"
  obtains st1 obs g where "cold_walk W base nested (w_rglob W base) [] st = (st1, Inr obs)"
    "x_cache st' = drop_unobserved obs (x_cache st1)" "build_graph L (x_cache st') = Inr g"
    "publish L g [] h = (snap, h')"
  using assms by (auto simp: cold_start_def Let_def split: prod.splits sum.splits)

lemma cold_start_entries:
  assumes "rglob_ok W base" "cache_inv (x_cache st)" "path_ok q"
    and "cold_walk W base nested (w_rglob W base) [] st = (st1, Inr obs)"
  shows "entry_of (drop_unobserved obs (x_cache st1)) q =
      (if \<exists>p \<in> set (w_rglob W base). relative_to p base = Inr q \<and> admitted W base nested p
       then refreshed W base (path_join base q) (entry_of (x_cache st) q) else (None, None))
    \<and> set obs = {rel. \<exists>p \<in> set (w_rglob W base). relative_to p base = Inr rel \<and> admitted W base nested p}
    \<and> cache_inv (drop_unobserved obs (x_cache st1))"
proof -
  have ps: "\<forall>p \<in> set (w_rglob W base). path_ok p \<and> is_relative_to p base \<and> p \<noteq> base"
    and d: "distinct (w_rglob W base)" using assms(1) by (auto simp: rglob_ok_def)
  then have inv: "cache_inv (x_cache st1)" using cold_walk_inv [OF assms(4) _ assms(2)] by blast
  from cold_walk_entry [OF assms(4) d ps assms(3)] drop_entry [OF inv assms(3), of obs] drop_inv [OF inv, of obs]
  show ?thesis by auto
qed

text \<open>C10. Cold start reconciles: whatever the persisted cache held, afterwards every admitted file of the
  vault has its refreshed entry (kept when its modification time is the recorded one or when its
  extraction fails, and the newly extracted result with the new time otherwise), no other path has
  an entry, and a snapshot is published, so the daemon is ready.\<close>

theorem cold_start_reconciles:
  assumes "rglob_ok W base" "cache_inv (x_cache st)" "path_ok q"
    and "cold_start L W base nested (st, h) = ((st', h'), Inr snap)"
  shows "entry_of (x_cache st') q =
      (if \<exists>p \<in> set (w_rglob W base). relative_to p base = Inr q \<and> admitted W base nested p
       then refreshed W base (path_join base q) (entry_of (x_cache st) q) else (None, None))
    \<and> current h' = Some snap \<and> ready (health_check h')"
proof -
  from cold_start_parts [OF assms(4)] obtain st1 obs g
    where p: "cold_walk W base nested (w_rglob W base) [] st = (st1, Inr obs)"
      "x_cache st' = drop_unobserved obs (x_cache st1)" "publish L g [] h = (snap, h')" by metis
  from cold_start_entries [OF assms(1-3) p(1)] p(2) publish_fields(1) [OF p(3)]
  show ?thesis by (simp add: health_check_def)
qed

lemma sample_rglob_ok: "rglob_ok sample_world sample_root"
proof -
  have "distinct (w_rglob sample_world sample_root)" by code_simp
  moreover have "list_all (\<lambda>p. path_ok p \<and> is_relative_to p sample_root \<and> p \<noteq> sample_root) (w_rglob sample_world sample_root)"
    by code_simp
  ultimately show ?thesis unfolding rglob_ok_def list_all_iff by blast
qed

lemma sample_cache_inv: "cache_inv (x_cache sample_state)"
proof -
  have "path_ok (PyPath [] [pstr ''a.md''])" "path_ok (PyPath [] [pstr ''bad.md''])" by code_simp+
  moreover have "cache_inv empty_cache"
    by (simp add: cache_inv_def canonical_keys_def) (simp add: empty_cache_def)
  ultimately show ?thesis by (simp add: sample_state_def cache_inv_set)
qed

lemma sample_cold_start:
  "\<exists>st' h' snap. cold_start sample_lib sample_world sample_root {} (sample_state, new_holder) = ((st', h'), Inr snap)"
proof -
  have "case snd (cold_start sample_lib sample_world sample_root {} (sample_state, new_holder)) of Inr s \<Rightarrow> True | Inl e \<Rightarrow> False"
    by code_simp
  then show ?thesis
    by (cases "cold_start sample_lib sample_world sample_root {} (sample_state, new_holder)")
      (auto split: sum.splits)
qed

theorem cold_start_reconciles_witness:
  "\<exists>st' h' snap. cold_start sample_lib sample_world sample_root {} (sample_state, new_holder) = ((st', h'), Inr snap)
     \<and> cache_get (x_cache st') (PyPath [] [pstr ''link.md'']) = None"
proof -
  obtain st' h' snap where r: "cold_start sample_lib sample_world sample_root {} (sample_state, new_holder)
      = ((st', h'), Inr snap)"
    using sample_cold_start by blast
  have q: "path_ok (PyPath [] [pstr ''link.md''])" by code_simp
  have "list_all (\<lambda>p. relative_to p sample_root = Inr (PyPath [] [pstr ''link.md'']) \<longrightarrow>
      resolve_within_vault sample_world p sample_root = Inr None) (w_rglob sample_world sample_root)"
    by code_simp
  then have "\<not> (\<exists>p \<in> set (w_rglob sample_world sample_root).
      relative_to p sample_root = Inr (PyPath [] [pstr ''link.md'']) \<and> admitted sample_world sample_root {} p)"
    by (auto simp: list_all_iff admitted_def)
  with cold_start_reconciles [OF sample_rglob_ok sample_cache_inv q r] r show ?thesis
    by (simp add: entry_of_def)
qed

text \<open>Restarting on an unchanged vault is idempotent: a second cold start on the reconciled cache
  returns, leaves the cache as it is, entry by entry, and publishes the same graph under the next version.\<close>

theorem cold_start_idempotent:
  assumes "rglob_ok W base" "cache_inv (x_cache st)"
    and "cold_start L W base nested (st, h) = ((st', h'), Inr snap)"
  shows "\<exists>st'' h'' snap'. cold_start L W base nested (st', h') = ((st'', h''), Inr snap')
    \<and> x_cache st'' = x_cache st' \<and> graph snap' = graph snap \<and> version snap' = version snap + 1"
proof -
  from cold_start_parts [OF assms(3)] obtain st1 obs g
    where p: "cold_walk W base nested (w_rglob W base) [] st = (st1, Inr obs)"
      "x_cache st' = drop_unobserved obs (x_cache st1)" "build_graph L (x_cache st') = Inr g"
      "publish L g [] h = (snap, h')" by metis
  have ps: "\<forall>p \<in> set (w_rglob W base). is_relative_to p base \<and> p \<noteq> base \<and> path_ok p"
    using assms(1) by (auto simp: rglob_ok_def)
  have stable: "refreshed W base p (entry_of (x_cache st') rel) = entry_of (x_cache st') rel"
    if "p \<in> set (w_rglob W base)" "relative_to p base = Inr rel" "admitted W base nested p" for p rel
  proof -
    have "path_ok rel" using that(1,2) ps path_ok_relative_to by blast
    moreover have "path_join base rel = p" using that(2) by (simp add: relative_to_Inr_iff)
    ultimately show ?thesis
      using cold_start_entries [OF assms(1,2) _ p(1), of rel] that p(2) by (auto simp: refreshed_idem)
  qed
  have "\<exists>s1. cold_walk W base nested (w_rglob W base) [] st' = (s1, Inr obs) \<and> x_cache s1 = x_cache st'"
    using cold_walk_stable [OF p(1), of st'] ps stable by blast
  then obtain s1 where s1: "cold_walk W base nested (w_rglob W base) [] st' = (s1, Inr obs)" "x_cache s1 = x_cache st'"
    by blast
  have inv: "cache_inv (x_cache st')"
    using cold_start_entries [OF assms(1,2) _ p(1), of "PyPath [] []"] p(2) by (simp add: path_ok_def)
  have "set (keys (cache_entries (x_cache st'))) \<subseteq> set obs"
  proof
    fix q
    assume q: "q \<in> set (keys (cache_entries (x_cache st')))"
    then have ok: "path_ok q" using cached_paths(1) [OF inv] by blast
    with q have "cache_get (x_cache st') q \<noteq> None" using cached_paths(2) [OF inv] by blast
    with cold_start_entries [OF assms(1,2) ok p(1)] p(2) show "q \<in> set obs"
      by (auto simp: entry_of_def split: if_splits)
  qed
  then have drop: "drop_unobserved obs (x_cache s1) = x_cache st'" using s1(2) by (simp add: drop_nothing)
  obtain snap' h'' where pub: "publish L g [] h' = (snap', h'')" by (cases "publish L g [] h'")
  have "graph snap' = graph snap" "version snap' = version snap + 1"
    using publish_fields [OF p(4)] publish_fields [OF pub] by auto
  with s1 drop p(3) pub show ?thesis by (simp add: cold_start_def Let_def)
qed

theorem cold_start_idempotent_witness:
  "\<exists>st' h' snap st'' h'' snap'. cold_start sample_lib sample_world sample_root {} (sample_state, new_holder) = ((st', h'), Inr snap)
     \<and> cold_start sample_lib sample_world sample_root {} (st', h') = ((st'', h''), Inr snap') \<and> x_cache st'' = x_cache st'"
proof -
  obtain st' h' snap where r: "cold_start sample_lib sample_world sample_root {} (sample_state, new_holder)
      = ((st', h'), Inr snap)"
    using sample_cold_start by blast
  from cold_start_idempotent [OF sample_rglob_ok sample_cache_inv r] r show ?thesis by blast
qed

definition dangling_world :: world where
  "dangling_world = sample_world\<lparr>w_rglob := (\<lambda>p. [vault_file ''a.md'', vault_file ''gone.md''])\<rparr>"

text \<open>One dangling symlink stops the daemon from starting: it is listed by the walk, resolves
  inside the vault, and the unguarded \<open>path.stat()\<close> then raises out of \<open>cold_start\<close> before anything
  is published, although the watcher and \<open>extract_batch\<close> tolerate the same file.\<close>

theorem cold_start_aborts_on_vanished_file:
  "\<exists>st'. cold_start sample_lib dangling_world sample_root {} (sample_state, new_holder)
      = ((st', new_holder), Inl (Exn FileNotFoundError []))"
proof -
  have "case cold_start sample_lib dangling_world sample_root {} (sample_state, new_holder) of
      ((st', h'), r) \<Rightarrow> h' = new_holder \<and> r = Inl (Exn FileNotFoundError [])"
    by code_simp
  then show ?thesis
    by (cases "cold_start sample_lib dangling_world sample_root {} (sample_state, new_holder)") auto
qed

end
