(* ===== verification/Vault_Index.thy ===== *)
theory Vault_Index
  imports Cold_Start
begin

text \<open>
  \<open>artifact_lifecycle/vault_index.py\<close>: the \<open>files\<close> table of \<open>vault_index.db\<close>. A connection is the
  committed table; \<open>with conn:\<close> commits when its body returns and rolls back when it raises.
  Binding a text parameter encodes it as UTF-8, and a closed connection raises.
\<close>

definition MIN_BUSY_TIMEOUT_MS :: int where
  "MIN_BUSY_TIMEOUT_MS = 5000"

record file_row =
  row_mtime :: real
  row_size :: int
  node_count :: nat
  edge_count :: nat

type_synonym rows = "(pystr, file_row) dict"

record connection =
  files_table :: "rows option"          \<comment> \<open>\<open>None\<close> before the table is created\<close>
  busy_timeout :: int
  conn_open :: bool

section \<open>Opening\<close>

text \<open>
  Opening the database creates the file when it is missing; what an existing one holds is \<open>stored\<close>. SQLite reports whatever
  keeps it from opening the file by an error of its own.
\<close>

definition unable_to_open :: exn where
  "unable_to_open = Exn OtherException (pstr ''unable to open database file'')"

definition connect :: "pypath \<Rightarrow> rows option \<Rightarrow> disk \<Rightarrow> disk \<times> connection res" where
  "connect db_path stored d =
     (case mkdir_restricted (path_parent db_path) d of
        (d2, Inl e) \<Rightarrow> (d2, Inl e)
      | (d2, Inr u) \<Rightarrow>
          (case write_file db_path SqliteFile d2 of
             Inl e \<Rightarrow> (d2, Inl unable_to_open)
           | Inr d3 \<Rightarrow>
               (case restrict_to_owner db_path d3 of
                  Inl e \<Rightarrow> (d3, Inl e)
                | Inr d4 \<Rightarrow>
                    (d4, Inr \<lparr>files_table = stored, busy_timeout = MIN_BUSY_TIMEOUT_MS, conn_open = True\<rparr>))))"

lemma connect_cases:
  assumes "connect p stored d = (d', r)" "mkdir_restricted (path_parent p) d = (d2, v)"
  obtains (mkdir) e where "v = Inl e" "d' = d" "r = Inl e"
    | (dir) "v = Inr ()" "d' = d2" "r = Inl unable_to_open" "p \<in> set (d_dirs d2)"
    | (fine) d3 c where "v = Inr ()" "write_file p SqliteFile d2 = Inr d3" "restrict_to_owner p d3 = Inr d'" "r = Inr c"
proof (cases v)
  case (Inl e)
  with mkdir assms(1) mkdir_restricted_outcome(2) [OF assms(2) Inl] show thesis by (simp add: connect_def assms(2))
next
  case (Inr u)
  then have "v = Inr ()" by simp
  then have par: "path_parent p \<in> set (d_dirs d2)" using mkdir_restricted_outcome(3) [OF assms(2)] path_in_ancestors by auto
  show thesis
  proof (cases "write_file p SqliteFile d2")
    case (Inl e)
    with par have "p \<in> set (d_dirs d2)" by (auto simp: write_file_def split: if_splits)
    with dir assms(1) Inr Inl show thesis by (simp add: connect_def assms(2))
  next
    case (Inr d3)
    have "d_exists d3 p" using Inr by (auto simp: write_file_def d_exists_def dict_simps split: if_splits)
    then obtain d4 where "restrict_to_owner p d3 = Inr d4" using restrict_Inr by blast
    with fine assms(1) \<open>v = Inr ()\<close> Inr show thesis by (auto simp: connect_def assms(2))
  qed
qed

text \<open>Opening fails exactly if a file is in the way of the directory, or a directory in that of the database.\<close>

lemma connect_outcome:
  assumes "connect p stored d = (d', r)" "path_parts p \<noteq> []"
  shows "case r of
      Inr c \<Rightarrow> (\<forall>a \<in> set (path_ancestors (path_parent p)). a \<notin> set (keys (d_files d))) \<and> p \<notin> set (d_dirs d)
        \<and> owner_only d' (path_parent p) \<and> owner_only d' p \<and> p \<in> set (keys (d_files d'))
        \<and> (\<forall>q. q \<notin> set (path_ancestors (path_parent p)) \<longrightarrow> owner_only d q \<longrightarrow> owner_only d' q)
    | Inl e \<Rightarrow> d_files d' = d_files d \<and>
        (d' = d \<and> kind_of e = (if path_parent p \<in> set (keys (d_files d)) then FileExistsError else NotADirectoryError)
           \<and> (\<exists>a \<in> set (path_ancestors (path_parent p)). a \<in> set (keys (d_files d)))
         \<or> e = unable_to_open \<and> p \<in> set (d_dirs d))"
    and "\<And>q. q \<noteq> p \<Longrightarrow> map_of (d_files d') q = map_of (d_files d) q"
    and "set (d_dirs d') \<subseteq> set (path_ancestors (path_parent p)) \<union> set (d_dirs d)" "set (d_dirs d) \<subseteq> set (d_dirs d')"
proof -
  let ?q = "path_parent p"
  obtain d2 v where m: "mkdir_restricted ?q d = (d2, v)" by (cases "mkdir_restricted ?q d")
  note o = mkdir_restricted_outcome [OF m] and cases = connect_cases [OF assms(1) m, case_names mkdir dir fine]
  have np: "p \<notin> set (path_ancestors ?q)" using child_not_ancestor [OF assms(2)] .
  have in_way: "(\<exists>a \<in> set (path_ancestors ?q). a \<in> set (keys (d_files d)))" if "v = Inl e" for e
    using o(1) that by auto
  have dd: "v = Inr () \<Longrightarrow> p \<in> set (d_dirs d2) \<longleftrightarrow> p \<in> set (d_dirs d)" using o(3) np by auto
  show "case r of
      Inr c \<Rightarrow> (\<forall>a \<in> set (path_ancestors ?q). a \<notin> set (keys (d_files d))) \<and> p \<notin> set (d_dirs d)
        \<and> owner_only d' ?q \<and> owner_only d' p \<and> p \<in> set (keys (d_files d'))
        \<and> (\<forall>q. q \<notin> set (path_ancestors ?q) \<longrightarrow> owner_only d q \<longrightarrow> owner_only d' q)
    | Inl e \<Rightarrow> d_files d' = d_files d \<and>
        (d' = d \<and> kind_of e = (if ?q \<in> set (keys (d_files d)) then FileExistsError else NotADirectoryError)
           \<and> (\<exists>a \<in> set (path_ancestors ?q). a \<in> set (keys (d_files d)))
         \<or> e = unable_to_open \<and> p \<in> set (d_dirs d))"
  proof (cases rule: cases)
    case (mkdir e)
    with o(2) in_way show ?thesis by simp
  next
    case dir
    with o(4) dd show ?thesis by simp
  next
    case (fine d3 c)
    have w: "p \<notin> set (d_dirs d2)" "p \<in> set (keys (d_files d3))" using fine(2) by (auto simp: write_file_def dict_simps split: if_splits)
    have keep: "owner_only d2 q \<Longrightarrow> q \<noteq> p \<Longrightarrow> owner_only d' q" for q
      using write_file_other [OF fine(2)] restrict_keeps [OF fine(3)] by blast
    have "?q \<noteq> p" using np path_in_ancestors [of ?q] by metis
    with keep o(3) fine(1) have "owner_only d' ?q" by blast
    moreover have "owner_only d' p" using restrict_owner_only [OF fine(3)] .
    moreover have "owner_only d' q" if "q \<notin> set (path_ancestors ?q)" "owner_only d q" for q
      using that keep [of q] o(3) fine(1) restrict_owner_only [OF fine(3)] by (cases "q = p") auto
    ultimately show ?thesis using w o(1) fine(1,4) dd restrict_frames(1) [OF fine(3)] by auto
  qed
  show "map_of (d_files d') q = map_of (d_files d) q" if "q \<noteq> p" for q
    using that o(4) by (cases rule: cases) (auto simp: write_file_def restrict_frames(1) dict_simps split: if_splits)
  show "set (d_dirs d') \<subseteq> set (path_ancestors ?q) \<union> set (d_dirs d)" "set (d_dirs d) \<subseteq> set (d_dirs d')"
    using o(3) by (cases rule: cases; auto simp: write_file_def restrict_frames(2) split: if_splits)+
qed

definition closed_error :: exn where
  "closed_error = Exn ProgrammingError (pstr ''Cannot operate on a closed database.'')"

definition no_table_error :: exn where
  "no_table_error = Exn OtherException (pstr ''no such table: files'')"

text \<open>\<open>with conn: body\<close> on the table.\<close>

definition with_conn :: "(rows option \<Rightarrow> rows option res) \<Rightarrow> connection \<Rightarrow> connection \<times> unit res" where
  "with_conn body c =
     (if \<not> conn_open c then (c, Inl closed_error)
      else case body (files_table c) of
             Inl e \<Rightarrow> (c, Inl e)
           | Inr t \<Rightarrow> (c\<lparr>files_table := t\<rparr>, Inr ()))"

definition init_schema :: "connection \<Rightarrow> connection \<times> unit res" where
  "init_schema = with_conn (\<lambda>t. Inr (Some (case t of None \<Rightarrow> [] | Some rs \<Rightarrow> rs)))"

definition close_conn :: "connection \<Rightarrow> connection" where
  "close_conn c = c\<lparr>conn_open := False\<rparr>"

section \<open>sync_batch\<close>

definition bind_text :: "pystr \<Rightarrow> pystr res" where
  "bind_text s = bindR (utf8_encode s) (\<lambda>b. Inr s)"

lemma bind_text_code [code]:
  "bind_text s = (if list_all scalar_value s then Inr s else Inl (Exn UnicodeError (pstr ''surrogates not allowed'')))"
  by (simp add: bind_text_def utf8_encode_def)

lemma bind_text_pstr: "bind_text (pstr s) = Inr (pstr s)"
proof -
  have "scalar_value (of_char c)" for c
    using nat_of_char_less_256 [of c] unfolding scalar_value_def by linarith
  then show ?thesis by (simp add: bind_text_code pstr_def list_all_iff)
qed

definition delete_row :: "pystr \<Rightarrow> rows \<Rightarrow> rows res" where
  "delete_row key rs = bindR (bind_text key) (\<lambda>k. Inr (AList.delete k rs))"

definition upsert_row :: "pystr \<Rightarrow> file_row \<Rightarrow> rows \<Rightarrow> rows res" where
  "upsert_row key r rs = bindR (bind_text key) (\<lambda>k. Inr (AList.update k r rs))"

text \<open>\<open>len(result["nodes"]) if result else 0\<close>.\<close>

definition item_count :: "string \<Rightarrow> pyobj option \<Rightarrow> nat res" where
  "item_count key result =
     (case result of
        None \<Rightarrow> Inr 0
      | Some r \<Rightarrow> if r = [] then Inr 0 else bindR (dict_index r id (pstr key)) py_len)"

definition stat_or_zero :: "world \<Rightarrow> pypath \<Rightarrow> (real \<times> int) res" where
  "stat_or_zero W path =
     (case w_stat W path of
        Inl e \<Rightarrow> if kind_of e = FileNotFoundError then Inr (0, 0) else Inl e
      | Inr ms \<Rightarrow> Inr ms)"

definition index_file ::
  "world \<Rightarrow> extraction_cache \<Rightarrow> pypath \<Rightarrow> pypath \<Rightarrow> rows \<Rightarrow> rows res" where
  "index_file W cache path relative rs =
     (let result = cache_get cache relative in
      bindR (item_count ''nodes'' result) (\<lambda>nc.
      bindR (item_count ''edges'' result) (\<lambda>ec.
      bindR (stat_or_zero W path) (\<lambda>(mt, sz).
        upsert_row (path_str relative) \<lparr>row_mtime = mt, row_size = sz, node_count = nc, edge_count = ec\<rparr> rs))))"

definition sync_change ::
  "world \<Rightarrow> pypath \<Rightarrow> pystr set \<Rightarrow> extraction_cache \<Rightarrow> file_change \<Rightarrow> rows \<Rightarrow> rows res" where
  "sync_change W base nested cache change rs =
     bindR (relative_to (change_path change) base) (\<lambda>relative.
       case change_of change of
         DELETED \<Rightarrow> delete_row (path_str relative) rs
       | RENAMED \<Rightarrow>
           (case previous_path change of
              None \<Rightarrow> Inl (Exn AssertionError [])
            | Some prev \<Rightarrow>
                bindR (relative_to prev base) (\<lambda>previous.
                bindR (delete_row (path_str previous) rs) (\<lambda>rs1.
                bindR (is_excluded (change_path change) base nested) (\<lambda>excluded.
                  if excluded then Inr rs1 else index_file W cache (change_path change) relative rs1))))
       | _ \<Rightarrow> index_file W cache (change_path change) relative rs)"

fun sync_changes ::
  "world \<Rightarrow> pypath \<Rightarrow> pystr set \<Rightarrow> extraction_cache \<Rightarrow> file_change list \<Rightarrow> rows \<Rightarrow> rows res" where
  "sync_changes W base nested cache [] rs = Inr rs"
| "sync_changes W base nested cache (c # cs) rs =
     bindR (sync_change W base nested cache c rs) (sync_changes W base nested cache cs)"

text \<open>Any statement fails while there is no table.\<close>

definition sync_batch ::
  "world \<Rightarrow> batch \<Rightarrow> pypath \<Rightarrow> pystr set \<Rightarrow> extraction_cache \<Rightarrow> connection \<Rightarrow> connection \<times> unit res" where
  "sync_batch W b base nested cache =
     with_conn (\<lambda>t. case t of
         None \<Rightarrow> if changes b = [] then Inr None else Inl no_table_error
       | Some rs \<Rightarrow> bindR (sync_changes W base nested cache (changes b) rs) (\<lambda>rs'. Inr (Some rs')))"

section \<open>The table as a keyed store\<close>

interpretation row_store: kv_store map_of AList.update AList.delete id dict_ok
  by unfold_locales (simp_all add: dict_simps)

definition row_of :: "world \<Rightarrow> extraction_cache \<Rightarrow> pypath \<Rightarrow> pypath \<Rightarrow> file_row res" where
  "row_of W cache path relative =
     bindR (item_count ''nodes'' (cache_get cache relative)) (\<lambda>nc.
     bindR (item_count ''edges'' (cache_get cache relative)) (\<lambda>ec.
     bindR (stat_or_zero W path) (\<lambda>(mt, sz).
       Inr \<lparr>row_mtime = mt, row_size = sz, node_count = nc, edge_count = ec\<rparr>)))"

text \<open>The writes of one change; what cannot be computed is no write.\<close>

definition row_put :: "world \<Rightarrow> pypath \<Rightarrow> extraction_cache \<Rightarrow> pypath \<Rightarrow> (pystr, file_row) store_op list" where
  "row_put W base cache path =
     (case relative_to path base of
        Inl e \<Rightarrow> []
      | Inr rel \<Rightarrow> (case row_of W cache path rel of Inl e \<Rightarrow> [] | Inr r \<Rightarrow> [Put (path_str rel) r]))"

definition row_ops ::
  "world \<Rightarrow> pypath \<Rightarrow> pystr set \<Rightarrow> extraction_cache \<Rightarrow> file_change \<Rightarrow> (pystr, file_row) store_op list" where
  "row_ops W base nested cache c =
     (case change_of c of
        DELETED \<Rightarrow> [Del (rel_key base (change_path c))]
      | RENAMED \<Rightarrow> map (\<lambda>p. Del (rel_key base p)) (case previous_path c of None \<Rightarrow> [] | Some p \<Rightarrow> [p])
      | _ \<Rightarrow> [])
     @ (if to_extract base nested c then row_put W base cache (change_path c) else [])"

lemma index_file_ops:
  assumes "index_file W cache path rel rs = Inr rs'" "relative_to path base = Inr rel"
  shows "rs' = apply_ops AList.update AList.delete (row_put W base cache path) rs"
    and "\<exists>r. row_of W cache path rel = Inr r \<and> row_put W base cache path = [Put (path_str rel) r]"
  using assms
  by (auto simp: index_file_def row_put_def row_of_def upsert_row_def bind_text_def bindR_Inr_iff Let_def)

lemma sync_change_ops:
  assumes "sync_change W base nested cache c rs = Inr rs'"
  shows "rs' = apply_ops AList.update AList.delete (row_ops W base nested cache c) rs"
  using assms
  by (auto simp: sync_change_def row_ops_def to_extract_def rel_key_def delete_row_def bind_text_def
      bindR_Inr_iff index_file_ops(1) split: change_kind.splits option.splits if_splits)

lemma sync_changes_ops:
  "sync_changes W base nested cache cs rs = Inr rs' \<Longrightarrow>
     rs' = apply_ops AList.update AList.delete (concat (map (row_ops W base nested cache) cs)) rs"
  by (induction cs arbitrary: rs) (auto simp: bindR_Inr_iff dest: sync_change_ops)

section \<open>Index and cache agree\<close>

text \<open>The keys a change deletes first, from the cache and from the table alike.\<close>

definition deleted_keys :: "pypath \<Rightarrow> file_change \<Rightarrow> pystr list" where
  "deleted_keys base c =
     (case change_of c of
        DELETED \<Rightarrow> [rel_key base (change_path c)]
      | RENAMED \<Rightarrow> map (rel_key base) (case previous_path c of None \<Rightarrow> [] | Some p \<Rightarrow> [p])
      | _ \<Rightarrow> [])"

lemma change_ops_deleted:
  "change_ops W base nested c = map Del (deleted_keys base c)
     @ (if to_extract base nested c then extracted_ops W base (change_path c) else [])"
  by (auto simp: change_ops_def deleted_keys_def split: change_kind.split option.split)

lemma row_ops_deleted:
  "row_ops W base nested cache c = map Del (deleted_keys base c)
     @ (if to_extract base nested c then row_put W base cache (change_path c) else [])"
  by (auto simp: row_ops_def deleted_keys_def split: change_kind.split option.split)

lemma last_write_Dels: "last_write (map Del ks) k = (if k \<in> set ks then Some None else None)"
  by (induction ks) auto

lemma row_ops_vs_cache:
  assumes "sync_change W base nested cache c rs = Inr rs'"
  shows "last_write (row_ops W base nested cache c) k = Some None \<Longrightarrow> last_write (change_ops W base nested c) k = Some None"
    and "last_write (row_ops W base nested cache c) k = None \<Longrightarrow> last_write (change_ops W base nested c) k = None"
    and "last_write (row_ops W base nested cache c) k = Some (Some r) \<Longrightarrow>
      \<exists>path rel. relative_to path base = Inr rel \<and> path_str rel = k \<and> row_of W cache path rel = Inr r"
proof -
  obtain rel where rel: "relative_to (change_path c) base = Inr rel"
    using assms by (auto simp: sync_change_def bindR_Inr_iff)
  then have key: "rel_key base (change_path c) = path_str rel" by (simp add: rel_key_def)
  have put: "\<exists>r. row_of W cache (change_path c) rel = Inr r \<and> row_put W base cache (change_path c) = [Put (path_str rel) r]"
    if "to_extract base nested c"
    using assms rel that index_file_ops(2) [OF _ rel]
    by (auto simp: sync_change_def to_extract_def bindR_Inr_iff split: change_kind.splits option.splits if_splits)
  let ?D = "k \<in> set (deleted_keys base c)" and ?R = "last_write (row_ops W base nested cache c) k"
  have cache: "last_write (change_ops W base nested c) k = (if ?D then Some None else None)"
    if "\<not> (to_extract base nested c \<and> k = path_str rel)"
    using that key by (auto simp: change_ops_deleted extracted_ops_def last_write_append last_write_Dels split: option.split)
  have row: "?R = (if to_extract base nested c \<and> k = path_str rel
      then (case row_of W cache (change_path c) rel of Inr r \<Rightarrow> Some (Some r)) else if ?D then Some None else None)"
    using put by (auto simp: row_ops_deleted last_write_append last_write_Dels)
  show "?R = Some None \<Longrightarrow> last_write (change_ops W base nested c) k = Some None"
    "?R = None \<Longrightarrow> last_write (change_ops W base nested c) k = None"
    using row cache put by (auto split: if_splits)
  show "\<exists>path rel. relative_to path base = Inr rel \<and> path_str rel = k \<and> row_of W cache path rel = Inr r"
    if "?R = Some (Some r)"
  proof -
    from that row have "to_extract base nested c" "k = path_str rel" by (auto split: if_splits)
    with that row put have "row_of W cache (change_path c) rel = Inr r" by auto
    with rel \<open>k = path_str rel\<close> show ?thesis by blast
  qed
qed

lemma sync_changes_vs_cache:
  assumes "sync_changes W base nested cache cs rs = Inr rs'"
  shows "(last_write (concat (map (row_ops W base nested cache) cs)) k = Some None \<longrightarrow>
        last_write (concat (map (change_ops W base nested) cs)) k = Some None)
    \<and> (last_write (concat (map (row_ops W base nested cache) cs)) k = None \<longrightarrow>
        last_write (concat (map (change_ops W base nested) cs)) k = None)
    \<and> (\<forall>r. last_write (concat (map (row_ops W base nested cache) cs)) k = Some (Some r) \<longrightarrow>
        (\<exists>path rel. relative_to path base = Inr rel \<and> path_str rel = k \<and> row_of W cache path rel = Inr r))"
  using assms
proof (induction cs arbitrary: rs)
  case (Cons c cs)
  from Cons.prems obtain rs1 where one: "sync_change W base nested cache c rs = Inr rs1"
    and rest: "sync_changes W base nested cache cs rs1 = Inr rs'" by (auto simp: bindR_Inr_iff)
  show ?case
    using Cons.IH [OF rest] row_ops_vs_cache [OF one, of k]
    by (auto simp: last_write_append split: option.splits)
qed simp

section \<open>Properties\<close>

text \<open>C14. The index follows the cache: after a batch has been extracted and then synchronised, every
  file the batch touched that has an entry in the cache has a row, with the numbers of nodes and
  edges of that entry, and every file the batch deleted last has neither row nor entry. Files it did
  not touch keep their row.\<close>

theorem index_follows_cache:
  assumes "dict_ok rs" "cache_ok (x_cache st)" "extract_batch W base nested b st = (st', Inr res)"
    and "sync_changes W base nested (x_cache st') (changes b) rs = Inr rs'"
    and "ops = concat (map (row_ops W base nested (x_cache st')) (changes b))"
  shows "map_of rs' k =
    (case last_write ops k of
       None \<Rightarrow> map_of rs k
     | Some None \<Rightarrow> None
     | Some (Some r) \<Rightarrow> Some r)
    \<and> (k \<in> op_key ` set ops \<longrightarrow> map_of rs' k = None \<longrightarrow> map_of (entries (x_cache st')) k = None)
    \<and> (k \<in> op_key ` set ops \<longrightarrow> (\<forall>r. map_of rs' k = Some r \<longrightarrow> (\<exists>path rel. relative_to path base = Inr rel
         \<and> path_str rel = k \<and> row_of W (x_cache st') path rel = Inr r)))"
proof -
  have "rs' = apply_ops AList.update AList.delete ops rs"
    using sync_changes_ops [OF assms(4)] assms(5) by simp
  then have rs': "map_of rs' k = (case last_write ops k of None \<Rightarrow> map_of rs k | Some r \<Rightarrow> map_option id r)"
    using row_store.lookup_apply_ops [OF assms(1), of ops k] by simp
  have "x_cache st' = apply_ops cache_put cache_del (concat (map (change_ops W base nested) (changes b))) (x_cache st)"
    using assms(3) extract_changes_ops by (simp add: extract_batch_def)
  then have c': "map_of (entries (x_cache st')) k =
      (case last_write (concat (map (change_ops W base nested) (changes b))) k of
         None \<Rightarrow> map_of (entries (x_cache st)) k | Some r \<Rightarrow> map_option fst r)"
    using cache_store.lookup_apply_ops [OF assms(2)] by simp
  have touched: "k \<in> op_key ` set ops \<longleftrightarrow> last_write ops k \<noteq> None"
    using last_write_None_iff [of ops k] by auto
  show ?thesis
    using rs' c' touched sync_changes_vs_cache [OF assms(4), of k]
    unfolding assms(5) [symmetric]
    by (auto split: option.splits)
qed

definition index_batch :: batch where
  "index_batch = \<lparr>changes = [sample_change CREATED ''c.md'', sample_rename ''a.md'' ''b.md'']\<rparr>"

theorem index_follows_cache_witness:
  "\<exists>rs'. sync_changes sample_world sample_root {}
       (x_cache (fst (extract_batch sample_world sample_root {} index_batch sample_state))) (changes index_batch) [] = Inr rs'
     \<and> (\<exists>r. map_of rs' (pstr ''b.md'') = Some r \<and> node_count r = 1) \<and> map_of rs' (pstr ''a.md'') = None"
proof -
  let ?run = "extract_batch sample_world sample_root {} index_batch sample_state"
  let ?sync = "sync_changes sample_world sample_root {} (x_cache (fst ?run)) (changes index_batch) []"
  let ?ops = "concat (map (row_ops sample_world sample_root {} (x_cache (fst ?run))) (changes index_batch))"
  have c: "case snd ?run of Inr res \<Rightarrow> True | Inl e \<Rightarrow> False" by code_simp
  obtain st' res where r: "?run = (st', Inr res)" using c by (cases ?run) (auto split: sum.splits)
  have ok: "cache_ok (x_cache sample_state)" by (simp add: sample_state_def cache_ok_set)
  have c: "case ?sync of Inr rs' \<Rightarrow> True | Inl e \<Rightarrow> False" by code_simp
  then obtain rs' where s: "?sync = Inr rs'" by (cases ?sync) auto
  have o: "case last_write ?ops (pstr ''b.md'') of Some (Some x) \<Rightarrow> node_count x = 1 | _ \<Rightarrow> False"
    "last_write ?ops (pstr ''a.md'') = Some None"
    by code_simp+
  have e: "x_cache (fst ?run) = x_cache st'" using r by simp
  note f = index_follows_cache [OF _ ok r s [unfolded e] refl]
  obtain x where x: "last_write ?ops (pstr ''b.md'') = Some (Some x)" "node_count x = 1"
    using o(1) by (auto split: option.splits)
  from f [of "pstr ''b.md''"] f [of "pstr ''a.md''"] x o(2) s show ?thesis
    unfolding e by simp
qed

text \<open>C33. A batch reaches the index as a whole or not at all: when \<open>sync_batch\<close> raises, for whatever
  change of the batch, the committed table is what it was; when it returns, it is the old table
  after the writes of every change in order.\<close>

theorem sync_batch_atomic:
  assumes "sync_batch W b base nested cache c = (c', r)" "files_table c = Some rs"
  shows "(\<forall>e. r = Inl e \<longrightarrow> c' = c) \<and>
    (r = Inr () \<longrightarrow> conn_open c \<and> c' = c\<lparr>files_table :=
       Some (apply_ops AList.update AList.delete (concat (map (row_ops W base nested cache) (changes b))) rs)\<rparr>)"
  using assms
  by (auto simp: sync_batch_def with_conn_def bindR_Inr_iff dest: sync_changes_ops split: if_splits sum.splits)

text \<open>The second change of the batch has a name that is no valid UTF-8 (a lone surrogate in \<open>str\<close>).\<close>

definition surrogate_batch :: batch where
  "surrogate_batch =
     \<lparr>changes = [sample_change DELETED ''a.md'',
                 \<lparr>change_path = PyPath [slash] [pstr ''vault'', 56511 # pstr ''.md''], change_of = CREATED, previous_path = None\<rparr>]\<rparr>"

definition sample_conn :: connection where
  "sample_conn =
     \<lparr>files_table = Some [(pstr ''a.md'', \<lparr>row_mtime = 1, row_size = 2, node_count = 3, edge_count = 4\<rparr>)],
      busy_timeout = MIN_BUSY_TIMEOUT_MS, conn_open = True\<rparr>"

theorem sync_batch_atomic_witness:
  "\<exists>e. sync_batch sample_world surrogate_batch sample_root {} empty_cache sample_conn = (sample_conn, Inl e)
     \<and> kind_of e = UnicodeError"
proof -
  obtain c' r where run: "sync_batch sample_world surrogate_batch sample_root {} empty_cache sample_conn = (c', r)"
    by (cases "sync_batch sample_world surrogate_batch sample_root {} empty_cache sample_conn")
  have t: "files_table sample_conn = Some [(pstr ''a.md'', \<lparr>row_mtime = 1, row_size = 2, node_count = 3, edge_count = 4\<rparr>)]"
    by (simp add: sample_conn_def)
  have x: "path_str (PyPath [] [pstr ''a.md'']) = pstr ''a.md''" "path_str (PyPath [] [56511 # pstr ''.md'']) = 56511 # pstr ''.md''"
    by (simp_all add: path_str_def)
  have e: "bind_text (56511 # pstr ''.md'') = Inl (Exn UnicodeError (pstr ''surrogates not allowed''))"
    by (simp add: bind_text_code scalar_value_def)
  have "\<exists>e. snd (sync_batch sample_world surrogate_batch sample_root {} empty_cache sample_conn) = Inl e \<and> kind_of e = UnicodeError"
    by (simp add: sync_batch_def with_conn_def sample_conn_def surrogate_batch_def sample_change_def vault_file_def
        sync_change_def sample_root_def relative_to_def is_relative_to_def delete_row_def index_file_def cache_get_def
        empty_cache_def item_count_def stat_or_zero_def sample_world_def path_name_def upsert_row_def x bind_text_pstr e)
  with sync_batch_atomic [OF run t] run show ?thesis by (auto split: sum.splits)
qed

end
