(* ===== verification/Tools.thy ===== *)
theory Tools
  imports Snapshots
begin

text \<open>
  The tools of \<open>graph_query_api/tools.py\<close>: their definitions (name, description, input schema), the
  renderers, and \<open>execute_tool\<close>. A tool maps the arguments and one snapshot to a text or an
  exception; nothing else of the program is an input. Node identifiers are strings. The dispatch
  around it is in \<open>Dispatch\<close>.
\<close>

section \<open>Definitions of the tools\<close>

record tool =
  tool_name :: string
  tool_description :: string
  input_schema :: json

abbreviation jstr :: "string \<Rightarrow> json" where "jstr s \<equiv> JStr (pstr s)"

definition jobj :: "(string \<times> json) list \<Rightarrow> json" where
  "jobj kvs = JObj (map (\<lambda>(k, v). (pstr k, v)) kvs)"

definition bounded_int :: "int \<Rightarrow> int \<Rightarrow> int \<Rightarrow> string \<Rightarrow> json" where
  "bounded_int dflt lo hi descr =
     jobj [(''type'', jstr ''integer''), (''default'', JInt dflt), (''minimum'', JInt lo),
           (''maximum'', JInt hi), (''description'', jstr descr)]"

definition TOOL_DEFINITIONS :: "tool list" where
  "TOOL_DEFINITIONS =
    [\<lparr>tool_name = ''query_graph'',
      tool_description = ''Search the knowledge graph using BFS or DFS. Returns relevant nodes and edges as text context.'',
      input_schema = jobj [
        (''type'', jstr ''object''),
        (''properties'', jobj [
          (''question'', jobj [(''type'', jstr ''string''), (''description'', jstr ''Natural language question or keyword search'')]),
          (''mode'', jobj [(''type'', jstr ''string''), (''enum'', JArr [jstr ''bfs'', jstr ''dfs'']), (''default'', jstr ''bfs''),
             (''description'', jstr ''bfs=broad context, dfs=trace a specific path'')]),
          (''depth'', bounded_int 3 1 6 ''Traversal depth (1-6)''),
          (''token_budget'', bounded_int 2000 1 20000 ''Max output tokens''),
          (''context_filter'', jobj [(''type'', jstr ''array''), (''items'', jobj [(''type'', jstr ''string'')]), (''maxItems'', JInt 50),
             (''description'', JStr (pstr ''Optional explicit edge-context filter, e.g. ['' @ [39] @ pstr ''call'' @ [39] @ pstr '', ''
                @ [39] @ pstr ''field'' @ [39] @ pstr '']''))])]),
        (''required'', JArr [jstr ''question''])]\<rparr>,
     \<lparr>tool_name = ''get_node'',
      tool_description = ''Get full details for a specific node by label or ID.'',
      input_schema = jobj [
        (''type'', jstr ''object''),
        (''properties'', jobj [
          (''label'', jobj [(''type'', jstr ''string''), (''description'', jstr ''Node label or ID to look up'')])]),
        (''required'', JArr [jstr ''label''])]\<rparr>,
     \<lparr>tool_name = ''get_neighbors'',
      tool_description = ''Get all direct neighbors of a node with edge details.'',
      input_schema = jobj [
        (''type'', jstr ''object''),
        (''properties'', jobj [
          (''label'', jobj [(''type'', jstr ''string'')]),
          (''relation_filter'', jobj [(''type'', jstr ''string''), (''description'', jstr ''Optional: filter by relation type'')]),
          (''token_budget'', bounded_int 2000 1 20000 ''Max output tokens'')]),
        (''required'', JArr [jstr ''label''])]\<rparr>,
     \<lparr>tool_name = ''get_community'',
      tool_description = ''Get all nodes in a community by community ID.'',
      input_schema = jobj [
        (''type'', jstr ''object''),
        (''properties'', jobj [
          (''community_id'', jobj [(''type'', jstr ''integer''), (''minimum'', JInt 0),
             (''description'', jstr ''Community ID (0-indexed by size)'')]),
          (''token_budget'', bounded_int 2000 1 20000 ''Max output tokens'')]),
        (''required'', JArr [jstr ''community_id''])]\<rparr>,
     \<lparr>tool_name = ''god_nodes'',
      tool_description = ''Return the most connected nodes - the core abstractions of the knowledge graph.'',
      input_schema = jobj [
        (''type'', jstr ''object''),
        (''properties'', jobj [
          (''top_n'', jobj [(''type'', jstr ''integer''), (''default'', JInt 10), (''minimum'', JInt 1), (''maximum'', JInt 500)])])]\<rparr>,
     \<lparr>tool_name = ''graph_stats'',
      tool_description = ''Return summary statistics: node count, edge count, communities, confidence breakdown.'',
      input_schema = jobj [(''type'', jstr ''object''), (''properties'', jobj [])]\<rparr>,
     \<lparr>tool_name = ''shortest_path'',
      tool_description = ''Find the shortest path between two concepts in the knowledge graph. '' @
        ''Follows stored edge direction by default; set undirected=true to ignore it.'',
      input_schema = jobj [
        (''type'', jstr ''object''),
        (''properties'', jobj [
          (''source'', jobj [(''type'', jstr ''string''), (''description'', jstr ''Source concept label or keyword'')]),
          (''target'', jobj [(''type'', jstr ''string''), (''description'', jstr ''Target concept label or keyword'')]),
          (''max_hops'', bounded_int 8 1 50 ''Maximum hops to consider''),
          (''undirected'', jobj [(''type'', jstr ''boolean''), (''default'', JBool False),
             (''description'', jstr ''Ignore stored edge direction when searching'')])]),
        (''required'', JArr [jstr ''source'', jstr ''target''])]\<rparr>]"

section \<open>Rendering under a budget\<close>

definition cut_line_text :: "int \<Rightarrow> pystr \<Rightarrow> pystr \<Rightarrow> pystr" where
  "cut_line_text token_budget narrow_hint kept =
     pstr ''[!] TRUNCATED: this line exceeds the ~'' @ py_str_int token_budget
       @ pstr ''-token budget on its own. '' @ narrow_hint @ [newline, newline] @ kept"

definition cut_lines_text :: "nat \<Rightarrow> nat \<Rightarrow> int \<Rightarrow> pystr \<Rightarrow> pystr \<Rightarrow> pystr" where
  "cut_lines_text shown n token_budget narrow_hint kept =
     pstr ''[!] TRUNCATED: showing '' @ py_str_int (int shown) @ pstr '' of '' @ py_str_int (int n)
       @ pstr '' lines (~'' @ py_str_int token_budget @ pstr ''-token budget). '' @ narrow_hint @ [newline, newline]
       @ kept
       @ [newline] @ pstr ''... (truncated '' @ [8212] @ pstr '' '' @ py_str_int (int n - int shown)
       @ pstr '' more lines cut by ~'' @ py_str_int token_budget @ pstr ''-token budget. '' @ narrow_hint @ pstr '')''"

definition cut_lines_to_budget :: "pystr list \<Rightarrow> int \<Rightarrow> pystr \<Rightarrow> pystr" where
  "cut_lines_to_budget lines token_budget narrow_hint =
     (let output = py_join [newline] lines;
          char_budget = token_budget * 3
      in if lines = [] \<or> int (length output) \<le> char_budget then output
         else
           let at0 = py_rfind newline (py_prefix char_budget output);
               cut_at = (if 0 < at0 then at0 else char_budget);
               kept = py_prefix cut_at output;
               shown = py_count newline kept + 1;
               cut_count = int (length lines) - int shown
           in if cut_count = 0 \<and> kept \<noteq> py_join [newline] (take shown lines)
              then cut_line_text token_budget narrow_hint kept
              else cut_lines_text shown (length lines) token_budget narrow_hint kept)"

definition community_header :: "('g, 't) lib \<Rightarrow> int \<Rightarrow> json \<Rightarrow> pystr" where
  "community_header L cid community_name =
     (let base = pstr ''Community '' @ py_str_int cid
      in if py_truthy community_name
         then (let clean = l_sanitize_label L (JStr (py_str (l_repr L) community_name))
               in if clean \<noteq> [] \<and> clean \<noteq> base then base @ pstr '' '' @ [8212] @ pstr '' '' @ clean else base)
         else base)"

section \<open>Values of arguments and attributes\<close>

text \<open>\<open>int(v)\<close>, \<open>v.lower()\<close>, and a value passed where the code needs a string.\<close>

fun json_int :: "json \<Rightarrow> int res" where
  "json_int (JInt i) = Inr i"
| "json_int (JBool b) = Inr (of_bool b)"
| "json_int (JFloat r) = Inr (if 0 \<le> r then \<lfloor>r\<rfloor> else \<lceil>r\<rceil>)"
| "json_int (JStr s) = py_int (py_strip s)"
| "json_int v = Inl (Exn TypeError (pstr ''int() argument must be a string or a real number''))"

fun json_lower :: "('g, 't) lib \<Rightarrow> json \<Rightarrow> pystr res" where
  "json_lower L (JStr s) = Inr (l_lower L s)"
| "json_lower L v = Inl (Exn AttributeError (pstr ''object has no attribute lower''))"

fun json_text :: "json \<Rightarrow> pystr res" where
  "json_text (JStr s) = Inr s"
| "json_text v = Inl (Exn TypeError (pstr ''expected a string''))"

definition arg :: "pyobj \<Rightarrow> string \<Rightarrow> json res" where
  "arg arguments key = dict_index arguments id (pstr key)"

definition arg_get :: "pyobj \<Rightarrow> string \<Rightarrow> json \<Rightarrow> json" where
  "arg_get d key dflt = dict_get d (pstr key) dflt"

definition json_or :: "json \<Rightarrow> json \<Rightarrow> json" where
  "json_or v w = (if py_truthy v then v else w)"

fun filterR :: "('a \<Rightarrow> bool res) \<Rightarrow> 'a list \<Rightarrow> 'a list res" where
  "filterR f [] = Inr []"
| "filterR f (x # xs) =
     bindR (f x) (\<lambda>b. bindR (filterR f xs) (\<lambda>ys. Inr (if b then x # ys else ys)))"

text \<open>\<open>sanitize_label(str(v))\<close>.\<close>

definition sane_str :: "('g, 't) lib \<Rightarrow> json \<Rightarrow> pystr" where
  "sane_str L v = l_sanitize_label L (JStr (py_str (l_repr L) v))"

definition node_attrs :: "('g, 't) lib \<Rightarrow> 'g \<Rightarrow> pystr \<Rightarrow> pyobj res" where
  "node_attrs L g n = dict_index (l_nodes L g) id n"

definition node_label :: "('g, 't) lib \<Rightarrow> pystr \<Rightarrow> pyobj \<Rightarrow> pystr" where
  "node_label L n d = l_sanitize_label L (arg_get d ''label'' (JStr n))"

section \<open>The seven tools\<close>

definition tool_query_graph :: "('g, 't) lib \<Rightarrow> pyobj \<Rightarrow> ('g, 't) graph_snapshot \<Rightarrow> pystr res" where
  "tool_query_graph L arguments snapshot =
     bindR (bindR (arg arguments ''question'') json_text) (\<lambda>question.
     bindR (json_text (arg_get arguments ''mode'' (jstr ''bfs''))) (\<lambda>mode.
     bindR (json_int (arg_get arguments ''depth'' (JInt 3))) (\<lambda>depth.
     bindR (json_int (arg_get arguments ''token_budget'' (JInt 2000))) (\<lambda>token_budget.
       query_graph_text L (graph snapshot) question mode depth token_budget
         (arg_get arguments ''context_filter'' JNull)))))"

definition no_match_text :: "pystr \<Rightarrow> pystr" where
  "no_match_text label = pstr ''No node matching '' @ [39] @ label @ [39] @ pstr '' found.''"

definition node_matches :: "('g, 't) lib \<Rightarrow> pystr \<Rightarrow> pystr \<times> pyobj \<Rightarrow> bool res" where
  "node_matches L label nd =
     (case nd of (nid, d) \<Rightarrow>
        bindR (json_lower L (json_or (arg_get d ''label'' JNull) (JStr []))) (\<lambda>l.
          Inr (py_in label l \<or> label = l_lower L nid)))"

definition node_text :: "('g, 't) lib \<Rightarrow> 'g \<Rightarrow> pystr \<Rightarrow> pyobj \<Rightarrow> pystr" where
  "node_text L g nid d =
     py_join [newline]
       [pstr ''Node: '' @ node_label L nid d,
        pstr ''  ID: '' @ l_sanitize_label L (JStr nid),
        pstr ''  Source: '' @ sane_str L (arg_get d ''source_file'' (JStr [])) @ pstr '' ''
          @ sane_str L (arg_get d ''source_location'' (JStr [])),
        pstr ''  Type: '' @ sane_str L (arg_get d ''file_type'' (JStr [])),
        pstr ''  Community: ''
          @ sane_str L (json_or (arg_get d ''community_name'' JNull) (arg_get d ''community'' (JStr []))),
        pstr ''  Degree: '' @ py_str_int (l_degree L g nid)]"

definition tool_get_node :: "('g, 't) lib \<Rightarrow> pyobj \<Rightarrow> ('g, 't) graph_snapshot \<Rightarrow> pystr res" where
  "tool_get_node L arguments snapshot =
     bindR (bindR (arg arguments ''label'') (json_lower L)) (\<lambda>label.
     bindR (filterR (node_matches L label) (l_nodes L (graph snapshot))) (\<lambda>matches.
       case matches of
         [] \<Rightarrow> Inr (no_match_text label)
       | (nid, d) # rest \<Rightarrow> Inr (node_text L (graph snapshot) nid d)))"

definition edge_at :: "('g, 't) lib \<Rightarrow> pyobj \<Rightarrow> pystr" where
  "edge_at L d =
     (let loc = py_str (l_repr L) (json_or (arg_get d ''source_location'' JNull) (JStr []))
      in if loc = [] then []
         else pstr '' at='' @ sane_str L (json_or (arg_get d ''source_file'' JNull) (JStr []))
           @ pstr '':'' @ l_sanitize_label L (JStr loc))"

text \<open>The line of one neighbour; none when the relation filter leaves it out.\<close>

definition neighbor_line ::
  "('g, 't) lib \<Rightarrow> 'g \<Rightarrow> pystr \<Rightarrow> string \<Rightarrow> pystr \<Rightarrow> pyobj \<Rightarrow> pystr list res" where
  "neighbor_line L g relf arrow nb d =
     (let rel = arg_get d ''relation'' (JStr []) in
      bindR (if relf = [] then Inr False
             else bindR (json_lower L rel) (\<lambda>r. Inr (\<not> py_in relf r))) (\<lambda>skip.
        if skip then Inr []
        else bindR (node_attrs L g nb) (\<lambda>nd.
          Inr [pstr ''  '' @ pstr arrow @ pstr '' '' @ node_label L nb nd @ pstr '' ['' @ sane_str L rel @ pstr ''] [''
            @ sane_str L (arg_get d ''confidence'' (JStr [])) @ pstr '']'' @ edge_at L d])))"

definition tool_get_neighbors :: "('g, 't) lib \<Rightarrow> pyobj \<Rightarrow> ('g, 't) graph_snapshot \<Rightarrow> pystr res" where
  "tool_get_neighbors L arguments snapshot =
     (let g = graph snapshot in
      bindR (bindR (arg arguments ''label'') (json_lower L)) (\<lambda>label.
      bindR (json_lower L (arg_get arguments ''relation_filter'' (JStr []))) (\<lambda>relf.
      bindR (find_node L g label) (\<lambda>matches.
        case matches of
          [] \<Rightarrow> Inr (no_match_text label)
        | nid # rest \<Rightarrow>
            bindR (node_attrs L g nid) (\<lambda>nd.
            bindR (mapR (\<lambda>nb. neighbor_line L g relf ''-->'' nb (l_edge_data L g nid nb)) (l_successors L g nid)) (\<lambda>outs.
            bindR (mapR (\<lambda>nb. neighbor_line L g relf ''<--'' nb (l_edge_data L g nb nid)) (l_predecessors L g nid)) (\<lambda>ins.
            bindR (json_int (arg_get arguments ''token_budget'' (JInt 2000))) (\<lambda>budget.
              Inr (cut_lines_to_budget
                ((pstr ''Neighbors of '' @ node_label L nid nd @ pstr '':'') # concat outs @ concat ins) budget
                (pstr ''Narrow with relation_filter or use get_node for a specific symbol'')))))))))) "

definition tool_get_community :: "('g, 't) lib \<Rightarrow> pyobj \<Rightarrow> ('g, 't) graph_snapshot \<Rightarrow> pystr res" where
  "tool_get_community L arguments snapshot =
     (let g = graph snapshot in
      bindR (bindR (arg arguments ''community_id'') json_int) (\<lambda>cid.
        let nodes = dict_get (community_map snapshot) cid [] in
        if nodes = [] then Inr (pstr ''Community '' @ py_str_int cid @ pstr '' not found.'')
        else
          bindR (node_attrs L g (hd nodes)) (\<lambda>first.
          bindR (mapR (\<lambda>n. bindR (node_attrs L g n) (\<lambda>d.
              Inr (pstr ''  '' @ node_label L n d @ pstr '' ['' @ sane_str L (arg_get d ''source_file'' (JStr [])) @ pstr '']'')))
            nodes) (\<lambda>members.
          bindR (json_int (arg_get arguments ''token_budget'' (JInt 2000))) (\<lambda>budget.
            Inr (cut_lines_to_budget
              ((community_header L cid (arg_get first ''community_name'' JNull) @ pstr '' ('' @ py_str_int (int (length nodes))
                 @ pstr '' nodes):'') # members) budget
              (pstr ''Raise token_budget or use get_node for specific members'')))))))"

definition god_line :: "nat \<Rightarrow> pystr \<times> int \<Rightarrow> pystr" where
  "god_line i n =
     pstr ''  '' @ py_str_int (int i) @ pstr ''. '' @ fst n @ pstr '' - '' @ py_str_int (snd n) @ pstr '' edges''"

definition tool_god_nodes :: "('g, 't) lib \<Rightarrow> pyobj \<Rightarrow> ('g, 't) graph_snapshot \<Rightarrow> pystr res" where
  "tool_god_nodes L arguments snapshot =
     bindR (json_int (arg_get arguments ''top_n'' (JInt 10))) (\<lambda>n.
       Inr (py_join [newline]
         (pstr ''God nodes (most connected):'' #
          map (\<lambda>(i, x). god_line i x) (enumerate 1 (l_god_nodes L (graph snapshot) n)))))"

definition percent_line :: "string \<Rightarrow> json list \<Rightarrow> pystr" where
  "percent_line name confs =
     pstr name @ pstr '': ''
       @ py_str_int (py_percent (count_list confs (JStr (pstr name))) (if confs = [] then 1 else length confs))
       @ pstr ''%'' @ [newline]"

definition tool_graph_stats :: "('g, 't) lib \<Rightarrow> pyobj \<Rightarrow> ('g, 't) graph_snapshot \<Rightarrow> pystr res" where
  "tool_graph_stats L arguments snapshot =
     (let g = graph snapshot;
          confs = map (\<lambda>(u, v, d). arg_get d ''confidence'' (jstr ''EXTRACTED'')) (l_edges L g)
      in Inr (pstr ''Nodes: '' @ py_str_int (int (length (l_nodes L g))) @ [newline]
        @ pstr ''Edges: '' @ py_str_int (int (length (l_edges L g))) @ [newline]
        @ pstr ''Communities: '' @ py_str_int (int (length (community_map snapshot))) @ [newline]
        @ percent_line ''EXTRACTED'' confs @ percent_line ''INFERRED'' confs @ percent_line ''AMBIGUOUS'' confs))"

definition tool_shortest_path :: "('g, 't) lib \<Rightarrow> pyobj \<Rightarrow> ('g, 't) graph_snapshot \<Rightarrow> pystr res" where
  "tool_shortest_path L arguments snapshot = shortest_path_text L (graph snapshot) arguments"

definition TOOL_HANDLERS ::
  "('g, 't) lib \<Rightarrow> (pystr, pyobj \<Rightarrow> ('g, 't) graph_snapshot \<Rightarrow> pystr res) dict" where
  "TOOL_HANDLERS L =
     [(pstr ''query_graph'', tool_query_graph L), (pstr ''get_node'', tool_get_node L),
      (pstr ''get_neighbors'', tool_get_neighbors L), (pstr ''get_community'', tool_get_community L),
      (pstr ''god_nodes'', tool_god_nodes L), (pstr ''graph_stats'', tool_graph_stats L),
      (pstr ''shortest_path'', tool_shortest_path L)]"

definition execute_tool ::
  "('g, 't) lib \<Rightarrow> pystr \<Rightarrow> pyobj \<Rightarrow> ('g, 't) graph_snapshot \<Rightarrow> pystr res" where
  "execute_tool L name arguments snapshot =
     bindR (dict_index (TOOL_HANDLERS L) id name) (\<lambda>handler. handler arguments snapshot)"

definition TOOL_DEFINITIONS_BY_NAME :: "(pystr, tool) dict" where
  "TOOL_DEFINITIONS_BY_NAME = map (\<lambda>t. (pstr (tool_name t), t)) TOOL_DEFINITIONS"

lemma tool_names:
  "map tool_name TOOL_DEFINITIONS = [''query_graph'', ''get_node'', ''get_neighbors'', ''get_community'', ''god_nodes'',
     ''graph_stats'', ''shortest_path'']"
  by (simp add: TOOL_DEFINITIONS_def)

lemma tool_keys:
  "keys TOOL_DEFINITIONS_BY_NAME = map pstr [''query_graph'', ''get_node'', ''get_neighbors'', ''get_community'',
     ''god_nodes'', ''graph_stats'', ''shortest_path'']"
  by (subst tool_names [symmetric]) (simp add: TOOL_DEFINITIONS_BY_NAME_def)

section \<open>What a cut text shows\<close>

lemma join_at_newline:
  assumes "lines \<noteq> []" "\<forall>l \<in> set lines. newline \<notin> set l" "py_join [newline] lines = a @ newline # b"
  shows "a = py_join [newline] (take (py_count newline a + 1) lines) \<and> py_count newline a + 1 < length lines"
proof -
  have l: "lines = py_split newline a @ py_split newline b"
    using py_split_join [OF assms(1,2)] assms(3) by (simp add: py_split_at)
  have n: "py_count newline a + 1 = length (py_split newline a)" by (simp add: length_py_split)
  have "length (py_split newline b) \<noteq> 0" by simp
  then show ?thesis unfolding n by (subst (1 2) l) (simp add: py_join_split)
qed

lemma join_take_Suc:
  assumes "Suc m < length lines" "0 < m"
  shows "\<exists>b. py_join sep lines = py_join sep (take (Suc m) lines) @ sep @ b"
proof -
  have j: "ys \<noteq> [] \<Longrightarrow> xs \<noteq> [] \<Longrightarrow> py_join sep (xs @ ys) = py_join sep xs @ sep @ py_join sep ys" for xs ys
  proof (induction xs)
    case (Cons x xs)
    then show ?case by (cases xs; cases ys) auto
  qed simp
  have "lines = take (Suc m) lines @ drop (Suc m) lines" by simp
  moreover have "take (Suc m) lines \<noteq> []" "drop (Suc m) lines \<noteq> []" using assms by auto
  ultimately show ?thesis using j by metis
qed

lemma rfind_last:
  assumes "s = p @ c # q" "py_rfind c (take n s) = r"
  shows "length p < n \<Longrightarrow> int (length p) \<le> r"
proof -
  assume n: "length p < n"
  have ge: "int (length x) \<le> py_rfind c (x @ c # y)" for x y
    by (induction x) (auto simp: Let_def py_rfind_ge)
  from n assms(1) have "take n s = p @ c # take (n - Suc (length p)) q" by (simp add: take_Cons')
  with ge [of p "take (n - Suc (length p)) q"] assms(2) show ?thesis by simp
qed

lemma hd_line_prefix:
  assumes "lines \<noteq> []" "newline \<notin> set (take n (py_join [newline] lines))" "n \<le> length (py_join [newline] lines)"
  shows "n \<le> length (hd lines) \<and> take n (py_join [newline] lines) = take n (hd lines)"
proof (cases "tl lines = []")
  case True
  with assms(1) have "lines = [hd lines]" by (cases lines) auto
  then have "py_join [newline] lines = hd lines" by (metis py_join.simps(2))
  with assms(3) show ?thesis by simp
next
  case False
  then obtain b where b: "py_join [newline] lines = hd lines @ newline # b"
    using assms(1) by (cases lines; cases "tl lines") auto
  have "n \<le> length (hd lines)"
  proof (rule ccontr)
    assume "\<not> ?thesis"
    then have "newline \<in> set (take n (hd lines @ newline # b))" by (simp add: take_Cons')
    with assms(2) b show False by simp
  qed
  with b show ?thesis by simp
qed

lemma join_snoc: "xs \<noteq> [] \<Longrightarrow> \<exists>c. py_join sep (xs @ [y]) = py_join sep xs @ sep @ c"
proof (induction xs)
  case (Cons x xs)
  then show ?case by (cases xs) auto
qed simp

lemma join_hd: "xs \<noteq> [] \<Longrightarrow> \<exists>b. py_join sep xs = hd xs @ b"
  by (cases xs; cases "tl xs") auto

text \<open>A cut at the last newline inside the budget shows as many whole lines as fit.\<close>

lemma cut_at_newline:
  assumes "lines \<noteq> []" "\<forall>l \<in> set lines. newline \<notin> set l" "out = py_join [newline] lines" "w < length out"
    and "r = py_rfind newline (take w out)" "0 < r" "m = py_count newline (take (nat r) out) + 1"
  shows "take (nat r) out = py_join [newline] (take m lines)" "m < length lines" "nat r < w"
    and "w \<le> length (py_join [newline] (take (Suc m) lines))"
proof -
  show lt: "nat r < w" using py_rfind_lt [of newline "take w out"] assms(4-6) by simp
  from py_rfind_split [of newline "take w out"] assms(5,6)
  have "take w out = take (nat r) (take w out) @ newline # drop (Suc (nat r)) (take w out)" by simp
  with lt have "out = take (nat r) out @ newline # (drop (Suc (nat r)) (take w out) @ drop w out)"
    by (metis append_Cons append_assoc append_take_drop_id min.absorb1 less_imp_le take_take)
  from join_at_newline [OF assms(1,2) trans [OF assms(3) [symmetric] this]] assms(3,7)
  show k: "take (nat r) out = py_join [newline] (take m lines)" and mn: "m < length lines" by simp_all
  show "w \<le> length (py_join [newline] (take (Suc m) lines))"
  proof (cases "Suc m < length lines")
    case True
    then obtain b where b: "out = py_join [newline] (take (Suc m) lines) @ newline # b"
      using join_take_Suc [of m lines "[newline]"] assms(3,7) by auto
    have "take (Suc m) lines = take m lines @ [lines ! m]" using mn by (simp add: take_Suc_conv_app_nth)
    moreover have "take m lines \<noteq> []" using assms(1,7) by simp
    ultimately obtain c where "py_join [newline] (take (Suc m) lines) = py_join [newline] (take m lines) @ [newline] @ c"
      using join_snoc by metis
    moreover have "length (py_join [newline] (take m lines)) = nat r" unfolding k [symmetric] using lt assms(4) by simp
    ultimately have "nat r < length (py_join [newline] (take (Suc m) lines))" by simp
    with rfind_last [OF b, of w r] assms(5) show ?thesis by linarith
  next
    case False
    with mn assms(3,4) show ?thesis by simp
  qed
qed

section \<open>Properties\<close>

text \<open>What is returned for a text over the budget, from the position of the last line break in it.\<close>

lemma cut_lines_over_budget:
  assumes "lines \<noteq> []" "n = length lines" "out = py_join [newline] lines" "w < length out" "budget * 3 = int w"
    and "r = py_rfind newline (take w out)" "kept = take (if 0 < r then nat r else w) out"
  shows "cut_lines_to_budget lines budget hint =
     (let shown = py_count newline kept + 1
      in if n = shown \<and> kept \<noteq> py_join [newline] (take shown lines)
         then cut_line_text budget hint kept else cut_lines_text shown n budget hint kept)"
proof -
  have p: "py_prefix (int w) out = take w out" "py_prefix (if 0 < r then r else int w) out = kept"
    by (simp_all add: py_prefix_def assms(7))
  have e: "int a - int b = 0 \<longleftrightarrow> a = b" for a b by simp
  have nf: "(lines = [] \<or> int (length out) \<le> int w) = False" using assms(1,4) by simp
  show ?thesis
    unfolding cut_lines_to_budget_def Let_def assms(3) [symmetric] assms(5) p(1) assms(6) [symmetric] p(2) e nf if_False assms(2) ..
qed

lemma rfind_not_first:
  assumes "hd (take w out) \<noteq> newline" "r = py_rfind newline (take w out)"
  shows "r \<noteq> 0"
proof
  assume "r = 0"
  with py_rfind_split [of newline "take w out"] assms(2) have "take w out = newline # drop 1 (take w out)" by simp
  with assms(1) show False by (metis list.sel(1))
qed



text \<open>The advertised tools are exactly the ones that can be run: names are distinct, every listed
  tool has a handler and every handler is listed, so \<open>execute_tool\<close> looks up no name in vain that
  the dispatch lets through.\<close>

theorem tools_complete:
  "map (pstr \<circ> tool_name) TOOL_DEFINITIONS = keys (TOOL_HANDLERS L) \<and> distinct (keys (TOOL_HANDLERS L))
   \<and> (\<forall>name. map_of TOOL_DEFINITIONS_BY_NAME name = None \<longleftrightarrow>
        execute_tool L name arguments snapshot = Inl (Exn KeyError name) \<and> name \<notin> set (keys (TOOL_HANDLERS L)))"
proof -
  have k: "map (pstr \<circ> tool_name) TOOL_DEFINITIONS = keys (TOOL_HANDLERS L)"
    unfolding map_map [symmetric] tool_names by (simp add: TOOL_HANDLERS_def)
  have d: "distinct (keys (TOOL_HANDLERS L))" by (simp add: TOOL_HANDLERS_def)
  have b: "keys TOOL_DEFINITIONS_BY_NAME = keys (TOOL_HANDLERS L)"
    using k by (simp add: TOOL_DEFINITIONS_BY_NAME_def comp_def)
  have "map_of TOOL_DEFINITIONS_BY_NAME name = None \<longleftrightarrow>
      execute_tool L name arguments snapshot = Inl (Exn KeyError name) \<and> name \<notin> set (keys (TOOL_HANDLERS L))" for name
    unfolding map_of_None_iff b
    using map_of_None_iff [of "TOOL_HANDLERS L" name]
    by (auto simp: execute_tool_def dict_index_def simp del: list.set_map)
  with k d show ?thesis by blast
qed

theorem tools_complete_witness:
  "\<not> (\<exists>x. execute_tool sample_lib (pstr ''drop_table'') [] (\<lparr>graph = ([], []), trigram_index = 0, community_map = [], version = 1\<rparr>) = Inr x)"
proof -
  have "pstr ''drop_table'' \<notin> set (keys (TOOL_HANDLERS sample_lib))" by (simp add: TOOL_HANDLERS_def)
  moreover have "map (pstr \<circ> tool_name) TOOL_DEFINITIONS = keys (TOOL_HANDLERS sample_lib)"
    using tools_complete [of sample_lib] by blast
  ultimately have "pstr ''drop_table'' \<notin> set (keys TOOL_DEFINITIONS_BY_NAME)"
    by (simp add: TOOL_DEFINITIONS_BY_NAME_def comp_def)
  then have "map_of TOOL_DEFINITIONS_BY_NAME (pstr ''drop_table'') = None" by (simp only: map_of_None_iff not_False_eq_True)
  with tools_complete [of sample_lib "[]" "\<lparr>graph = ([], []), trigram_index = 0, community_map = [], version = 1\<rparr>"]
  show ?thesis by simp
qed

definition label_lower :: "('g, 't) lib \<Rightarrow> pyobj \<Rightarrow> pystr" where
  "label_lower L d = l_lower L (case map_of d (pstr ''label'') of Some (JStr s) \<Rightarrow> s | _ \<Rightarrow> [])"

text \<open>C32. \<open>get_node\<close> answers with the first node, in graph order, whose label contains the text or whose
  identifier is the text, ignoring case, and says so when there is none. (Labels, where present, are
  strings.)\<close>

theorem get_node_first_match:
  assumes "map_of arguments (pstr ''label'') = Some (JStr text)"
    and "\<forall>(nid, d) \<in> set (l_nodes L (graph snapshot)). \<forall>v. map_of d (pstr ''label'') = Some v \<longrightarrow> v = JNull \<or> (\<exists>s. v = JStr s)"
  shows "tool_get_node L arguments snapshot = Inr
    (case List.find (\<lambda>(nid, d). py_in (l_lower L text) (label_lower L d) \<or> l_lower L text = l_lower L nid)
        (l_nodes L (graph snapshot)) of
       None \<Rightarrow> no_match_text (l_lower L text)
     | Some (nid, d) \<Rightarrow> node_text L (graph snapshot) nid d)"
proof -
  let ?p = "\<lambda>(nid, d). py_in (l_lower L text) (label_lower L d) \<or> l_lower L text = l_lower L nid"
  have one: "node_matches L (l_lower L text) x = Inr (?p x)" if "x \<in> set (l_nodes L (graph snapshot))" for x
  proof -
    obtain nid d where x: "x = (nid, d)" by (cases x)
    with that assms(2) have "\<forall>v. map_of d (pstr ''label'') = Some v \<longrightarrow> v = JNull \<or> (\<exists>s. v = JStr s)" by blast
    then show ?thesis
      by (cases "map_of d (pstr ''label'')")
        (auto simp: x node_matches_def label_lower_def arg_get_def dict_get_def json_or_def)
  qed
  have "filterR (node_matches L (l_lower L text)) xs = Inr (filter ?p xs)"
    if "set xs \<subseteq> set (l_nodes L (graph snapshot))" for xs
    using that by (induction xs) (auto simp: one)
  moreover have "List.find ?p xs = (case filter ?p xs of [] \<Rightarrow> None | y # ys \<Rightarrow> Some y)" for xs
    by (induction xs) auto
  ultimately show ?thesis
    using assms(1) by (auto simp: tool_get_node_def arg_def dict_index_def split: list.split)
qed

theorem get_node_first_match_witness:
  "tool_get_node sample_lib [(pstr ''label'', JStr (pstr ''A''))]
     \<lparr>graph = ([(pstr ''x'', []), (pstr ''a'', [])], []), trigram_index = 0, community_map = [], version = 1\<rparr>
   = Inr (node_text sample_lib ([(pstr ''x'', []), (pstr ''a'', [])], []) (pstr ''a'') [])"
proof -
  let ?s = "\<lparr>graph = ([(pstr ''x'', []), (pstr ''a'', [])], []), trigram_index = 0, community_map = [], version = 1\<rparr>"
  have n: "l_nodes sample_lib (graph ?s) = [(pstr ''x'', []), (pstr ''a'', [])]" by (simp add: sample_lib_def)
  have f: "List.find (\<lambda>(nid, d). py_in (l_lower sample_lib (pstr ''A'')) (label_lower sample_lib d) \<or> l_lower sample_lib (pstr ''A'') = l_lower sample_lib nid)
      [(pstr ''x'', []), (pstr ''a'', [])] = Some (pstr ''a'', [])"
    by code_simp
  from get_node_first_match [of "[(pstr ''label'', JStr (pstr ''A''))]" "pstr ''A''" sample_lib ?s]
  show ?thesis unfolding n f by simp
qed

end
