(* ===== verification/Query_Cache.thy ===== *)
theory Query_Cache
  imports Interfaces
begin

text \<open>
  \<open>graph_query_api/query_cache.py\<close>: the LRU cache of \<open>query_graph\<close> results, keyed by the snapshot
  version and the normalised arguments. The \<open>OrderedDict\<close> is an association list, least recently
  used first. Both methods run under the cache's lock, so each is one step.
\<close>

definition DEFAULT_LRU_SIZE :: int where
  "DEFAULT_LRU_SIZE = 512"

record cache_key =
  key_version :: nat
  key_question :: pystr
  key_mode :: pystr
  key_depth :: int
  key_token_budget :: int
  key_context_filters :: "pystr list option"

record query_cache =
  maxsize :: int
  qentries :: "(cache_key, pystr) dict"
  hits :: nat
  misses :: nat

definition new_query_cache :: "int \<Rightarrow> query_cache" where
  "new_query_cache n = \<lparr>maxsize = n, qentries = [], hits = 0, misses = 0\<rparr>"

definition hit_rate :: "query_cache \<Rightarrow> real" where
  "hit_rate q =
     (let total_calls = hits q + misses q in if total_calls = 0 then 0 else real (hits q) / real total_calls)"

text \<open>\<open>OrderedDict.move_to_end\<close> of a key that is there.\<close>

definition move_to_end :: "'k \<Rightarrow> ('k, 'v) dict \<Rightarrow> ('k, 'v) dict" where
  "move_to_end k d = (case map_of d k of None \<Rightarrow> d | Some v \<Rightarrow> AList.delete k d @ [(k, v)])"

definition query_get :: "cache_key \<Rightarrow> query_cache \<Rightarrow> pystr option \<times> query_cache" where
  "query_get k q =
     (case map_of (qentries q) k of
        None \<Rightarrow> (None, q\<lparr>misses := misses q + 1\<rparr>)
      | Some v \<Rightarrow> (Some v, q\<lparr>hits := hits q + 1, qentries := move_to_end k (qentries q)\<rparr>))"

definition query_set :: "cache_key \<Rightarrow> pystr \<Rightarrow> query_cache \<Rightarrow> query_cache" where
  "query_set k result q =
     (let es = move_to_end k (AList.update k result (qentries q))
      in q\<lparr>qentries := (if maxsize q < int (length es) then tl es else es)\<rparr>)"

section \<open>The cache as a forgetful store\<close>

lemma move_to_end_update: "move_to_end k (AList.update k v d) = AList.delete k d @ [(k, v)]"
proof -
  have "AList.delete k (AList.update k v d) = AList.delete k d" by (induction d) (auto simp: AList.delete_eq)
  then show ?thesis by (simp add: move_to_end_def dict_simps)
qed

lemma map_of_move_to_end: "map_of (move_to_end k d) = map_of d"
  by (rule ext) (auto simp: move_to_end_def map_add_def dict_simps split: option.split)

lemma dict_ok_append_new: "dict_ok d \<Longrightarrow> dict_ok (AList.delete k d @ [(k, v)])"
  by (simp add: dict_ok_delete keys_delete)

lemma length_delete: "dict_ok d \<Longrightarrow> length (AList.delete k d) = length d - of_bool (k \<in> fst ` set d)"
proof (induction d)
  case (Cons x d)
  show ?case
  proof (cases "k = fst x")
    case True
    with Cons.prems have "k \<notin> fst ` set d" by simp
    then have "AList.delete k d = d" by (simp add: AList.delete_eq) (rule filter_True, force)
    with True show ?thesis by (cases x) (simp add: AList.delete_eq)
  next
    case False
    have "d \<noteq> []" if "k \<in> fst ` set d" using that by auto
    with False Cons show ?thesis by (cases x; cases d) (auto simp: AList.delete_eq)
  qed
qed simp

lemma move_to_end_ok: "dict_ok d \<Longrightarrow> dict_ok (move_to_end k d)"
  by (simp add: move_to_end_def dict_ok_append_new del: map_append split: option.split)

lemma length_move_to_end: "dict_ok d \<Longrightarrow> length (move_to_end k d) = length d"
proof (cases "map_of d k")
  case (Some v)
  then have "k \<in> fst ` set d" by (force dest: map_of_SomeD)
  moreover then have "0 < length d" by (cases d) auto
  moreover assume "dict_ok d"
  ultimately show ?thesis using Some by (simp add: move_to_end_def length_delete)
qed (simp add: move_to_end_def)

definition query_cache_ok :: "query_cache \<Rightarrow> bool" where
  "query_cache_ok q \<longleftrightarrow> dict_ok (qentries q) \<and> int (length (qentries q)) \<le> max 0 (maxsize q)"

lemma query_cache_ok_new [simp]: "query_cache_ok (new_query_cache n)"
  by (simp add: query_cache_ok_def new_query_cache_def)

lemma dict_ok_tl: "dict_ok d \<Longrightarrow> dict_ok (tl d)"
  by (cases d) auto

lemma map_of_tl: "dict_ok d \<Longrightarrow> map_of (tl d) \<subseteq>\<^sub>m map_of d"
proof (cases d)
  case (Cons x d')
  moreover assume "dict_ok d"
  ultimately show ?thesis
    by (cases x) (force simp: map_le_def dom_map_of_conv_image_fst)
qed simp

lemma query_set_ok: "query_cache_ok q \<Longrightarrow> query_cache_ok (query_set k v q)"
  using dict_ok_append_new [of "qentries q" k v] dict_ok_tl [of "AList.delete k (qentries q) @ [(k, v)]"]
    length_delete [of "qentries q" k]
  by (simp add: query_cache_ok_def query_set_def Let_def move_to_end_update del: map_append distinct_append) linarith

lemma query_get_ok: "query_cache_ok q \<Longrightarrow> query_cache_ok (snd (query_get k q))"
  by (auto simp: query_cache_ok_def query_get_def move_to_end_ok length_move_to_end split: option.split)

lemma query_set_content:
  assumes "query_cache_ok q"
  shows "map_of (qentries (query_set k v q)) \<subseteq>\<^sub>m (map_of (qentries q))(k \<mapsto> v)"
proof -
  let ?es = "AList.delete k (qentries q) @ [(k, v)]"
  have ok: "dict_ok ?es" using assms dict_ok_append_new [of "qentries q" k v] by (simp only: query_cache_ok_def)
  have es: "map_of ?es = (map_of (qentries q))(k \<mapsto> v)"
    by (rule ext) (auto simp: map_add_def dict_simps split: option.split)
  show ?thesis
    using map_of_tl [OF ok] unfolding es by (simp add: query_set_def Let_def move_to_end_update es del: map_of_append)
qed

interpretation lru: memo_cache query_get query_set "\<lambda>q. map_of (qentries q)" query_cache_ok
proof unfold_locales
  fix q k v
  assume ok: "query_cache_ok q"
  show "fst (query_get k q) = map_of (qentries q) k" by (simp add: query_get_def split: option.split)
  show "map_of (qentries (snd (query_get k q))) = map_of (qentries q)"
    by (simp add: query_get_def map_of_move_to_end split: option.split)
  show "map_of (qentries (query_set k v q)) \<subseteq>\<^sub>m (map_of (qentries q))(k \<mapsto> v)"
    using ok by (rule query_set_content)
  show "query_cache_ok (snd (query_get k q))" using ok by (rule query_get_ok)
  show "query_cache_ok (query_set k v q)" using ok by (rule query_set_ok)
qed

section \<open>Runs of cache operations\<close>

datatype cache_op = GetOp cache_key | SetOp cache_key pystr

fun cache_op_key :: "cache_op \<Rightarrow> cache_key" where
  "cache_op_key (GetOp k) = k"
| "cache_op_key (SetOp k v) = k"

fun run_cache_op :: "cache_op \<Rightarrow> query_cache \<Rightarrow> query_cache" where
  "run_cache_op (GetOp k) q = snd (query_get k q)"
| "run_cache_op (SetOp k v) q = query_set k v q"

definition run_cache :: "cache_op list \<Rightarrow> query_cache \<Rightarrow> query_cache" where
  "run_cache ops q = fold run_cache_op ops q"

lemma run_cache_simps [simp]:
  "run_cache [] q = q"
  "run_cache (a # ops) q = run_cache ops (run_cache_op a q)"
  by (simp_all add: run_cache_def)

lemma run_cache_op_ok: "query_cache_ok q \<Longrightarrow> query_cache_ok (run_cache_op a q)"
  by (cases a) (simp_all add: query_set_ok query_get_ok)

lemma run_cache_ok: "query_cache_ok q \<Longrightarrow> query_cache_ok (run_cache ops q)"
  by (induction ops arbitrary: q) (simp_all add: run_cache_op_ok)

lemma maxsize_run_cache_op [simp]: "maxsize (run_cache_op a q) = maxsize q"
  by (cases a) (auto simp: query_get_def query_set_def Let_def split: option.split)

lemma maxsize_run_cache [simp]: "maxsize (run_cache ops q) = maxsize q"
  by (induction ops arbitrary: q) simp_all

text \<open>
  Where a key stands: everything after it in the list has been used since its own last use, and
  those keys are in \<open>S\<close>.
\<close>

definition recent :: "cache_key set \<Rightarrow> cache_key \<Rightarrow> pystr \<Rightarrow> query_cache \<Rightarrow> bool" where
  "recent S k v q \<longleftrightarrow> query_cache_ok q \<and>
     (\<exists>xs ys. qentries q = xs @ [(k, v)] @ ys \<and> fst ` set ys \<subseteq> S)"

lemma recent_lookup: "recent S k v q \<Longrightarrow> map_of (qentries q) k = Some v"
  by (auto simp: recent_def query_cache_ok_def map_add_def map_of_eq_None_iff split: option.split)

lemma delete_append: "AList.delete k (xs @ ys) = AList.delete k xs @ AList.delete k ys"
  by (simp add: AList.delete_eq)

lemma delete_absent: "k \<notin> fst ` set d \<Longrightarrow> AList.delete k d = d"
  by (simp add: AList.delete_eq) (rule filter_True, force)

lemma recent_moved:
  assumes "recent S k v q" "k' \<noteq> k" "k' \<in> S"
  shows "\<exists>xs ys. AList.delete k' (qentries q) @ [(k', w)] = xs @ [(k, v)] @ ys \<and> fst ` set ys \<subseteq> S"
proof -
  obtain xs ys where q: "qentries q = xs @ [(k, v)] @ ys" "fst ` set ys \<subseteq> S" using assms(1) by (auto simp: recent_def)
  have "AList.delete k' (qentries q) @ [(k', w)] =
      AList.delete k' xs @ [(k, v)] @ (AList.delete k' ys @ [(k', w)])"
    using assms(2) q(1) by (simp add: AList.delete_eq)
  moreover have "fst ` set (AList.delete k' ys @ [(k', w)]) \<subseteq> S"
    using q(2) assms(3) by (auto simp: AList.delete_eq)
  ultimately show ?thesis by blast
qed

lemma recent_get:
  assumes "recent S k v q" "k' = k \<or> k' \<in> S"
  shows "recent S k v (snd (query_get k' q))"
proof -
  have ok: "query_cache_ok (snd (query_get k' q))" using assms(1) by (simp add: recent_def query_get_ok)
  show ?thesis
  proof (cases "map_of (qentries q) k'")
    case None
    with assms(1) ok show ?thesis by (auto simp: recent_def query_get_def)
  next
    case (Some w)
    then have e: "qentries (snd (query_get k' q)) = AList.delete k' (qentries q) @ [(k', w)]"
      by (simp add: query_get_def move_to_end_def)
    show ?thesis
    proof (cases "k' = k")
      case True
      with Some recent_lookup [OF assms(1)] e have "qentries (snd (query_get k' q)) = AList.delete k (qentries q) @ [(k, v)] @ []"
        by simp
      with ok show ?thesis unfolding recent_def by fastforce
    next
      case False
      with recent_moved [OF assms(1) False, of w] assms(2) e ok show ?thesis by (auto simp: recent_def)
    qed
  qed
qed

lemma recent_set:
  assumes "recent S k v q" "k' \<noteq> k" "k' \<in> S" "finite S" "k \<notin> S" "int (card S) < maxsize q"
  shows "recent S k v (query_set k' w q)"
proof -
  obtain xs ys where q: "AList.delete k' (qentries q) @ [(k', w)] = xs @ [(k, v)] @ ys" "fst ` set ys \<subseteq> S"
    using recent_moved [OF assms(1-3)] by blast
  have ok: "query_cache_ok (query_set k' w q)" using assms(1) by (simp add: recent_def query_set_ok)
  have "dict_ok (AList.delete k' (qentries q) @ [(k', w)])"
    using assms(1) dict_ok_append_new [of "qentries q" k' w] by (simp only: recent_def query_cache_ok_def)
  then have "distinct (map fst ys)" unfolding q(1) by simp
  then have "length ys = card (fst ` set ys)" using distinct_card [of "map fst ys"] by simp
  then have "int (length ys) \<le> int (card S)" using q(2) assms(4) by (simp add: card_mono)
  with assms(6) have short: "int (length ([(k, v)] @ ys)) \<le> maxsize q" by simp
  show ?thesis
  proof (cases "maxsize q < int (length (xs @ [(k, v)] @ ys))")
    case True
    with short obtain x xs' where "xs = x # xs'" by (cases xs) auto
    with True q ok show ?thesis by (auto simp: recent_def query_set_def Let_def move_to_end_update)
  next
    case False
    with q ok show ?thesis by (auto simp: recent_def query_set_def Let_def move_to_end_update)
  qed
qed

lemma recent_run:
  assumes "recent S k v q" "finite S" "k \<notin> S" "int (card S) < maxsize q"
    and "\<forall>a \<in> set ops. cache_op_key a \<in> S \<or> a = GetOp k"
  shows "recent S k v (run_cache ops q)"
  using assms
proof (induction ops arbitrary: q)
  case (Cons a ops)
  have "recent S k v (run_cache_op a q)"
    using Cons.prems by (cases a) (auto intro: recent_get recent_set)
  with Cons show ?case by simp
qed simp

lemma recent_after_set:
  assumes "query_cache_ok q" "1 \<le> maxsize q"
  shows "recent S k v (query_set k v q)"
proof -
  let ?d = "AList.delete k (qentries q)"
  have "query_cache_ok (query_set k v q)" using assms(1) by (rule query_set_ok)
  moreover have "\<exists>xs. qentries (query_set k v q) = xs @ [(k, v)] @ []"
    using assms(2) by (cases ?d) (auto simp: query_set_def Let_def move_to_end_update)
  ultimately show ?thesis unfolding recent_def by fastforce
qed

section \<open>Properties\<close>

text \<open>The cache stays bounded and well-formed: whatever is looked up and stored, it holds at most
  \<open>maxsize\<close> entries (none for a non-positive size), one per key, and its hit rate is a fraction.\<close>

theorem query_cache_bounded:
  "int (length (qentries (run_cache ops (new_query_cache n)))) \<le> max 0 n
   \<and> distinct (keys (qentries (run_cache ops (new_query_cache n))))
   \<and> 0 \<le> hit_rate (run_cache ops q) \<and> hit_rate (run_cache ops q) \<le> 1"
proof -
  have "query_cache_ok (run_cache ops (new_query_cache n))" by (rule run_cache_ok) simp
  moreover have "maxsize (run_cache ops (new_query_cache n)) = n" by (simp add: new_query_cache_def)
  ultimately show ?thesis by (simp add: query_cache_ok_def hit_rate_def Let_def divide_le_eq)
qed


definition sample_key :: "nat \<Rightarrow> cache_key" where
  "sample_key n = \<lparr>key_version = n, key_question = pstr ''q'', key_mode = pstr ''bfs'', key_depth = 3,
     key_token_budget = 2000, key_context_filters = None\<rparr>"


end
