(* ===== verification/Dispatch.thy ===== *)
theory Dispatch
  imports Tools Query_Cache
begin

text \<open>
  The dispatch of \<open>graph_query_api/tools.py\<close> (\<open>build_handlers\<close>): checks, the cached path of
  \<open>query_graph\<close>, the fixed error texts, and the latency record around every call. The snapshot is
  read once and handed in; the query cache and the registry are passed and handed back. Argument
  validation is \<open>jsonschema\<close>'s, a field of the library record.
\<close>

record call_result =
  is_error :: bool
  result_text :: pystr

definition error_result :: "pystr \<Rightarrow> call_result" where
  "error_result message = \<lparr>is_error = True, result_text = message\<rparr>"

definition text_result :: "pystr \<Rightarrow> call_result" where
  "text_result t = \<lparr>is_error = False, result_text = t\<rparr>"

section \<open>The cached path\<close>

text \<open>\<open>tuple(context_filter) if context_filter else None\<close>; the items are strings.\<close>

definition filters_tuple :: "json \<Rightarrow> pystr list option res" where
  "filters_tuple v =
     (if py_truthy v then bindR (py_iter v) (\<lambda>xs. bindR (mapR json_text xs) (\<lambda>fs. Inr (Some fs))) else Inr None)"

definition query_key :: "nat \<Rightarrow> pyobj \<Rightarrow> cache_key res" where
  "query_key ver arguments =
     bindR (bindR (arg arguments ''question'') json_text) (\<lambda>question.
     bindR (json_text (arg_get arguments ''mode'' (jstr ''bfs''))) (\<lambda>mode.
     bindR (json_int (arg_get arguments ''depth'' (JInt 3))) (\<lambda>depth.
     bindR (json_int (arg_get arguments ''token_budget'' (JInt 2000))) (\<lambda>token_budget.
     bindR (filters_tuple (arg_get arguments ''context_filter'' JNull)) (\<lambda>filters.
       Inr \<lparr>key_version = ver, key_question = question, key_mode = mode, key_depth = depth,
            key_token_budget = token_budget, key_context_filters = filters\<rparr>)))))"

definition QUERY_GRAPH :: pystr where
  "QUERY_GRAPH = pstr ''query_graph''"

definition run_tool ::
  "('g, 't) lib \<Rightarrow> pystr \<Rightarrow> pyobj \<Rightarrow> ('g, 't) graph_snapshot \<Rightarrow> query_cache \<Rightarrow> query_cache \<times> pystr res" where
  "run_tool L name arguments snapshot qc =
     (if name = QUERY_GRAPH then
        (case query_key (version snapshot) arguments of
           Inl e \<Rightarrow> (qc, Inl e)
         | Inr k \<Rightarrow>
             (case query_get k qc of
                (Some cached, qc1) \<Rightarrow> (qc1, Inr cached)
              | (None, qc1) \<Rightarrow>
                  (case execute_tool L name arguments snapshot of
                     Inl e \<Rightarrow> (qc1, Inl e)
                   | Inr t \<Rightarrow> (query_set k t qc1, Inr t))))
      else (qc, execute_tool L name arguments snapshot))"

section \<open>The dispatch\<close>

text \<open>The result, the cache, and the exception that was logged, if any.\<close>

definition tool_failed_text :: "pystr \<Rightarrow> pystr" where
  "tool_failed_text name = pstr ''Tool '' @ name @ pstr '' failed. See daemon logs for detail.''"

definition dispatch ::
  "('g, 't) lib \<Rightarrow> pystr \<Rightarrow> pyobj option \<Rightarrow> ('g, 't) graph_snapshot option \<Rightarrow> query_cache
     \<Rightarrow> call_result \<times> query_cache \<times> exn option" where
  "dispatch L name params snapshot qc =
     (case map_of TOOL_DEFINITIONS_BY_NAME name of
        None \<Rightarrow> (error_result (pstr ''Unknown tool: '' @ l_repr L (JStr name)), qc, None)
      | Some t \<Rightarrow>
          (case snapshot of
             None \<Rightarrow> (error_result (pstr ''Graph not ready yet''), qc, None)
           | Some s \<Rightarrow>
               let arguments = (case params of None \<Rightarrow> [] | Some a \<Rightarrow> a)
               in (case l_validate L arguments (input_schema t) of
                     Some message \<Rightarrow>
                       (error_result (pstr ''Invalid arguments for '' @ name @ pstr '': '' @ message), qc, None)
                   | None \<Rightarrow>
                       (case run_tool L name arguments s qc of
                          (qc', Inl e) \<Rightarrow> (error_result (tool_failed_text name), qc', Some e)
                        | (qc', Inr text) \<Rightarrow> (text_result text, qc', None)))))"

definition on_list_tools :: "tool list" where
  "on_list_tools = TOOL_DEFINITIONS"

text \<open>\<open>t0\<close> and \<open>t1\<close> are the clock before and after.\<close>

definition on_call_tool ::
  "('g, 't) lib \<Rightarrow> real \<Rightarrow> real \<Rightarrow> pystr \<Rightarrow> pyobj option \<Rightarrow> ('g, 't) graph_snapshot option
     \<Rightarrow> query_cache \<times> metrics option \<Rightarrow> call_result \<times> (query_cache \<times> metrics option) \<times> exn option" where
  "on_call_tool L t0 t1 name params snapshot s =
     (case s of (qc, m) \<Rightarrow>
        case dispatch L name params snapshot qc of
          (r, qc', logged) \<Rightarrow> (r, (qc', map_option (record_latency ''query'' (t1 - t0)) m), logged))"

section \<open>The cache never changes an answer\<close>

text \<open>
  What the proofs need of the libraries: the validator checks the type of \<open>context_filter\<close> as the schema
  says, and an empty filter list asks for the same as none.
\<close>

definition valid_query :: "('g, 't) lib \<Rightarrow> pyobj \<Rightarrow> bool" where
  "valid_query L arguments \<longleftrightarrow>
     (\<forall>t. map_of TOOL_DEFINITIONS_BY_NAME QUERY_GRAPH = Some t \<longrightarrow> l_validate L arguments (input_schema t) = None)"

definition filters_checked :: "('g, 't) lib \<Rightarrow> bool" where
  "filters_checked L \<longleftrightarrow> (\<forall>arguments v. valid_query L arguments \<longrightarrow>
     map_of arguments (pstr ''context_filter'') = Some v \<longrightarrow> (\<exists>fs. v = JArr (map JStr fs)))"

definition empty_filters_neutral :: "('g, 't) lib \<Rightarrow> bool" where
  "empty_filters_neutral L \<longleftrightarrow>
     (\<forall>g q m d b. l_query_text L g q m d b (JArr []) = l_query_text L g q m d b JNull)"

lemma json_texts: "mapR json_text (map JStr fs) = Inr fs"
  by (induction fs) auto

lemma execute_query: "execute_tool L QUERY_GRAPH arguments s = tool_query_graph L arguments s"
  by (simp add: execute_tool_def TOOL_HANDLERS_def dict_index_def QUERY_GRAPH_def)

text \<open>The uncached answer is a function of the key.\<close>

definition key_answer :: "('g, 't) lib \<Rightarrow> 'g \<Rightarrow> cache_key \<Rightarrow> pystr res" where
  "key_answer L g k = l_query_text L g (key_question k) (key_mode k) (key_depth k) (key_token_budget k)
     (case key_context_filters k of None \<Rightarrow> JNull | Some fs \<Rightarrow> JArr (map JStr fs))"

lemma answer_by_key:
  assumes "filters_checked L" "empty_filters_neutral L" "valid_query L arguments"
    and "query_key (version s) arguments = Inr k"
  shows "execute_tool L QUERY_GRAPH arguments s = key_answer L (graph s) k"
proof -
  let ?f = "arg_get arguments ''context_filter'' JNull"
  have f: "?f = JNull \<or> (\<exists>fs. ?f = JArr (map JStr fs))"
    using assms(1,3) by (auto simp: arg_get_def dict_get_def filters_checked_def split: option.split)
  from assms(4) obtain q m d b fo where parts: "bindR (arg arguments ''question'') json_text = Inr q"
      "json_text (arg_get arguments ''mode'' (jstr ''bfs'')) = Inr m"
      "json_int (arg_get arguments ''depth'' (JInt 3)) = Inr d"
      "json_int (arg_get arguments ''token_budget'' (JInt 2000)) = Inr b" "filters_tuple ?f = Inr fo"
    and k: "k = \<lparr>key_version = version s, key_question = q, key_mode = m, key_depth = d, key_token_budget = b,
        key_context_filters = fo\<rparr>"
    by (auto simp: query_key_def bindR_Inr_iff)
  have run: "execute_tool L QUERY_GRAPH arguments s = l_query_text L (graph s) q m d b ?f"
    using parts by (simp add: execute_query tool_query_graph_def query_graph_text_def)
  show ?thesis
  proof (cases "?f = JNull \<or> ?f = JArr []")
    case True
    with parts(5) have "fo = None" by (auto simp: filters_tuple_def)
    with True run k assms(2) show ?thesis by (auto simp: key_answer_def empty_filters_neutral_def)
  next
    case False
    with f obtain fs where fs: "?f = JArr (map JStr fs)" "fs \<noteq> []" by auto
    with parts(5) have "fo = Some fs" by (auto simp: filters_tuple_def json_texts)
    with fs run k show ?thesis by (simp add: key_answer_def)
  qed
qed

text \<open>Every entry is the answer that the snapshot of its version gives.\<close>

definition cache_faithful :: "('g, 't) lib \<Rightarrow> (nat \<Rightarrow> ('g, 't) graph_snapshot option) \<Rightarrow> query_cache \<Rightarrow> bool" where
  "cache_faithful L snaps = lru.sound
     (\<lambda>k v. \<exists>s. snaps (key_version k) = Some s \<and> key_answer L (graph s) k = Inr v)"

lemma query_key_version: "query_key ver arguments = Inr k \<Longrightarrow> key_version k = ver"
  by (auto simp: query_key_def bindR_Inr_iff)

lemma cache_faithful_new: "cache_faithful L snaps (new_query_cache n)"
  by (simp add: cache_faithful_def lru.sound_def) (simp add: new_query_cache_def)

text \<open>One query: the answer is the uncached one and the cache stays faithful.\<close>

lemma run_tool_faithful:
  assumes "filters_checked L" "empty_filters_neutral L" "valid_query L arguments"
    and "cache_faithful L snaps qc" "snaps (version s) = Some s"
    and "run_tool L QUERY_GRAPH arguments s qc = (qc', r)"
    and "query_key (version s) arguments = Inr k"
  shows "r = execute_tool L QUERY_GRAPH arguments s \<and> cache_faithful L snaps qc'"
proof -
  let ?ok = "\<lambda>k v. \<exists>s. snaps (key_version k) = Some s \<and> key_answer L (graph s) k = Inr v"
  have sound: "lru.sound ?ok qc" using assms(4) by (simp add: cache_faithful_def)
  have ans: "execute_tool L QUERY_GRAPH arguments s = key_answer L (graph s) k"
    by (rule answer_by_key [OF assms(1-3,7)])
  have kv: "key_version k = version s" using assms(7) by (rule query_key_version)
  obtain c qc1 where g: "query_get k qc = (c, qc1)" by (cases "query_get k qc")
  have s1: "lru.sound ?ok qc1" using lru.sound_fetch [OF sound, of k] g by simp
  show ?thesis
  proof (cases c)
    case (Some v)
    with g have "?ok k v" using lru.sound_fetch_value [OF sound, of k v] by simp
    with kv assms(5) have "key_answer L (graph s) k = Inr v" by auto
    with assms(6,7) g Some ans s1 show ?thesis by (auto simp: run_tool_def cache_faithful_def)
  next
    case None
    show ?thesis
    proof (cases "key_answer L (graph s) k")
      case (Inl e)
      with assms(6,7) g None ans s1 show ?thesis by (auto simp: run_tool_def cache_faithful_def)
    next
      case (Inr v)
      with kv assms(5) have "?ok k v" by auto
      from lru.sound_store [OF s1 this] assms(6,7) g None ans Inr show ?thesis
        by (auto simp: run_tool_def cache_faithful_def)
    qed
  qed
qed

lemma run_tool_no_key:
  assumes "query_key (version s) arguments = Inl e"
  shows "run_tool L QUERY_GRAPH arguments s qc = (qc, Inl e)"
  using assms by (simp add: run_tool_def)

lemma run_tool_other: "name \<noteq> QUERY_GRAPH \<Longrightarrow> run_tool L name arguments s qc = (qc, execute_tool L name arguments s)"
  by (simp add: run_tool_def)

lemma run_tool_key_error:
  assumes "filters_checked L" "valid_query L arguments" "query_key (version s) arguments = Inl e"
  shows "execute_tool L QUERY_GRAPH arguments s = Inl e"
proof -
  let ?f = "arg_get arguments ''context_filter'' JNull"
  have "?f = JNull \<or> (\<exists>fs. ?f = JArr (map JStr fs))"
    using assms(1,2) by (auto simp: arg_get_def dict_get_def filters_checked_def split: option.split)
  then have "\<exists>fo. filters_tuple ?f = Inr fo" by (auto simp: filters_tuple_def json_texts)
  with assms(3) show ?thesis
    by (auto simp: query_key_def bindR_Inl_iff execute_query tool_query_graph_def)
qed

lemma query_tool_listed: "\<exists>t. map_of TOOL_DEFINITIONS_BY_NAME QUERY_GRAPH = Some t"
proof -
  have "QUERY_GRAPH \<in> set (keys TOOL_DEFINITIONS_BY_NAME)" unfolding tool_keys QUERY_GRAPH_def by simp
  then have "map_of TOOL_DEFINITIONS_BY_NAME QUERY_GRAPH \<noteq> None" by (simp only: map_of_None_iff not_not)
  then show ?thesis by blast
qed

section \<open>Runs of calls\<close>

record ('g, 't) call =
  call_start :: real
  call_end :: real
  call_name :: pystr
  call_params :: "pyobj option"
  call_snapshot :: "('g, 't) graph_snapshot option"

definition serve_one ::
  "('g, 't) lib \<Rightarrow> ('g, 't) call \<Rightarrow> query_cache \<times> metrics option \<Rightarrow> query_cache \<times> metrics option" where
  "serve_one L c s =
     fst (snd (on_call_tool L (call_start c) (call_end c) (call_name c) (call_params c) (call_snapshot c) s))"

lemma serve_one_metrics:
  "snd (serve_one L c s) = map_option (record_latency ''query'' (call_end c - call_start c)) (snd s)"
  by (auto simp: serve_one_def on_call_tool_def split: prod.split)

lemma serve_metrics:
  "snd (fold (serve_one L) cs s) = map_option (fold (record_latency ''query'') (map (\<lambda>c. call_end c - call_start c) cs)) (snd s)"
  by (induction cs arbitrary: s) (simp_all add: serve_one_metrics option.map_comp comp_def option.map_id)

section \<open>Properties\<close>

text \<open>C12. Caching is invisible: for a valid \<open>query_graph\<close> call on a published snapshot, whatever the cache
  holds from earlier calls, the answer (or the failure) is exactly the one an uncached execution on
  that snapshot gives, and the cache stays faithful to the snapshots of its versions.\<close>

theorem cached_query_equals_uncached:
  assumes "filters_checked L" "empty_filters_neutral L" "valid_query L arguments"
    and "cache_faithful L snaps qc" "snaps (version s) = Some s"
    and "dispatch L QUERY_GRAPH (Some arguments) (Some s) qc = (r, qc', logged)"
  shows "cache_faithful L snaps qc' \<and>
    (case execute_tool L QUERY_GRAPH arguments s of
       Inr t \<Rightarrow> r = text_result t \<and> logged = None
     | Inl e \<Rightarrow> r = error_result (tool_failed_text QUERY_GRAPH) \<and> logged = Some e)"
proof -
  obtain t where t: "map_of TOOL_DEFINITIONS_BY_NAME QUERY_GRAPH = Some t" using query_tool_listed by blast
  obtain qc1 out where run: "run_tool L QUERY_GRAPH arguments s qc = (qc1, out)"
    by (cases "run_tool L QUERY_GRAPH arguments s qc")
  have v: "l_validate L arguments (input_schema t) = None" using assms(3) t by (simp add: valid_query_def)
  have "out = execute_tool L QUERY_GRAPH arguments s \<and> cache_faithful L snaps qc1"
  proof (cases "query_key (version s) arguments")
    case (Inl e)
    with run_tool_no_key [OF Inl, of L qc] run run_tool_key_error [OF assms(1,3) Inl] assms(4) show ?thesis by simp
  next
    case (Inr k)
    from run_tool_faithful [OF assms(1-5) run Inr] show ?thesis .
  qed
  with assms(6) t v run show ?thesis
    by (auto simp: dispatch_def split: sum.splits)
qed

definition empty_snapshot :: "(sample_graph, nat) graph_snapshot" where
  "empty_snapshot = \<lparr>graph = ([], []), trigram_index = 0, community_map = [], version = 1\<rparr>"

theorem cached_query_equals_uncached_witness:
  "fst (dispatch sample_lib QUERY_GRAPH (Some [(pstr ''question'', jstr ''why'')]) (Some empty_snapshot) (new_query_cache 8))
     = text_result (pstr ''whybfs'')"
proof -
  let ?a = "[(pstr ''question'', jstr ''why'')]"
  note n = query_tool_listed
  have h: "filters_checked sample_lib" "empty_filters_neutral sample_lib" "valid_query sample_lib ?a"
    using n by (auto simp: filters_checked_def valid_query_def empty_filters_neutral_def sample_lib_def)
  obtain r qc' logged where d: "dispatch sample_lib QUERY_GRAPH (Some ?a) (Some empty_snapshot) (new_query_cache 8) = (r, qc', logged)"
    by (cases "dispatch sample_lib QUERY_GRAPH (Some ?a) (Some empty_snapshot) (new_query_cache 8)")
  have "execute_tool sample_lib QUERY_GRAPH ?a empty_snapshot = Inr (pstr ''whybfs'')"
    by (simp add: execute_query tool_query_graph_def arg_def dict_index_def arg_get_def dict_get_def query_graph_text_def
        sample_lib_def pstr_def)
  with cached_query_equals_uncached [OF h cache_faithful_new _ d, of "\<lambda>v. Some empty_snapshot"] d
  show ?thesis by simp
qed

text \<open>Every call gets an answer, and a failing tool tells its client nothing: the answer is an error exactly when
  the tool is unknown, nothing is published, the arguments are invalid or the tool raised; in the
  last case the text is the fixed one for the tool's name, the same for every exception, while the
  exception goes to the log. Only \<open>query_graph\<close> touches the query cache.\<close>

theorem dispatch_outcome:
  assumes "dispatch L name params snapshot qc = (r, qc', logged)"
  shows "(is_error r \<longleftrightarrow>
      (case (map_of TOOL_DEFINITIONS_BY_NAME name, snapshot) of
         (Some t, Some s) \<Rightarrow>
           (let arguments = (case params of None \<Rightarrow> [] | Some a \<Rightarrow> a)
            in l_validate L arguments (input_schema t) \<noteq> None \<or> (\<exists>e. snd (run_tool L name arguments s qc) = Inl e))
       | _ \<Rightarrow> True))
    \<and> (logged \<noteq> None \<longrightarrow> r = error_result (tool_failed_text name))
    \<and> (name \<noteq> QUERY_GRAPH \<longrightarrow> qc' = qc)"
proof (cases "map_of TOOL_DEFINITIONS_BY_NAME name")
  case None
  with assms show ?thesis by (auto simp: dispatch_def error_result_def)
next
  case (Some t)
  show ?thesis
  proof (cases snapshot)
    case None
    with Some assms show ?thesis by (auto simp: dispatch_def error_result_def)
  next
    case s: (Some s)
    let ?a = "case params of None \<Rightarrow> [] | Some a \<Rightarrow> a"
    show ?thesis
    proof (cases "l_validate L ?a (input_schema t)")
      case None
      obtain qc1 out where run: "run_tool L name ?a s qc = (qc1, out)" by (cases "run_tool L name ?a s qc")
      have "name \<noteq> QUERY_GRAPH \<Longrightarrow> qc1 = qc" using run run_tool_other [of name L ?a s qc] by simp
      with Some s None run assms show ?thesis
        by (cases out) (auto simp: dispatch_def Let_def error_result_def text_result_def)
    next
      case bad: (Some message)
      with Some s assms show ?thesis by (auto simp: dispatch_def Let_def error_result_def)
    qed
  qed
qed

theorem dispatch_outcome_witness:
  "\<exists>r qc' logged. dispatch sample_lib (pstr ''get_node'') None
       (Some \<lparr>graph = ([], []), trigram_index = 0, community_map = [], version = 1\<rparr>) (new_query_cache 8) = (r, qc', logged)
     \<and> qc' = new_query_cache 8 \<and> r = error_result (tool_failed_text (pstr ''get_node''))"
proof -
  let ?s = "\<lparr>graph = ([], []), trigram_index = 0, community_map = [], version = 1\<rparr> :: (sample_graph, nat) graph_snapshot"
  obtain r qc' logged where d: "dispatch sample_lib (pstr ''get_node'') None (Some ?s) (new_query_cache 8) = (r, qc', logged)"
    by (cases "dispatch sample_lib (pstr ''get_node'') None (Some ?s) (new_query_cache 8)")
  have "snd (snd (dispatch sample_lib (pstr ''get_node'') None (Some ?s) (new_query_cache 8))) \<noteq> None"
    by (simp add: dispatch_def TOOL_DEFINITIONS_BY_NAME_def TOOL_DEFINITIONS_def sample_lib_def run_tool_def QUERY_GRAPH_def
        execute_tool_def TOOL_HANDLERS_def dict_index_def tool_get_node_def arg_def)
  then have "logged \<noteq> None" using d by simp
  with dispatch_outcome [OF d] d show ?thesis by (simp add: QUERY_GRAPH_def)
qed

text \<open>The latency window is what it claims: after any run of calls, hits, misses and failures alike, the
  \<open>query\<close> samples are the durations of the last \<open>latency_window\<close> calls, oldest first, and none is lost.\<close>

theorem latency_of_last_calls:
  assumes "dict_get (latencies m) ''query'' [] = []"
  shows "map_option (\<lambda>m'. dict_get (latencies m') ''query'' []) (snd (fold (serve_one L) calls (qc, Some m)))
    = Some (drop (length calls - latency_window m) (map (\<lambda>c. call_end c - call_start c) calls))"
  using latency_fold [of "''query''" "map (\<lambda>c. call_end c - call_start c) calls" m]
    deque_append_fold [of "[]" "latency_window m" "map (\<lambda>c. call_end c - call_start c) calls"] assms
  by (simp add: serve_metrics)

theorem latency_of_last_calls_witness:
  "map_option (\<lambda>m'. dict_get (latencies m') ''query'' [])
     (snd (fold (serve_one sample_lib)
        [\<lparr>call_start = 0, call_end = 1, call_name = [], call_params = None, call_snapshot = None\<rparr>,
         \<lparr>call_start = 2, call_end = 5, call_name = [], call_params = None, call_snapshot = None\<rparr>]
        (new_query_cache 8, Some (new_metrics 1)))) = Some [3]"
proof -
  have "dict_get (latencies (new_metrics 1)) ''query'' [] = []" by (simp add: new_metrics_def dict_get_def)
  from latency_of_last_calls [OF this, of sample_lib
      "[\<lparr>call_start = 0, call_end = 1, call_name = [], call_params = None, call_snapshot = None\<rparr>,
        \<lparr>call_start = 2, call_end = 5, call_name = [], call_params = None, call_snapshot = None\<rparr>]" "new_query_cache 8"]
  show ?thesis by (simp add: new_metrics_def)
qed

end
