(* ===== verification/Daemon.thy ===== *)
theory Daemon
  imports Vault_Index Dispatch
begin

text \<open>
  \<open>daemon.py\<close> and \<open>artifact_lifecycle/shutdown.py\<close>: the components in one record, the compilation
  of a batch, the idle cycle, and the life cycle RUNNING, STOPPING, STOPPED. Each operation here runs
  as the code runs it under the coordinator's lock, so it is one function on the record; which
  operations may interleave, and how, is in \<open>Daemon_Threads\<close>. What an operation meets outside the
  process (the vault, the clustering child, the clock) is its argument \<open>env\<close>.
\<close>

section \<open>The daemon\<close>

datatype daemon_state = RUNNING | STOPPING | STOPPED

text \<open>The states in the order the daemon goes through them.\<close>

fun lifecycle_rank :: "daemon_state \<Rightarrow> nat" where
  "lifecycle_rank RUNNING = 0"
| "lifecycle_rank STOPPING = 1"
| "lifecycle_rank STOPPED = 2"

instantiation daemon_state :: linorder
begin

definition less_eq_daemon_state :: "daemon_state \<Rightarrow> daemon_state \<Rightarrow> bool" where
  "s \<le> t \<longleftrightarrow> lifecycle_rank s \<le> lifecycle_rank t"

definition less_daemon_state :: "daemon_state \<Rightarrow> daemon_state \<Rightarrow> bool" where
  "s < t \<longleftrightarrow> lifecycle_rank s < lifecycle_rank t"

instance
proof
  fix s t :: daemon_state
  show "s \<le> t \<Longrightarrow> t \<le> s \<Longrightarrow> s = t"
    by (cases s; cases t) (simp_all add: less_eq_daemon_state_def)
qed (auto simp: less_eq_daemon_state_def less_daemon_state_def)

end

record config =
  cf_root :: pypath
  cf_paths :: daemon_paths
  cf_nested :: "pystr set"
  cf_debounce_ms :: int
  cf_quiet :: real
  cf_threshold :: int
  cf_lru_size :: int
  cf_pending_warn :: int

record ('g, 't) daemon =
  lifecycle :: daemon_state
  holder :: "('g, 't) snapshot_holder"
  cache :: extraction_cache
  registry :: "metrics option"
  queries :: query_cache
  tracker :: cadence_tracker
  index :: connection
  watch :: watcher
  disk_state :: disk
  warnings :: "pystr list"
  cluster_logs :: "cluster_log list"

record env =
  e_world :: world
  e_child :: child_env
  e_recorded :: real
  e_clock :: cadence_clock

definition artifacts_of :: "config \<Rightarrow> artifact_paths" where
  "artifacts_of cf =
     \<lparr>ap_graph_json = graph_json (cf_paths cf), ap_knowledge_md = knowledge_md (cf_paths cf),
      ap_graph_cache = graph_cache_json (cf_paths cf)\<rparr>"

text \<open>\<open>Daemon.__init__\<close>; \<open>stored\<close> is what \<open>vault_index.db\<close> holds already.\<close>

definition init_daemon :: "config \<Rightarrow> rows option \<Rightarrow> real \<Rightarrow> disk \<Rightarrow> disk \<times> ('g, 't) daemon res" where
  "init_daemon cf stored now d =
     (case mkdir_restricted (output_dir (cf_paths cf)) d of
        (d2, Inl e) \<Rightarrow> (d2, Inl e)
      | (d2, Inr v) \<Rightarrow>
          (case connect (vault_index_db (cf_paths cf)) stored d2 of
             (d3, Inl e) \<Rightarrow> (d3, Inl e)
           | (d3, Inr c) \<Rightarrow>
               (case init_schema c of
                  (c', Inl e) \<Rightarrow> (d3, Inl e)
                | (c', Inr u) \<Rightarrow>
                    (d3, Inr \<lparr>lifecycle = RUNNING, holder = new_holder, cache = empty_cache,
                       registry = Some (new_metrics DEFAULT_LATENCY_WINDOW), queries = new_query_cache (cf_lru_size cf),
                       tracker = new_tracker (cf_quiet cf) (cf_threshold cf) now, index = c',
                       watch = new_watcher (cf_root cf) (cf_debounce_ms cf) (cf_nested cf) (cf_pending_warn cf),
                       disk_state = d3, warnings = [], cluster_logs = []\<rparr>))))"

definition extract_state_of :: "('g, 't) daemon \<Rightarrow> extract_state" where
  "extract_state_of dm = \<lparr>x_cache = cache dm, x_metrics = registry dm, x_log = warnings dm\<rparr>"

definition put_extract_state :: "extract_state \<Rightarrow> ('g, 't) daemon \<Rightarrow> ('g, 't) daemon" where
  "put_extract_state st dm = dm\<lparr>cache := x_cache st, registry := x_metrics st, warnings := x_log st\<rparr>"

definition daemon_cold_start ::
  "('g, 't) lib \<Rightarrow> config \<Rightarrow> world \<Rightarrow> ('g, 't) daemon \<Rightarrow> ('g, 't) daemon \<times> unit res" where
  "daemon_cold_start L cf W dm =
     (let p = graph_cache_json (cf_paths cf);
          loaded = (if d_exists (disk_state dm) p then cache_load p (disk_state dm) else Inr (cache dm))
      in case loaded of
           Inl e \<Rightarrow> (dm, Inl e)
         | Inr c \<Rightarrow>
             (case cold_start L W (cf_root cf) (cf_nested cf) (extract_state_of (dm\<lparr>cache := c\<rparr>), holder dm) of
                ((st, h), r) \<Rightarrow>
                  ((put_extract_state st dm)\<lparr>holder := h\<rparr>, case r of Inl e \<Rightarrow> Inl e | Inr s \<Rightarrow> Inr ())))"

definition start_daemon :: "('g, 't) daemon \<Rightarrow> ('g, 't) daemon" where
  "start_daemon dm = dm\<lparr>watch := start_watcher (watch dm)\<rparr>"

section \<open>Compiling a batch\<close>

definition cadence_state_of :: "('g, 't) daemon \<Rightarrow> ('g, 't) cadence_state" where
  "cadence_state_of dm =
     \<lparr>s_tracker = tracker dm,
      s_cluster = \<lparr>c_holder = holder dm, c_metrics = registry dm, c_log = cluster_logs dm\<rparr>,
      s_disk = disk_state dm\<rparr>"

definition put_cadence_state :: "('g, 't) cadence_state \<Rightarrow> ('g, 't) daemon \<Rightarrow> ('g, 't) daemon" where
  "put_cadence_state s dm =
     dm\<lparr>tracker := s_tracker s, holder := c_holder (s_cluster s), registry := c_metrics (s_cluster s),
        cluster_logs := c_log (s_cluster s), disk_state := s_disk s\<rparr>"

definition daemon_cadence_cycle ::
  "('g, 't) lib \<Rightarrow> config \<Rightarrow> env \<Rightarrow> ('g, 't) daemon \<Rightarrow> ('g, 't) daemon \<times> bool res" where
  "daemon_cadence_cycle L cf E dm =
     (case run_slow_cadence_cycle L (e_child E) DEFAULT_CLUSTERING_TIMEOUT_SECONDS (e_clock E) (artifacts_of cf)
         (cache dm) (cadence_state_of dm) of
        (s, r) \<Rightarrow> (put_cadence_state s dm, r))"

text \<open>The publication of a batch's graph, with the communities of the snapshot before.\<close>

definition publish_batch :: "('g, 't) lib \<Rightarrow> ('g, 't) daemon \<Rightarrow> ('g, 't) daemon \<times> unit res" where
  "publish_batch L dm =
     (case build_graph L (cache dm) of
        Inl e \<Rightarrow> (dm, Inl e)
      | Inr g \<Rightarrow>
          let communities = (case current (holder dm) of None \<Rightarrow> [] | Some s \<Rightarrow> community_map s)
          in (dm\<lparr>holder := snd (publish L g communities (holder dm))\<rparr>, Inr ()))"

text \<open>The statements of \<open>_compile_batch\<close>.\<close>

definition extract_stage ::
  "config \<Rightarrow> env \<Rightarrow> batch \<Rightarrow> ('g, 't) daemon \<Rightarrow> ('g, 't) daemon \<times> unit res" where
  "extract_stage cf E b dm =
     (case extract_batch (e_world E) (cf_root cf) (cf_nested cf) b (extract_state_of dm) of
        (st, r) \<Rightarrow> (put_extract_state st dm, bindR r (\<lambda>rs. Inr ())))"

definition index_stage ::
  "config \<Rightarrow> env \<Rightarrow> batch \<Rightarrow> ('g, 't) daemon \<Rightarrow> ('g, 't) daemon \<times> unit res" where
  "index_stage cf E b dm =
     (case sync_batch (e_world E) b (cf_root cf) (cf_nested cf) (cache dm) (index dm) of
        (c, r) \<Rightarrow> (dm\<lparr>index := c\<rparr>, r))"

definition record_stage :: "env \<Rightarrow> batch \<Rightarrow> ('g, 't) daemon \<Rightarrow> ('g, 't) daemon \<times> unit res" where
  "record_stage E b dm =
     (dm\<lparr>tracker := record_batch (int (length (changes b))) (e_recorded E) (tracker dm)\<rparr>, Inr ())"

definition cadence_stage ::
  "('g, 't) lib \<Rightarrow> config \<Rightarrow> env \<Rightarrow> ('g, 't) daemon \<Rightarrow> ('g, 't) daemon \<times> unit res" where
  "cadence_stage L cf E dm =
     (case daemon_cadence_cycle L cf E dm of
        (dm', Inl e) \<Rightarrow> (dm', Inl e)
      | (dm', Inr triggered) \<Rightarrow>
          (dm'\<lparr>watch := (if triggered then cancel_idle (watch dm')
                         else schedule_idle (quiet_seconds (tracker dm')) (watch dm'))\<rparr>, Inr ()))"

definition compile_batch ::
  "('g, 't) lib \<Rightarrow> config \<Rightarrow> env \<Rightarrow> batch \<Rightarrow> ('g, 't) daemon \<Rightarrow> ('g, 't) daemon \<times> unit res" where
  "compile_batch L cf E b =
     run_all [extract_stage cf E b, index_stage cf E b, publish_batch L, record_stage E b, cadence_stage L cf E]"

text \<open>\<open>ShutdownCoordinator\<close>: both calls run their argument under the one lock.\<close>

definition coordinator_run_batch :: "('s \<Rightarrow> 's \<times> unit res) \<Rightarrow> 's \<Rightarrow> 's \<times> unit res" where
  "coordinator_run_batch fn = fn"

definition coordinator_shutdown :: "('s \<Rightarrow> 's \<times> unit res) \<Rightarrow> 's \<Rightarrow> 's \<times> unit res" where
  "coordinator_shutdown persist = persist"

definition on_batch ::
  "('g, 't) lib \<Rightarrow> config \<Rightarrow> env \<Rightarrow> batch \<Rightarrow> ('g, 't) daemon \<Rightarrow> ('g, 't) daemon \<times> unit res" where
  "on_batch L cf E b = coordinator_run_batch (consume (compile_batch L cf E) b)"

definition on_idle_cadence ::
  "('g, 't) lib \<Rightarrow> config \<Rightarrow> env \<Rightarrow> ('g, 't) daemon \<Rightarrow> ('g, 't) daemon \<times> unit res" where
  "on_idle_cadence L cf E = coordinator_run_batch
     (\<lambda>dm. case daemon_cadence_cycle L cf E dm of (dm', Inl e) \<Rightarrow> (dm', Inl e) | (dm', Inr b) \<Rightarrow> (dm', Inr ()))"

section \<open>Shutdown\<close>

definition persist_on_shutdown :: "('g, 't) lib \<Rightarrow> config \<Rightarrow> ('g, 't) daemon \<Rightarrow> ('g, 't) daemon \<times> unit res" where
  "persist_on_shutdown L cf dm =
     (case run_all (artifact_writers L (current (holder dm)) (cache dm) (artifacts_of cf)) (disk_state dm) of
        (d, Inl e) \<Rightarrow> (dm\<lparr>disk_state := d\<rparr>, Inl e)
      | (d, Inr u) \<Rightarrow> (dm\<lparr>disk_state := d, index := close_conn (index dm)\<rparr>, Inr ()))"

text \<open>The part of \<open>shutdown\<close> that compiles what the debounce window still held.\<close>

definition drain_and_compile ::
  "('g, 't) lib \<Rightarrow> config \<Rightarrow> env \<Rightarrow> ('g, 't) daemon \<Rightarrow> ('g, 't) daemon \<times> unit res" where
  "drain_and_compile L cf E dm =
     (case drain_pending_batch (reject_new_events (watch dm), registry dm) of
        (None, w, m) \<Rightarrow> (dm\<lparr>watch := w, registry := m\<rparr>, Inr ())
      | (Some b, w, m) \<Rightarrow>
          coordinator_run_batch (consume (compile_batch L cf E) b) (dm\<lparr>watch := w, registry := m\<rparr>))"

definition shutdown :: "('g, 't) lib \<Rightarrow> config \<Rightarrow> env \<Rightarrow> ('g, 't) daemon \<Rightarrow> ('g, 't) daemon \<times> unit res" where
  "shutdown L cf E dm =
     (if lifecycle dm \<noteq> RUNNING then (dm, Inr ())
      else case drain_and_compile L cf E (dm\<lparr>lifecycle := STOPPING\<rparr>) of
        (dm1, Inl e) \<Rightarrow> (dm1, Inl e)
      | (dm1, Inr u) \<Rightarrow>
          (case coordinator_shutdown (persist_on_shutdown L cf) (dm1\<lparr>watch := stop_watcher (watch dm1)\<rparr>) of
             (dm2, Inl e) \<Rightarrow> (dm2, Inl e)
           | (dm2, Inr u') \<Rightarrow> (dm2\<lparr>lifecycle := STOPPED\<rparr>, Inr ())))"

text \<open>
  \<open>run_forever\<close>: however serving ends (a normal return, the \<open>SystemExit\<close> of the signal handler, or an
  exception of \<open>transport.run\<close>), \<open>shutdown\<close> runs once in the \<open>finally\<close> block. An exception of
  \<open>shutdown\<close> replaces the one in flight.
\<close>

datatype exit_status = ExitNormal | ExitSignal | ExitRaised exn

definition run_forever ::
  "('g, 't) lib \<Rightarrow> config \<Rightarrow> env \<Rightarrow> exit_status \<Rightarrow> ('g, 't) daemon \<Rightarrow> ('g, 't) daemon \<times> exit_status" where
  "run_forever L cf E served dm =
     (case shutdown L cf E dm of (dm', Inl e) \<Rightarrow> (dm', ExitRaised e) | (dm', Inr u) \<Rightarrow> (dm', served))"

section \<open>The invariant of the running daemon\<close>

definition daemon_inv :: "('g, 't) lib \<Rightarrow> ('g, 't) daemon \<Rightarrow> bool" where
  "daemon_inv L dm \<longleftrightarrow> holder_ok L (holder dm) \<and> cache_ok (cache dm) \<and> query_cache_ok (queries dm) \<and>
     (\<forall>rs. files_table (index dm) = Some rs \<longrightarrow> dict_ok rs)"

text \<open>What readers may rely on from one moment to a later one.\<close>

definition later_reads :: "('g, 't) daemon \<Rightarrow> ('g, 't) daemon \<Rightarrow> bool" where
  "later_reads dm dm' \<longleftrightarrow> next_version (holder dm) \<le> next_version (holder dm') \<and>
     (current (holder dm) \<noteq> None \<longrightarrow> current (holder dm') \<noteq> None)"

lemma later_reads_refl [simp]: "holder dm' = holder dm \<Longrightarrow> later_reads dm dm'"
  by (simp add: later_reads_def)

lemma later_reads_trans: "later_reads a b \<Longrightarrow> later_reads b c \<Longrightarrow> later_reads a c"
  by (auto simp: later_reads_def)

lemma extract_and_cache_ok:
  "extract_and_cache W base p rel st = (st', r) \<Longrightarrow> cache_ok (x_cache st) \<Longrightarrow> cache_ok (x_cache st')"
  by (auto simp: extract_and_cache_def Let_def cache_ok_set split: sum.splits option.splits prod.splits if_splits)

lemma extract_change_ok:
  "extract_change W base nested c st = (st', r) \<Longrightarrow> cache_ok (x_cache st) \<Longrightarrow> cache_ok (x_cache st')"
  by (auto simp: extract_change_def Let_def cache_ok_delete intro: extract_and_cache_ok
      split: sum.splits change_kind.splits option.splits bool.splits)

lemma extract_batch_ok:
  "extract_batch W base nested b st = (st', r) \<Longrightarrow> cache_ok (x_cache st) \<Longrightarrow> cache_ok (x_cache st')"
proof -
  have "extract_changes W base nested cs rs st = (st', r) \<Longrightarrow> cache_ok (x_cache st) \<Longrightarrow> cache_ok (x_cache st')" for cs rs
    by (induction cs arbitrary: rs st)
      (auto split: prod.splits sum.splits option.splits dest: extract_change_ok)
  then show "extract_batch W base nested b st = (st', r) \<Longrightarrow> cache_ok (x_cache st) \<Longrightarrow> cache_ok (x_cache st')"
    by (simp add: extract_batch_def)
qed

lemma sync_batch_ok:
  assumes "sync_batch W b base nested ch c = (c', r)" "\<forall>rs. files_table c = Some rs \<longrightarrow> dict_ok rs"
  shows "\<forall>rs. files_table c' = Some rs \<longrightarrow> dict_ok rs"
  using assms
  by (auto simp: sync_batch_def with_conn_def bindR_Inr_iff row_store.inv_apply_ops
      dest!: sync_changes_ops split: if_splits sum.splits option.splits)

lemma holder_ok_publish_snd: "holder_ok L h \<Longrightarrow> holder_ok L (snd (publish L g cm h))"
  using holder_ok_publish by (metis surjective_pairing)

lemma publish_snd:
  "next_version (snd (publish L g cm h)) = next_version h + 1"
  "current (snd (publish L g cm h)) = Some (fst (publish L g cm h))"
  using publish_fields(1,2) [of L g cm h] by (metis surjective_pairing)+

lemma daemon_cadence_cycle_frame:
  assumes "daemon_cadence_cycle L cf E dm = (dm', r)"
  shows "cache dm' = cache dm" "queries dm' = queries dm" "index dm' = index dm" "watch dm' = watch dm"
    "lifecycle dm' = lifecycle dm" "holder_ok L (holder dm) \<Longrightarrow> holder_ok L (holder dm')" "later_reads dm dm'"
proof -
  obtain s where s: "run_slow_cadence_cycle L (e_child E) DEFAULT_CLUSTERING_TIMEOUT_SECONDS (e_clock E)
      (artifacts_of cf) (cache dm) (cadence_state_of dm) = (s, r)" and dm': "dm' = put_cadence_state s dm"
    using assms by (auto simp: daemon_cadence_cycle_def split: prod.splits)
  have c: "s_cluster s = s_cluster (cadence_state_of dm) \<or>
      (\<exists>u. run_clustering_cycle L (e_child E) DEFAULT_CLUSTERING_TIMEOUT_SECONDS (at_success (e_clock E))
        (s_cluster (cadence_state_of dm)) = (s_cluster s, u))"
    using s by (auto simp: run_slow_cadence_cycle_def split: if_splits prod.splits sum.splits)
  have h: "c_holder (s_cluster (cadence_state_of dm)) = holder dm" by (simp add: cadence_state_of_def)
  show "cache dm' = cache dm" "queries dm' = queries dm" "index dm' = index dm" "watch dm' = watch dm"
    "lifecycle dm' = lifecycle dm"
    by (simp_all add: dm' put_cadence_state_def)
  show "holder_ok L (holder dm')" if "holder_ok L (holder dm)"
    using c
  proof
    assume "s_cluster s = s_cluster (cadence_state_of dm)"
    with that h show ?thesis by (simp add: dm' put_cadence_state_def)
  next
    assume "\<exists>u. run_clustering_cycle L (e_child E) DEFAULT_CLUSTERING_TIMEOUT_SECONDS (at_success (e_clock E))
        (s_cluster (cadence_state_of dm)) = (s_cluster s, u)"
    then obtain u where "run_clustering_cycle L (e_child E) DEFAULT_CLUSTERING_TIMEOUT_SECONDS (at_success (e_clock E))
        (s_cluster (cadence_state_of dm)) = (s_cluster s, u)" by blast
    from cycle_holder_ok [OF _ this] that h show ?thesis by (simp add: dm' put_cadence_state_def)
  qed
  have "next_version (c_holder st) \<le> next_version (c_holder st')"
    if "run_clustering_cycle L E' tmo now st = (st', u)" for E' tmo now and st st' :: "('a, 'b) cluster_state" and u
    using that by (auto simp: run_clustering_cycle_def dest: publish_fields(2) split: option.splits sum.splits prod.splits)
  with c show "later_reads dm dm'"
    by (auto simp: later_reads_def dm' put_cadence_state_def h [symmetric] dest: cycle_keeps_published)
qed

lemma publish_batch_frame:
  assumes "publish_batch L dm = (dm', r)"
  shows "cache dm' = cache dm" "queries dm' = queries dm" "index dm' = index dm" "watch dm' = watch dm"
    "lifecycle dm' = lifecycle dm" "holder_ok L (holder dm) \<Longrightarrow> holder_ok L (holder dm')" "later_reads dm dm'"
proof -
  show "cache dm' = cache dm" "queries dm' = queries dm" "index dm' = index dm" "watch dm' = watch dm"
    "lifecycle dm' = lifecycle dm"
    using assms by (auto simp: publish_batch_def Let_def split: sum.splits)
  show "holder_ok L (holder dm')" if "holder_ok L (holder dm)"
    using assms that by (auto simp: publish_batch_def Let_def holder_ok_publish_snd split: sum.splits)
  show "later_reads dm dm'"
    using assms by (auto simp: publish_batch_def Let_def later_reads_def publish_snd split: sum.splits)
qed

text \<open>A statement that keeps the invariant, what readers rely on, the life cycle and the query cache.\<close>

definition safe_step :: "('g, 't) lib \<Rightarrow> (('g, 't) daemon \<Rightarrow> ('g, 't) daemon \<times> unit res) \<Rightarrow> bool" where
  "safe_step L f \<longleftrightarrow> (\<forall>dm. daemon_inv L dm \<longrightarrow>
     (let dm' = fst (f dm) in daemon_inv L dm' \<and> later_reads dm dm' \<and> lifecycle dm' = lifecycle dm \<and> queries dm' = queries dm))"

lemma safe_stepD:
  "safe_step L f \<Longrightarrow> daemon_inv L dm \<Longrightarrow> f dm = (dm', r) \<Longrightarrow>
     daemon_inv L dm' \<and> later_reads dm dm' \<and> lifecycle dm' = lifecycle dm \<and> queries dm' = queries dm"
  unfolding safe_step_def by (metis fst_conv)

lemma safe_run_all:
  assumes "\<forall>f \<in> set fs. safe_step L f"
  shows "safe_step L (run_all fs)"
  unfolding safe_step_def Let_def
proof (intro allI impI)
  fix dm :: "('a, 'b) daemon"
  assume i: "daemon_inv L dm"
  let ?P = "\<lambda>s. daemon_inv L s \<and> later_reads dm s \<and> lifecycle s = lifecycle dm \<and> queries s = queries dm"
  show "?P (fst (run_all fs dm))"
  proof (rule run_all_inv)
    show "?P dm" using i by simp
    show "?P (fst (f s))" if "f \<in> set fs" "?P s" for f s
      using that assms safe_stepD [of L f s "fst (f s)" "snd (f s)"] later_reads_trans [of dm s "fst (f s)"] by auto
  qed
qed

lemma safe_extract: "safe_step L (extract_stage cf E b)"
proof -
  have "cache_ok (x_cache st)" if "daemon_inv L dm"
    "extract_batch (e_world E) (cf_root cf) (cf_nested cf) b (extract_state_of dm) = (st, r)" for st r and dm :: "('a, 'b) daemon"
    using extract_batch_ok [OF that(2)] that(1) by (simp add: extract_state_of_def daemon_inv_def)
  then show ?thesis
    unfolding safe_step_def Let_def extract_stage_def
    by (auto simp: put_extract_state_def daemon_inv_def split: prod.split)
qed

lemma safe_index: "safe_step L (index_stage cf E b)"
  unfolding safe_step_def Let_def index_stage_def
  by (auto simp: daemon_inv_def dest: sync_batch_ok split: prod.split)

lemma safe_publish: "safe_step L (publish_batch L)"
  unfolding safe_step_def Let_def
proof (intro allI impI)
  fix dm :: "('a, 'b) daemon"
  assume i: "daemon_inv L dm"
  obtain dm' r where p: "publish_batch L dm = (dm', r)" by (cases "publish_batch L dm")
  from publish_batch_frame [OF p] i p
  show "daemon_inv L (fst (publish_batch L dm)) \<and> later_reads dm (fst (publish_batch L dm))
      \<and> lifecycle (fst (publish_batch L dm)) = lifecycle dm \<and> queries (fst (publish_batch L dm)) = queries dm"
    by (simp add: daemon_inv_def)
qed

lemma safe_record: "safe_step L (record_stage E b)"
  by (simp add: safe_step_def record_stage_def daemon_inv_def)

lemma cadence_cycle_safe:
  assumes "daemon_cadence_cycle L cf E dm = (dm', r)" "daemon_inv L dm"
  shows "daemon_inv L dm' \<and> later_reads dm dm' \<and> lifecycle dm' = lifecycle dm \<and> queries dm' = queries dm"
  using daemon_cadence_cycle_frame [OF assms(1)] assms(2) by (simp add: daemon_inv_def)

lemma daemon_inv_watch [simp]: "daemon_inv L (dm\<lparr>watch := w\<rparr>) = daemon_inv L dm"
  by (simp add: daemon_inv_def)

lemma later_reads_watch [simp]: "later_reads dm (dm'\<lparr>watch := w\<rparr>) = later_reads dm dm'"
  by (simp add: later_reads_def)

lemma safe_cadence: "safe_step L (cadence_stage L cf E)"
  unfolding safe_step_def Let_def cadence_stage_def
  by (auto dest: cadence_cycle_safe split: prod.split sum.split)

lemma safe_compile: "safe_step L (compile_batch L cf E b)"
  unfolding compile_batch_def
  by (rule safe_run_all) (simp add: safe_extract safe_index safe_publish safe_record safe_cadence)

section \<open>Steps of the daemon\<close>

text \<open>
  One step: a start-up phase, a file-system event, the batch of an expired debounce timer, an expired
  idle timer, a tool call, or \<open>shutdown\<close>; whatever it returns or raises. A cache file that is loaded
  is one that the daemon wrote.
\<close>

inductive daemon_step :: "('g, 't) lib \<Rightarrow> config \<Rightarrow> ('g, 't) daemon \<Rightarrow> ('g, 't) daemon \<Rightarrow> bool"
  for L :: "('g, 't) lib" and cf :: config where
  ds_cold: "(\<And>c. cache_load (graph_cache_json (cf_paths cf)) (disk_state dm) = Inr c \<Longrightarrow> cache_ok c) \<Longrightarrow>
     daemon_cold_start L cf W dm = (dm', r) \<Longrightarrow> daemon_step L cf dm dm'"
| ds_start: "daemon_step L cf dm (start_daemon dm)"
| ds_event: "queue_change c (watch dm, registry dm) = (w, m) \<Longrightarrow>
     daemon_step L cf dm (dm\<lparr>watch := w, registry := m\<rparr>)"
| ds_batch: "flush (watch dm, registry dm) = (Some b, w, m) \<Longrightarrow>
     on_batch L cf E b (dm\<lparr>watch := w, registry := m\<rparr>) = (dm', r) \<Longrightarrow> daemon_step L cf dm dm'"
| ds_idle: "on_idle_cadence L cf E dm = (dm', r) \<Longrightarrow> daemon_step L cf dm dm'"
| ds_call: "on_call_tool L t0 t1 name params (current (holder dm)) (queries dm, registry dm) = (res, (q, m), logged) \<Longrightarrow>
     daemon_step L cf dm (dm\<lparr>queries := q, registry := m\<rparr>)"
| ds_shutdown: "shutdown L cf E dm = (dm', r) \<Longrightarrow> daemon_step L cf dm dm'"

text \<open>What holds from any state to any later one.\<close>

definition forward :: "('g, 't) daemon \<Rightarrow> ('g, 't) daemon \<Rightarrow> bool" where
  "forward dm dm' \<longleftrightarrow> later_reads dm dm' \<and> lifecycle dm \<le> lifecycle dm'"

lemma forward_refl [simp]: "forward dm dm"
  by (simp add: forward_def)

lemma forward_trans: "forward a b \<Longrightarrow> forward b c \<Longrightarrow> forward a c"
  by (auto simp: forward_def intro: later_reads_trans)

lemma cold_walk_ok:
  "cold_walk W base nested ps obs st = (st', r) \<Longrightarrow> cache_ok (x_cache st) \<Longrightarrow> cache_ok (x_cache st')"
proof -
  have f: "cold_file W base p rel st = (st', r) \<Longrightarrow> cache_ok (x_cache st) \<Longrightarrow> cache_ok (x_cache st')" for p rel st st' r
    by (auto simp: cold_file_def Let_def cache_ok_set split: sum.splits if_splits option.splits prod.splits)
  have p: "cold_path W base nested p st = (st', r) \<Longrightarrow> cache_ok (x_cache st) \<Longrightarrow> cache_ok (x_cache st')" for p st st' r
    by (auto simp: cold_path_def intro: f split: if_splits sum.splits bool.splits option.splits prod.splits)
  show "cold_walk W base nested ps obs st = (st', r) \<Longrightarrow> cache_ok (x_cache st) \<Longrightarrow> cache_ok (x_cache st')"
    by (induction ps arbitrary: obs st) (auto split: prod.splits sum.splits option.splits dest: p)
qed

lemma drop_ok: "cache_ok c \<Longrightarrow> cache_ok (drop_unobserved obs c)"
proof -
  have "cache_ok c \<Longrightarrow> cache_ok (fold (\<lambda>p c. if p \<notin> set obs then cache_delete p c else c) ks c)" for ks c
    by (induction ks arbitrary: c) (auto intro: cache_ok_delete)
  then show "cache_ok c \<Longrightarrow> cache_ok (drop_unobserved obs c)" by (simp add: drop_unobserved_def)
qed

lemma cold_start_safe:
  assumes "cold_start L W base nested (st, h) = ((st', h'), r)" "cache_ok (x_cache st)" "holder_ok L h"
  shows "cache_ok (x_cache st') \<and> holder_ok L h' \<and> next_version h \<le> next_version h'
    \<and> (current h \<noteq> None \<longrightarrow> current h' \<noteq> None)"
proof -
  obtain st1 w where w: "cold_walk W base nested (w_rglob W base) [] st = (st1, w)"
    by (cases "cold_walk W base nested (w_rglob W base) [] st")
  have c: "cache_ok (x_cache st1)" using cold_walk_ok [OF w assms(2)] .
  show ?thesis
  proof (cases w)
    case (Inl e)
    with w assms c show ?thesis by (auto simp: cold_start_def)
  next
    case (Inr obs)
    define st2 where "st2 = st1\<lparr>x_cache := drop_unobserved obs (x_cache st1)\<rparr>"
    have c2: "cache_ok (x_cache st2)" using drop_ok [OF c, of obs] by (simp add: st2_def)
    show ?thesis
    proof (cases "build_graph L (x_cache st2)")
      case (Inl e)
      with Inr w assms c2 show ?thesis by (auto simp: cold_start_def st2_def Let_def)
    next
      case g: (Inr g)
      obtain s h2 where p: "publish L g [] h = (s, h2)" by (cases "publish L g [] h")
      from Inr w assms(1) g p have "st' = st2" "h' = h2" by (auto simp: cold_start_def st2_def Let_def)
      with c2 publish_fields(1,2) [OF p] holder_ok_publish [OF assms(3) p] show ?thesis by simp
    qed
  qed
qed

lemma daemon_cold_start_safe:
  assumes "daemon_cold_start L cf W dm = (dm', r)" "daemon_inv L dm"
    and "\<And>c. cache_load (graph_cache_json (cf_paths cf)) (disk_state dm) = Inr c \<Longrightarrow> cache_ok c"
  shows "daemon_inv L dm' \<and> forward dm dm'"
proof -
  let ?p = "graph_cache_json (cf_paths cf)"
  let ?load = "if d_exists (disk_state dm) ?p then cache_load ?p (disk_state dm) else Inr (cache dm)"
  show ?thesis
  proof (cases ?load)
    case (Inl e)
    with assms(1,2) show ?thesis by (simp add: daemon_cold_start_def Let_def del: list.set_map)
  next
    case (Inr c)
    then have ok: "cache_ok c" using assms(2,3) by (auto simp: daemon_inv_def split: if_splits)
    obtain st h r' where s: "cold_start L W (cf_root cf) (cf_nested cf) (extract_state_of (dm\<lparr>cache := c\<rparr>), holder dm) = ((st, h), r')"
      by (metis surjective_pairing)
    from cold_start_safe [OF s] ok assms(2)
    have "cache_ok (x_cache st) \<and> holder_ok L h \<and> next_version (holder dm) \<le> next_version h
        \<and> (current (holder dm) \<noteq> None \<longrightarrow> current h \<noteq> None)"
      by (simp add: extract_state_of_def daemon_inv_def)
    moreover have "dm' = (put_extract_state st dm)\<lparr>holder := h\<rparr>"
      using assms(1) Inr s by (simp add: daemon_cold_start_def Let_def del: list.set_map)
    ultimately show ?thesis
      using assms(2) by (simp add: daemon_inv_def put_extract_state_def forward_def later_reads_def)
  qed
qed

lemma on_call_tool_queries:
  assumes "on_call_tool L t0 t1 name params s (q, m) = (res, (q', m'), logged)" "query_cache_ok q"
  shows "query_cache_ok q'"
proof -
  have "query_cache_ok qc'" if "run_tool L name a sn q = (qc', out)" for a sn qc' out
    using that assms(2) query_get_ok [OF assms(2)]
    by (auto simp: run_tool_def intro!: query_set_ok split: if_splits sum.splits prod.splits option.splits) (metis snd_conv)+
  with assms show ?thesis
    by (auto simp: on_call_tool_def dispatch_def Let_def split: option.splits prod.splits sum.splits)
qed

lemma daemon_inv_registry [simp]: "daemon_inv L (dm\<lparr>registry := m\<rparr>) = daemon_inv L dm"
  by (simp add: daemon_inv_def)

lemma safe_forward:
  "daemon_inv L dm' \<and> later_reads dm dm' \<and> lifecycle dm' = lifecycle dm \<and> queries dm' = queries dm \<Longrightarrow>
     daemon_inv L dm' \<and> forward dm dm'"
  by (simp add: forward_def)

lemma persist_safe:
  "persist_on_shutdown L cf dm = (dm', r) \<Longrightarrow> daemon_inv L dm \<Longrightarrow>
     daemon_inv L dm' \<and> later_reads dm dm' \<and> lifecycle dm' = lifecycle dm \<and> queries dm' = queries dm"
  by (auto simp: persist_on_shutdown_def daemon_inv_def close_conn_def later_reads_def split: prod.splits sum.splits)

lemma drain_safe:
  assumes "drain_and_compile L cf E dm = (dm', r)" "daemon_inv L dm"
  shows "daemon_inv L dm' \<and> later_reads dm dm' \<and> lifecycle dm' = lifecycle dm \<and> queries dm' = queries dm"
proof -
  obtain bo w m where d: "drain_pending_batch (reject_new_events (watch dm), registry dm) = (bo, w, m)"
    by (metis surjective_pairing)
  let ?dm = "dm\<lparr>watch := w, registry := m\<rparr>"
  have i: "daemon_inv L ?dm" "later_reads dm ?dm" using assms(2) by (simp_all add: daemon_inv_def)
  show ?thesis
  proof (cases bo)
    case None
    with d assms(1) have "dm' = ?dm" by (simp add: drain_and_compile_def)
    with i show ?thesis by simp
  next
    case (Some b)
    with d assms(1) have "compile_batch L cf E b ?dm = (dm', r)"
      by (simp add: drain_and_compile_def coordinator_run_batch_def consume_def)
    from safe_stepD [OF safe_compile i(1) this] i(2) show ?thesis by (auto simp: later_reads_def)
  qed
qed

text \<open>The statements of \<open>shutdown\<close> after the state check.\<close>

lemma shutdown_running:
  assumes "lifecycle dm = RUNNING"
  shows "shutdown L cf E dm =
    (case drain_and_compile L cf E (dm\<lparr>lifecycle := STOPPING\<rparr>) of
        (dm1, Inl e) \<Rightarrow> (dm1, Inl e)
      | (dm1, Inr u) \<Rightarrow>
          (case persist_on_shutdown L cf (dm1\<lparr>watch := stop_watcher (watch dm1)\<rparr>) of
             (dm2, Inl e) \<Rightarrow> (dm2, Inl e)
           | (dm2, Inr u') \<Rightarrow> (dm2\<lparr>lifecycle := STOPPED\<rparr>, Inr ())))"
  using assms by (simp add: shutdown_def coordinator_shutdown_def)

lemma shutdown_safe:
  assumes "shutdown L cf E dm = (dm', r)" "daemon_inv L dm"
  shows "daemon_inv L dm' \<and> forward dm dm'"
proof (cases "lifecycle dm = RUNNING")
  case False
  with assms show ?thesis by (simp add: shutdown_def)
next
  case True
  let ?dm0 = "dm\<lparr>lifecycle := STOPPING\<rparr>"
  have i0: "daemon_inv L ?dm0" using assms(2) by (simp add: daemon_inv_def)
  obtain dm1 r1 where d: "drain_and_compile L cf E ?dm0 = (dm1, r1)" by (cases "drain_and_compile L cf E ?dm0")
  note s1 = drain_safe [OF d i0]
  let ?dm1 = "dm1\<lparr>watch := stop_watcher (watch dm1)\<rparr>"
  have i1: "daemon_inv L ?dm1" using s1 by simp
  obtain dm2 r2 where p: "persist_on_shutdown L cf ?dm1 = (dm2, r2)" by (cases "persist_on_shutdown L cf ?dm1")
  note s2 = persist_safe [OF p i1]
  from shutdown_running [OF True, of L cf E] d p assms(1) have "dm' \<in> {dm1, dm2, dm2\<lparr>lifecycle := STOPPED\<rparr>}"
    by (cases r1; cases r2) auto
  moreover have "daemon_inv L dm1 \<and> later_reads dm dm1" using s1 by (simp add: later_reads_def)
  moreover have "daemon_inv L dm2 \<and> later_reads dm dm2" using s1 s2 by (simp add: later_reads_def)
  ultimately show ?thesis
    using True by (auto simp: daemon_inv_def forward_def later_reads_def less_eq_daemon_state_def)
qed

lemma daemon_step_safe:
  assumes "daemon_step L cf dm dm'" "daemon_inv L dm"
  shows "daemon_inv L dm' \<and> forward dm dm'"
  using assms(1)
proof cases
  case (ds_cold W r)
  from daemon_cold_start_safe [OF ds_cold(2) assms(2) ds_cold(1)] show ?thesis by blast
next
  case ds_start
  with assms(2) show ?thesis by (simp add: start_daemon_def forward_def)
next
  case (ds_event c w m)
  with assms(2) show ?thesis by (simp add: daemon_inv_def forward_def later_reads_def)
next
  case (ds_batch b w m E r)
  have i: "daemon_inv L (dm\<lparr>watch := w, registry := m\<rparr>)" using assms(2) by (simp add: daemon_inv_def)
  have c: "compile_batch L cf E b (dm\<lparr>watch := w, registry := m\<rparr>) = (dm', r)"
    using ds_batch(2) by (simp add: on_batch_def coordinator_run_batch_def consume_def)
  from safe_stepD [OF safe_compile i c] show ?thesis by (simp add: forward_def later_reads_def)
next
  case (ds_idle E r)
  then obtain r' where "daemon_cadence_cycle L cf E dm = (dm', r')"
    by (auto simp: on_idle_cadence_def coordinator_run_batch_def split: prod.splits sum.splits)
  from cadence_cycle_safe [OF this assms(2)] show ?thesis by (rule safe_forward)
next
  case (ds_call t0 t1 name params res q m logged)
  with on_call_tool_queries [OF ds_call(2)] assms(2) show ?thesis
    by (simp add: daemon_inv_def forward_def later_reads_def)
next
  case (ds_shutdown E r)
  from shutdown_safe [OF ds_shutdown assms(2)] show ?thesis .
qed

text \<open>What \<open>Daemon.__init__\<close> yields; a stored index has one row per path.\<close>

definition daemon_init :: "config \<Rightarrow> ('g, 't) daemon \<Rightarrow> bool" where
  "daemon_init cf dm \<longleftrightarrow> (\<exists>stored now d d'. init_daemon cf stored now d = (d', Inr dm) \<and>
     (\<forall>rs. stored = Some rs \<longrightarrow> dict_ok rs))"

lemma connect_result:
  "connect p stored d = (d', Inr c) \<Longrightarrow>
     c = \<lparr>files_table = stored, busy_timeout = MIN_BUSY_TIMEOUT_MS, conn_open = True\<rparr>"
  by (auto simp: connect_def split: sum.splits prod.splits)

lemma init_schema_result:
  "init_schema c = (c', Inr u) \<Longrightarrow> conn_open c \<Longrightarrow>
     c' = c\<lparr>files_table := Some (case files_table c of None \<Rightarrow> [] | Some rs \<Rightarrow> rs)\<rparr>"
  by (simp add: init_schema_def with_conn_def)

lemma init_daemon_result:
  assumes "init_daemon cf stored now d = (d', Inr dm)"
  shows "dm = \<lparr>lifecycle = RUNNING, holder = new_holder, cache = empty_cache,
     registry = Some (new_metrics DEFAULT_LATENCY_WINDOW), queries = new_query_cache (cf_lru_size cf),
     tracker = new_tracker (cf_quiet cf) (cf_threshold cf) now,
     index = \<lparr>files_table = Some (case stored of None \<Rightarrow> [] | Some rs \<Rightarrow> rs), busy_timeout = MIN_BUSY_TIMEOUT_MS, conn_open = True\<rparr>,
     watch = new_watcher (cf_root cf) (cf_debounce_ms cf) (cf_nested cf) (cf_pending_warn cf),
     disk_state = d', warnings = [], cluster_logs = []\<rparr>"
proof -
  obtain d2 v where r: "mkdir_restricted (output_dir (cf_paths cf)) d = (d2, Inr v)"
    using assms by (auto simp: init_daemon_def split: prod.splits sum.splits)
  obtain d3 c where c: "connect (vault_index_db (cf_paths cf)) stored d2 = (d3, Inr c)"
    using assms r by (auto simp: init_daemon_def split: sum.splits prod.splits)
  obtain c' u where i: "init_schema c = (c', Inr u)"
    using assms r c by (auto simp: init_daemon_def split: sum.splits prod.splits)
  from connect_result [OF c] init_schema_result [OF i]
  have "c' = \<lparr>files_table = Some (case stored of None \<Rightarrow> [] | Some rs \<Rightarrow> rs), busy_timeout = MIN_BUSY_TIMEOUT_MS, conn_open = True\<rparr>"
    by simp
  with assms r c i show ?thesis by (auto simp: init_daemon_def)
qed

text \<open>What construction does to the disk: it makes the output directory, then opens the index in it.\<close>

lemma init_daemon_cases:
  assumes "init_daemon cf stored now d = (d', r)"
  obtains (mkdir) e where "mkdir_restricted (output_dir (cf_paths cf)) d = (d', Inl e)" "r = Inl e"
    | (connects) d2 rc where "mkdir_restricted (output_dir (cf_paths cf)) d = (d2, Inr ())"
        "connect (vault_index_db (cf_paths cf)) stored d2 = (d', rc)" "\<forall>e. r = Inl e \<longleftrightarrow> rc = Inl e"
proof (cases "mkdir_restricted (output_dir (cf_paths cf)) d")
  case (Pair d2 v)
  show thesis
  proof (cases v)
    case (Inl e)
    with Pair assms mkdir show thesis by (simp add: init_daemon_def)
  next
    case (Inr u)
    obtain d3 rc where c: "connect (vault_index_db (cf_paths cf)) stored d2 = (d3, rc)"
      by (cases "connect (vault_index_db (cf_paths cf)) stored d2")
    have "d' = d3 \<and> (\<forall>e. r = Inl e \<longleftrightarrow> rc = Inl e)"
      using assms Pair Inr c by (cases rc) (auto simp: init_daemon_def init_schema_def with_conn_def dest: connect_result split: if_splits)
    with connects Pair Inr c show thesis by simp
  qed
qed

lemma daemon_init_inv:
  assumes "daemon_init cf dm"
  shows "daemon_inv L dm" "lifecycle dm = RUNNING" "pending (watch dm) = []" "current (holder dm) = None"
proof -
  from assms obtain stored now d d' where i: "init_daemon cf stored now d = (d', Inr dm)"
    and ok: "\<forall>rs. stored = Some rs \<longrightarrow> dict_ok rs" by (auto simp: daemon_init_def)
  show "daemon_inv L dm" "lifecycle dm = RUNNING" "pending (watch dm) = []" "current (holder dm) = None"
    using ok by (auto simp: init_daemon_result [OF i] daemon_inv_def new_watcher_def split: option.split)
      (simp add: new_holder_def)
qed

interpretation running: transition_system "daemon_init cf" "daemon_step L cf" "daemon_inv L"
  for L cf
  by unfold_locales (auto simp: daemon_init_inv daemon_step_safe)

lemma steps_forward: "(daemon_step L cf)\<^sup>*\<^sup>* dm dm' \<Longrightarrow> daemon_inv L dm \<Longrightarrow> forward dm dm'"
proof (induction rule: rtranclp_induct)
  case (step y z)
  have "daemon_inv L y" using running.inv_steps [OF step(1) step(4)] .
  with daemon_step_safe [OF step(2)] step.IH [OF step(4)] show ?case by (blast intro: forward_trans)
qed simp

section \<open>The watcher through a batch\<close>

text \<open>Compiling touches only the watcher's idle timer.\<close>

lemma compile_watch:
  assumes "compile_batch L cf E b dm = (dm', r)"
  shows "pending (watch dm') = pending (watch dm) \<and> rejecting_events (watch dm') = rejecting_events (watch dm)
    \<and> flush_timer (watch dm') = flush_timer (watch dm)"
proof -
  let ?P = "\<lambda>s. pending (watch s) = pending (watch dm) \<and> rejecting_events (watch s) = rejecting_events (watch dm)
    \<and> flush_timer (watch s) = flush_timer (watch dm)"
  have w: "watch s' = watch s" if "daemon_cadence_cycle L cf E s = (s', r)" for s s' r
    using daemon_cadence_cycle_frame(4) [OF that] .
  have "?P (fst (compile_batch L cf E b dm))"
    unfolding compile_batch_def
  proof (rule run_all_inv)
    fix f and s :: "('a, 'b) daemon"
    assume f: "f \<in> set [extract_stage cf E b, index_stage cf E b, publish_batch L, record_stage E b, cadence_stage L cf E]"
      and P: "?P s"
    have "?P (fst (extract_stage cf E b s))" "?P (fst (index_stage cf E b s))" "?P (fst (record_stage E b s))"
      using P by (simp_all add: extract_stage_def put_extract_state_def index_stage_def record_stage_def split: prod.split)
    moreover have "?P (fst (publish_batch L s))"
      using P by (simp add: publish_batch_def Let_def split: sum.split)
    moreover have "?P (fst (cadence_stage L cf E s))"
      using P by (auto simp: cadence_stage_def cancel_idle_def frame_simps dest!: w split: prod.split sum.split)
    ultimately show "?P (fst (f s))" using f by auto
  qed simp
  with assms show ?thesis by simp
qed

section \<open>Properties\<close>

text \<open>C24. The daemon's invariant survives everything, failures included: in every state a run reaches from
  \<open>__init__\<close>, the published snapshot has the index of its own graph and an older version than the next one, the
  cache has one entry per file and no modification time without an entry, the query cache is within
  its bound, and the index table has one row per path. And readers only ever move forward: from any
  reachable state on, versions never decrease, a ready daemon stays ready, and the life cycle never
  goes back.\<close>

theorem daemon_run_invariant:
  assumes "daemon_init cf dm0" "(daemon_step L cf)\<^sup>*\<^sup>* dm0 dm" "(daemon_step L cf)\<^sup>*\<^sup>* dm dm'"
  shows "daemon_inv L dm \<and> daemon_inv L dm' \<and> next_version (holder dm) \<le> next_version (holder dm')
    \<and> (ready (health_check (holder dm)) \<longrightarrow> ready (health_check (holder dm')))
    \<and> lifecycle dm \<le> lifecycle dm'"
proof -
  have i: "daemon_inv L dm" by (rule running.reachable_inv [OF assms(1,2)])
  from running.inv_steps [OF assms(3) i] steps_forward [OF assms(3) i] i show ?thesis
    by (simp add: forward_def later_reads_def health_check_def)
qed

definition sample_config :: config where
  "sample_config =
     \<lparr>cf_root = sample_root, cf_paths = \<lparr>output_dir = PyPath [slash] [pstr ''out'']\<rparr>, cf_nested = {}, cf_debounce_ms = 300,
      cf_quiet = 60, cf_threshold = 25, cf_lru_size = 8, cf_pending_warn = 200\<rparr>"

lemma sample_init: "\<exists>d dm :: (sample_graph, nat) daemon. init_daemon sample_config None 0 sample_disk = (d, Inr dm)"
proof -
  have "case init_daemon sample_config None 0 sample_disk of (d, r :: (sample_graph, nat) daemon res) \<Rightarrow>
      (case r of Inr dm \<Rightarrow> True | Inl e \<Rightarrow> False)"
    by code_simp
  then show ?thesis by (auto split: prod.splits sum.splits)
qed

theorem daemon_run_invariant_witness:
  "\<exists>dm :: (sample_graph, nat) daemon. daemon_init sample_config dm \<and> daemon_inv sample_lib (start_daemon dm)"
proof -
  obtain d and dm :: "(sample_graph, nat) daemon" where "init_daemon sample_config None 0 sample_disk = (d, Inr dm)"
    using sample_init by blast
  then have i: "daemon_init sample_config dm" unfolding daemon_init_def by blast
  have s: "(daemon_step sample_lib sample_config)\<^sup>*\<^sup>* dm (start_daemon dm)"
    by (rule r_into_rtranclp) (rule ds_start)
  from daemon_run_invariant [OF i rtranclp.rtrancl_refl s] i show ?thesis by blast
qed

lemma compile_batch_stages:
  assumes "compile_batch L cf E b dm = (dm', Inr u)"
  obtains st rs c g dm4 where
    "extract_batch (e_world E) (cf_root cf) (cf_nested cf) b (extract_state_of dm) = (st, Inr rs)"
    "sync_batch (e_world E) b (cf_root cf) (cf_nested cf) (x_cache st) (index dm) = (c, Inr ())"
    "build_graph L (x_cache st) = Inr g"
    "cache dm' = x_cache st" "index dm' = c" "holder dm4 = snd (publish L g
       (case current (holder dm) of None \<Rightarrow> [] | Some s \<Rightarrow> community_map s) (holder dm))"
    "later_reads dm4 dm'" "cadence_stage L cf E dm4 = (dm', Inr ())"
    "tracker dm4 = record_batch (int (length (changes b))) (e_recorded E) (tracker dm)"
    "disk_state dm4 = disk_state dm" "cache dm4 = x_cache st"
proof -
  obtain st rs where x: "extract_batch (e_world E) (cf_root cf) (cf_nested cf) b (extract_state_of dm) = (st, Inr rs)"
    using assms by (auto simp: compile_batch_def extract_stage_def bindR_Inl_iff bindR_Inr_iff split: prod.splits sum.splits)
  define dm1 where "dm1 = put_extract_state st dm"
  have e1: "extract_stage cf E b dm = (dm1, Inr ())" using x by (simp add: extract_stage_def dm1_def)
  obtain c where y: "sync_batch (e_world E) b (cf_root cf) (cf_nested cf) (cache dm1) (index dm1) = (c, Inr ())"
    using assms e1 by (auto simp: compile_batch_def index_stage_def split: prod.splits sum.splits)
  define dm2 where "dm2 = dm1\<lparr>index := c\<rparr>"
  have e2: "index_stage cf E b dm1 = (dm2, Inr ())" using y by (simp add: index_stage_def dm2_def)
  obtain g where g: "build_graph L (cache dm2) = Inr g"
    using assms e1 e2 by (auto simp: compile_batch_def publish_batch_def split: prod.splits sum.splits)
  define dm3 where "dm3 = fst (publish_batch L dm2)"
  have e3: "publish_batch L dm2 = (dm3, Inr ())" using g by (simp add: publish_batch_def Let_def dm3_def)
  define dm4 where "dm4 = fst (record_stage E b dm3)"
  have e4: "record_stage E b dm3 = (dm4, Inr ())" by (simp add: record_stage_def dm4_def)
  have e5: "cadence_stage L cf E dm4 = (dm', Inr ())"
    using assms e1 e2 e3 e4 by (auto simp: compile_batch_def split: prod.splits sum.splits)
  have w: "cache s' = cache s" "index s' = index s" "later_reads s s'"
    if "cadence_stage L cf E s = (s', Inr ())" for s s'
    using that by (auto simp: cadence_stage_def daemon_cadence_cycle_frame split: prod.splits sum.splits)
  from g have h: "holder dm4 = snd (publish L g (case current (holder dm) of None \<Rightarrow> [] | Some s \<Rightarrow> community_map s) (holder dm))"
    by (simp add: dm4_def record_stage_def dm3_def publish_batch_def Let_def dm2_def dm1_def put_extract_state_def)
  have f: "cache dm4 = x_cache st" "index dm4 = c" "disk_state dm4 = disk_state dm"
    "tracker dm4 = record_batch (int (length (changes b))) (e_recorded E) (tracker dm)"
    using g by (simp_all add: dm4_def record_stage_def dm3_def publish_batch_def Let_def dm2_def dm1_def put_extract_state_def)
  show thesis
    by (rule that [OF x _ _ _ _ h w(3) [OF e5] e5 f(4,3,1)])
      (use y g w(1,2) [OF e5] f in \<open>simp_all add: dm1_def dm2_def put_extract_state_def\<close>)
qed


definition sample_env :: env where
  "sample_env =
     \<lparr>e_world = sample_world, e_child = sample_child, e_recorded = 1,
      e_clock = \<lparr>at_trigger = 2, at_success = 3, at_reset = 4\<rparr>\<rparr>"

definition sample_daemon :: "file_change list \<Rightarrow> (sample_graph, nat) daemon" where
  "sample_daemon cs =
     \<lparr>lifecycle = RUNNING, holder = new_holder, cache = empty_cache, registry = None, queries = new_query_cache 8,
      tracker = new_tracker 60 25 0,
      index = \<lparr>files_table = Some [], busy_timeout = MIN_BUSY_TIMEOUT_MS, conn_open = True\<rparr>,
      watch = (new_watcher sample_root 300 {} 200)\<lparr>pending := cs\<rparr>, disk_state = sample_disk, warnings = [], cluster_logs = []\<rparr>"

lemma sample_daemon_inv: "daemon_inv sample_lib (sample_daemon cs)"
  by (simp add: daemon_inv_def sample_daemon_def)



definition quiet_env :: env where
  "quiet_env = sample_env\<lparr>e_clock := \<lparr>at_trigger = 61, at_success = 62, at_reset = 63\<rparr>\<rparr>"


text \<open>C15. Shutdown finishes the work and is idempotent: from RUNNING, when the drained batch compiles and
  the artifacts can be written, every change that was pending has been compiled in one batch, no
  event is accepted and no timer of the watcher is left, \<open>graph.json\<close>, \<open>KNOWLEDGE.md\<close> and
  \<open>graph_cache.json\<close> hold the final snapshot and cache, the index is closed, the state is STOPPED, and
  a further call changes nothing.\<close>

theorem shutdown_completes:
  assumes "lifecycle dm = RUNNING" "drain_and_compile L cf E (dm\<lparr>lifecycle := STOPPING\<rparr>) = (dm1, Inr u)"
    and "artifact_dirs_ok (artifacts_of cf) (disk_state dm1)" "\<forall>s. current (holder dm1) = Some s \<longrightarrow> renderable L s"
    and "shutdown L cf E dm = (dm', r)"
  shows "r = Inr () \<and> lifecycle dm' = STOPPED \<and> shutdown L cf E' dm' = (dm', Inr ())
    \<and> (pending (watch dm) \<noteq> [] \<longrightarrow> (\<exists>dm0. compile_batch L cf E \<lparr>changes = pending (watch dm)\<rparr> dm0 = (dm1, Inr u)))
    \<and> pending (watch dm') = [] \<and> rejecting_events (watch dm') \<and> \<not> observing (watch dm')
    \<and> flush_timer (watch dm') = None \<and> idle_timer (watch dm') = None \<and> \<not> conn_open (index dm')
    \<and> map_of (d_files (disk_state dm')) (graph_cache_json (cf_paths cf)) = Some (JsonFile (cache_json (cache dm')))
    \<and> (\<forall>s j. current (holder dm') = Some s \<longrightarrow> graph_json_of L s = Inr j \<longrightarrow>
         map_of (d_files (disk_state dm')) (graph_json (cf_paths cf)) = Some (JsonFile j)
         \<and> map_of (d_files (disk_state dm')) (knowledge_md (cf_paths cf)) = Some (TextFile (generate_knowledge_md L s)))"
proof -
  let ?dm1 = "dm1\<lparr>watch := stop_watcher (watch dm1)\<rparr>"
  from write_artifacts [OF assms(3,4), of "cache dm1"]
  obtain d where d: "run_all (artifact_writers L (current (holder dm1)) (cache dm1) (artifacts_of cf)) (disk_state dm1) = (d, Inr ())"
    and f: "map_of (d_files d) (graph_cache_json (cf_paths cf)) = Some (JsonFile (cache_json (cache dm1)))"
      "\<forall>s j. current (holder dm1) = Some s \<longrightarrow> graph_json_of L s = Inr j \<longrightarrow>
         map_of (d_files d) (graph_json (cf_paths cf)) = Some (JsonFile j)
         \<and> map_of (d_files d) (knowledge_md (cf_paths cf)) = Some (TextFile (generate_knowledge_md L s))"
    unfolding artifacts_of_def by auto
  have dm': "dm' = ?dm1\<lparr>disk_state := d, index := close_conn (index dm1), lifecycle := STOPPED\<rparr>" "r = Inr ()"
    using assms(5) shutdown_running [OF assms(1), of L cf E] assms(2) d by (simp_all add: persist_on_shutdown_def)
  obtain bo w m where b: "drain_pending_batch (reject_new_events (watch dm), registry dm) = (bo, w, m)"
    by (metis surjective_pairing)
  have w: "pending w = []" "rejecting_events w" "bo = (if pending (watch dm) = [] then None else Some \<lparr>changes = pending (watch dm)\<rparr>)"
    using b by (auto simp: drain_pending_batch_def take_pending_def reject_new_events_def frame_simps Let_def split: if_splits)
  have w1: "pending (watch dm1) = [] \<and> rejecting_events (watch dm1)"
    and c: "pending (watch dm) \<noteq> [] \<longrightarrow> (\<exists>dm0. compile_batch L cf E \<lparr>changes = pending (watch dm)\<rparr> dm0 = (dm1, Inr u))"
    using assms(2) b w compile_watch
    by (cases "pending (watch dm) = []";
        fastforce simp: drain_and_compile_def coordinator_run_batch_def consume_def)+
  show ?thesis
    using dm' f w1 c
    by (simp add: shutdown_def stop_watcher_def frame_simps close_conn_def)
qed

theorem shutdown_completes_witness:
  "\<exists>dm'. shutdown sample_lib sample_config sample_env (sample_daemon [sample_change CREATED ''c.md'']) = (dm', Inr ())
     \<and> lifecycle dm' = STOPPED \<and> pending (watch dm') = []"
proof -
  let ?dm = "sample_daemon [sample_change CREATED ''c.md'']"
  have c: "case drain_and_compile sample_lib sample_config sample_env (?dm\<lparr>lifecycle := STOPPING\<rparr>) of (dm1, r) \<Rightarrow>
      \<not> isl r \<and> d_dirs (disk_state dm1) = d_dirs sample_disk \<and>
      (case current (holder dm1) of None \<Rightarrow> False | Some s \<Rightarrow>
         \<not> isl (graph_json_of sample_lib s) \<and> list_all scalar_value (generate_knowledge_md sample_lib s))"
    by code_simp
  obtain dm1 r1 where d: "drain_and_compile sample_lib sample_config sample_env (?dm\<lparr>lifecycle := STOPPING\<rparr>) = (dm1, r1)"
    by (cases "drain_and_compile sample_lib sample_config sample_env (?dm\<lparr>lifecycle := STOPPING\<rparr>)")
  from c d have r1: "r1 = Inr ()" and dirs: "d_dirs (disk_state dm1) = d_dirs sample_disk"
    and ren: "\<forall>s. current (holder dm1) = Some s \<longrightarrow> renderable sample_lib s"
    by (auto simp: renderable_def utf8_encode_def dest: not_isl)
  have ok: "artifact_dirs_ok (artifacts_of sample_config) (disk_state dm1)"
  proof -
    have "artifacts_of sample_config = sample_artifacts" by code_simp
    then show ?thesis
      by (simp add: artifact_dirs_ok_def writable_def dirs sample_artifacts_def sample_disk_def path_parent_def)
  qed
  obtain dm' r where s: "shutdown sample_lib sample_config sample_env ?dm = (dm', r)"
    by (cases "shutdown sample_lib sample_config sample_env ?dm")
  have run: "lifecycle ?dm = RUNNING" by (simp add: sample_daemon_def)
  from shutdown_completes [OF run d [unfolded r1] ok ren s] s show ?thesis by simp
qed

text \<open>Shutdown can get stuck half-way: if compiling the drained batch raises, nothing is persisted by
  the call, the index stays open, the watcher is not stopped, and the daemon stays STOPPING for good, since every
  later call returns at once; the exception replaces whatever ended the serving in \<open>run_forever\<close>.\<close>

theorem shutdown_stuck_after_failed_drain:
  assumes "lifecycle dm = RUNNING" "drain_and_compile L cf E (dm\<lparr>lifecycle := STOPPING\<rparr>) = (dm1, Inl e)"
    and "daemon_inv L dm"
  shows "shutdown L cf E dm = (dm1, Inl e) \<and> lifecycle dm1 = STOPPING
    \<and> (\<forall>E'. shutdown L cf E' dm1 = (dm1, Inr ()))
    \<and> run_forever L cf E served dm = (dm1, ExitRaised e)"
proof -
  have i: "daemon_inv L (dm\<lparr>lifecycle := STOPPING\<rparr>)" using assms(3) by (simp add: daemon_inv_def)
  from drain_safe [OF assms(2) i] have l: "lifecycle dm1 = STOPPING" by simp
  have s: "shutdown L cf E dm = (dm1, Inl e)" using shutdown_running [OF assms(1), of L cf E] assms(2) by simp
  with l show ?thesis by (simp add: run_forever_def shutdown_def)
qed

text \<open>The pending change is the deletion of a file whose name is no valid UTF-8.\<close>

definition surrogate_deletion :: file_change where
  "surrogate_deletion =
     \<lparr>change_path = PyPath [slash] [pstr ''vault'', 56511 # pstr ''.md''], change_of = DELETED, previous_path = None\<rparr>"

theorem shutdown_stuck_after_failed_drain_witness:
  "\<exists>dm1 e. shutdown sample_lib sample_config sample_env (sample_daemon [surrogate_deletion]) = (dm1, Inl e)
     \<and> kind_of e = UnicodeError \<and> lifecycle dm1 = STOPPING \<and> conn_open (index dm1)
     \<and> d_files (disk_state dm1) = [] \<and> shutdown sample_lib sample_config sample_env dm1 = (dm1, Inr ())"
proof -
  let ?dm = "sample_daemon [surrogate_deletion]"
  have x: "path_str (PyPath [] [56511 # pstr ''.md'']) = 56511 # pstr ''.md''" by (simp add: path_str_def)
  have e: "bind_text (56511 # pstr ''.md'') = Inl (Exn UnicodeError (pstr ''surrogates not allowed''))"
    by (simp add: bind_text_code scalar_value_def)
  have "\<exists>dm1 e. drain_and_compile sample_lib sample_config sample_env (?dm\<lparr>lifecycle := STOPPING\<rparr>) = (dm1, Inl e)
      \<and> kind_of e = UnicodeError \<and> conn_open (index dm1) \<and> d_files (disk_state dm1) = []"
    by (simp add: drain_and_compile_def sample_daemon_def new_watcher_def drain_pending_batch_def take_pending_def
        reject_new_events_def cancel_timers_def cancel_timer_def Let_def coordinator_run_batch_def consume_def
        compile_batch_def extract_stage_def extract_state_of_def extract_batch_def surrogate_deletion_def sample_config_def
        extract_change_def relative_to_def is_relative_to_def sample_root_def put_extract_state_def index_stage_def
        sync_batch_def with_conn_def sync_change_def delete_row_def x e sample_disk_def)
  then obtain dm1 e1 where d: "drain_and_compile sample_lib sample_config sample_env (?dm\<lparr>lifecycle := STOPPING\<rparr>) = (dm1, Inl e1)"
    and p: "kind_of e1 = UnicodeError" "conn_open (index dm1)" "d_files (disk_state dm1) = []" by blast
  have run: "lifecycle ?dm = RUNNING" by (simp add: sample_daemon_def)
  from shutdown_stuck_after_failed_drain [OF run d sample_daemon_inv, of ExitSignal] p show ?thesis by blast
qed




end
