(* ===== verification/Daemon_Threads.thy ===== *)
theory Daemon_Threads
  imports Daemon "HOL-Library.Multiset"
begin

text \<open>
  The threads of the running daemon and how they interleave: the observer thread that queues
  changes, the timer threads of the debounce and idle timers, and the main thread in \<open>shutdown\<close>.

  A step is what one thread does in one go: a critical section of the watcher's lock (the only lock
  taken inside is the metrics registry's, which is a leaf), the acquisition of the coordinator's lock, or what is run under it,
  which takes effect when the lock is released. A timer that expires becomes a thread that is about
  to call \<open>_flush\<close> (\<open>expired\<close>) or \<open>_on_idle_cadence\<close> (\<open>idle_waiting\<close>); cancelling it no longer
  has an effect then. A thread that took a batch out of the queue and has not yet got the coordinator's lock
  is in \<open>waiting\<close>; \<open>threading.Lock\<close> may let any of the threads that wait for it go first. The operations
  themselves are those of \<open>Batching\<close> and \<open>Daemon\<close>.

  Four fields only record what happened: the changes accepted into the queue, the batches cut from it, those
  compiled and those whose compilation raised, in order, and what had been compiled when the artifacts
  were persisted.
\<close>

section \<open>The threads\<close>

datatype job = CompileJob batch | IdleRun | DrainJob batch | PersistJob

datatype phase =
    Serving | Stopping | Rejecting | Drained batch | DrainRunning | ToStop | ToPersist | Persisting | Finished | Aborted

record ('g, 't) threads =
  dmn :: "('g, 't) daemon"
  expired :: nat
  idle_waiting :: nat
  waiting :: "batch list"
  lock :: "job option"
  phase :: phase
  accepted :: "file_change list"
  cut :: "batch list"
  compiled :: "batch list"
  failed :: "batch list"
  persisted :: "batch list option"

definition threads_start :: "('g, 't) daemon \<Rightarrow> ('g, 't) threads" where
  "threads_start dm =
     \<lparr>dmn = dm, expired = 0, idle_waiting = 0, waiting = [], lock = None, phase = Serving,
      accepted = [], cut = [], compiled = [], failed = [], persisted = None\<rparr>"

text \<open>What the end of a compilation leaves: the lock is free, and the batch is on one of the two records.\<close>

definition compiled_or_failed :: "batch \<Rightarrow> unit res \<Rightarrow> ('g, 't) threads \<Rightarrow> ('g, 't) threads" where
  "compiled_or_failed b r s =
     (case r of Inl e \<Rightarrow> s\<lparr>lock := None, failed := failed s @ [b]\<rparr>
      | Inr u \<Rightarrow> s\<lparr>lock := None, compiled := compiled s @ [b]\<rparr>)"

definition expire_timer :: "nat \<Rightarrow> ('g, 't) daemon \<Rightarrow> ('g, 't) daemon" where
  "expire_timer i dm = dm\<lparr>watch := (watch dm)\<lparr>timers := AList.delete i (timers (watch dm))\<rparr>\<rparr>"

inductive thread_step :: "('g, 't) lib \<Rightarrow> config \<Rightarrow> ('g, 't) threads \<Rightarrow> ('g, 't) threads \<Rightarrow> bool"
  for L :: "('g, 't) lib" and cf :: config where
  \<comment> \<open>the observer thread\<close>
  th_event: "observing (watch (dmn s)) \<Longrightarrow> queue_change c (watch (dmn s), registry (dmn s)) = (w, m) \<Longrightarrow>
     thread_step L cf s (s\<lparr>dmn := (dmn s)\<lparr>watch := w, registry := m\<rparr>,
       accepted := (if rejecting_events (watch (dmn s)) then accepted s else accepted s @ [c])\<rparr>)"
  \<comment> \<open>timer threads\<close>
| th_expire: "map_of (timers (watch (dmn s))) i = Some (FlushJob, secs) \<Longrightarrow>
     thread_step L cf s (s\<lparr>dmn := expire_timer i (dmn s), expired := Suc (expired s)\<rparr>)"
| th_expire_idle: "map_of (timers (watch (dmn s))) i = Some (IdleJob, secs) \<Longrightarrow>
     thread_step L cf s (s\<lparr>dmn := expire_timer i (dmn s), idle_waiting := Suc (idle_waiting s)\<rparr>)"
| th_flush_none: "expired s = Suc n \<Longrightarrow> flush (watch (dmn s), registry (dmn s)) = (None, w, m) \<Longrightarrow>
     thread_step L cf s (s\<lparr>expired := n\<rparr>)"
| th_flush: "expired s = Suc n \<Longrightarrow> flush (watch (dmn s), registry (dmn s)) = (Some b, w, m) \<Longrightarrow>
     thread_step L cf s (s\<lparr>dmn := (dmn s)\<lparr>watch := w, registry := m\<rparr>, expired := n,
       waiting := waiting s @ [b], cut := cut s @ [b]\<rparr>)"
| th_acquire: "lock s = None \<Longrightarrow> waiting s = bs @ b # bs' \<Longrightarrow>
     thread_step L cf s (s\<lparr>waiting := bs @ bs', lock := Some (CompileJob b)\<rparr>)"
| th_compile: "lock s = Some (CompileJob b) \<Longrightarrow> on_batch L cf E b (dmn s) = (dm', r) \<Longrightarrow>
     thread_step L cf s (compiled_or_failed b r (s\<lparr>dmn := dm'\<rparr>))"
| th_idle: "lock s = None \<Longrightarrow> idle_waiting s = Suc n \<Longrightarrow>
     thread_step L cf s (s\<lparr>idle_waiting := n, lock := Some IdleRun\<rparr>)"
| th_idle_run: "lock s = Some IdleRun \<Longrightarrow> on_idle_cadence L cf E (dmn s) = (dm', r) \<Longrightarrow>
     thread_step L cf s (s\<lparr>dmn := dm', lock := None\<rparr>)"
  \<comment> \<open>the main thread: the statements of \<open>shutdown\<close>\<close>
| th_begin: "phase s = Serving \<Longrightarrow> lifecycle (dmn s) = RUNNING \<Longrightarrow>
     thread_step L cf s (s\<lparr>dmn := (dmn s)\<lparr>lifecycle := STOPPING\<rparr>, phase := Stopping\<rparr>)"
| th_reject: "phase s = Stopping \<Longrightarrow>
     thread_step L cf s (s\<lparr>dmn := (dmn s)\<lparr>watch := reject_new_events (watch (dmn s))\<rparr>, phase := Rejecting\<rparr>)"
| th_drain_none: "phase s = Rejecting \<Longrightarrow> drain_pending_batch (watch (dmn s), registry (dmn s)) = (None, w, m) \<Longrightarrow>
     thread_step L cf s (s\<lparr>dmn := (dmn s)\<lparr>watch := w, registry := m\<rparr>, phase := ToStop\<rparr>)"
| th_drain: "phase s = Rejecting \<Longrightarrow> drain_pending_batch (watch (dmn s), registry (dmn s)) = (Some b, w, m) \<Longrightarrow>
     thread_step L cf s (s\<lparr>dmn := (dmn s)\<lparr>watch := w, registry := m\<rparr>, phase := Drained b, cut := cut s @ [b]\<rparr>)"
| th_drain_acquire: "phase s = Drained b \<Longrightarrow> lock s = None \<Longrightarrow>
     thread_step L cf s (s\<lparr>phase := DrainRunning, lock := Some (DrainJob b)\<rparr>)"
| th_drain_compile: "lock s = Some (DrainJob b) \<Longrightarrow> on_batch L cf E b (dmn s) = (dm', r) \<Longrightarrow>
     thread_step L cf s ((compiled_or_failed b r (s\<lparr>dmn := dm'\<rparr>))\<lparr>phase := (if isl r then Aborted else ToStop)\<rparr>)"
| th_stop: "phase s = ToStop \<Longrightarrow>
     thread_step L cf s (s\<lparr>dmn := (dmn s)\<lparr>watch := stop_watcher (watch (dmn s))\<rparr>, phase := ToPersist\<rparr>)"
| th_persist_acquire: "phase s = ToPersist \<Longrightarrow> lock s = None \<Longrightarrow>
     thread_step L cf s (s\<lparr>phase := Persisting, lock := Some PersistJob\<rparr>)"
| th_persist: "lock s = Some PersistJob \<Longrightarrow> persist_on_shutdown L cf (dmn s) = (dm', Inr u) \<Longrightarrow>
     thread_step L cf s (s\<lparr>dmn := dm'\<lparr>lifecycle := STOPPED\<rparr>, lock := None, phase := Finished, persisted := Some (compiled s)\<rparr>)"
| th_persist_fails: "lock s = Some PersistJob \<Longrightarrow> persist_on_shutdown L cf (dmn s) = (dm', Inl e) \<Longrightarrow>
     thread_step L cf s (s\<lparr>dmn := dm', lock := None, phase := Aborted\<rparr>)"

section \<open>Where a batch is\<close>

fun job_batches :: "job option \<Rightarrow> batch list" where
  "job_batches (Some (CompileJob b)) = [b]"
| "job_batches (Some (DrainJob b)) = [b]"
| "job_batches j = []"

fun phase_batches :: "phase \<Rightarrow> batch list" where
  "phase_batches (Drained b) = [b]"
| "phase_batches p = []"

definition in_flight :: "('g, 't) threads \<Rightarrow> batch list" where
  "in_flight s = waiting s @ job_batches (lock s) @ phase_batches (phase s)"

text \<open>Every change that was accepted was cut into one batch, in order, or is pending; every batch that was cut
  is in exactly one place.\<close>

definition conserved :: "('g, 't) threads \<Rightarrow> bool" where
  "conserved s \<longleftrightarrow> accepted s = concat (map changes (cut s)) @ pending (watch (dmn s))
     \<and> mset (cut s) = mset (compiled s) + mset (failed s) + mset (in_flight s)"

text \<open>Timer names are fresh, and the two fields name timers of their own kind.\<close>

definition timers_ok :: "watcher \<Rightarrow> bool" where
  "timers_ok w \<longleftrightarrow> (\<forall>i \<in> set (keys (timers w)). i < next_timer w)
     \<and> (\<forall>i. flush_timer w = Some i \<longrightarrow> i < next_timer w \<and> (\<forall>j d. map_of (timers w) i = Some (j, d) \<longrightarrow> j = FlushJob))
     \<and> (\<forall>i. idle_timer w = Some i \<longrightarrow> i < next_timer w \<and> (\<forall>j d. map_of (timers w) i = Some (j, d) \<longrightarrow> j = IdleJob))"

definition flush_live :: "watcher \<Rightarrow> bool" where
  "flush_live w \<longleftrightarrow> (\<exists>i d. flush_timer w = Some i \<and> map_of (timers w) i = Some (FlushJob, d))"

text \<open>Pending changes have a thread that will flush them.\<close>

definition flush_due :: "('g, 't) threads \<Rightarrow> bool" where
  "flush_due s \<longleftrightarrow> (let w = watch (dmn s) in
     pending w \<noteq> [] \<longrightarrow> 0 < expired s \<or> flush_live w)"

text \<open>After the drain nothing is pending; after the final persist the index is closed and nothing more is compiled.\<close>

definition phase_ok :: "('g, 't) threads \<Rightarrow> bool" where
  "phase_ok s \<longleftrightarrow>
     (phase s \<notin> {Serving, Stopping} \<longrightarrow> rejecting_events (watch (dmn s)))
     \<and> (phase s \<notin> {Serving, Stopping, Rejecting} \<longrightarrow> pending (watch (dmn s)) = [])
     \<and> (phase s = DrainRunning \<longleftrightarrow> (\<exists>b. lock s = Some (DrainJob b)))
     \<and> (phase s = Persisting \<longleftrightarrow> lock s = Some PersistJob)
     \<and> (phase s = Finished \<longleftrightarrow> persisted s \<noteq> None)
     \<and> (\<forall>ds. persisted s = Some ds \<longrightarrow> compiled s = ds \<and> \<not> conn_open (index (dmn s)))"

definition threads_inv :: "('g, 't) threads \<Rightarrow> bool" where
  "threads_inv s \<longleftrightarrow> conserved s \<and> timers_ok (watch (dmn s)) \<and> flush_due s \<and> phase_ok s"

section \<open>Operations of the watcher\<close>

lemma timers_okD: "timers_ok w \<Longrightarrow> map_of (timers w) i = Some x \<Longrightarrow> i < next_timer w"
  by (force simp: timers_ok_def dest: map_of_SomeD)

text \<open>Deleting timers, changing other fields, and starting one.\<close>

lemma timers_ok_delete:
  assumes "timers_ok w" "timers w' = AList.delete i (timers w)" "next_timer w' = next_timer w"
    "flush_timer w' = flush_timer w" "idle_timer w' = idle_timer w"
  shows "timers_ok w'"
  using assms by (auto simp: timers_ok_def dict_simps split: if_splits)

lemma timers_ok_start:
  assumes "timers_ok w"
  shows "timers_ok ((start_timer FlushJob d w)\<lparr>flush_timer := Some (next_timer w)\<rparr>)"
    "timers_ok ((start_timer IdleJob d w)\<lparr>idle_timer := Some (next_timer w)\<rparr>)"
  using assms by (force simp: timers_ok_def start_timer_def dict_simps less_Suc_eq split: if_splits)+

lemma timers_ok_cancel: "timers_ok w \<Longrightarrow> timers_ok (cancel_timer t w)"
  by (cases t) (auto simp: cancel_timer_def intro: timers_ok_delete)

lemma timers_ok_fields [simp]:
  "timers_ok (w\<lparr>pending := x\<rparr>) = timers_ok w" "timers_ok (w\<lparr>warned_this_episode := v\<rparr>) = timers_ok w"
  "timers_ok (w\<lparr>watch_log := l\<rparr>) = timers_ok w" "timers_ok (w\<lparr>rejecting_events := v\<rparr>) = timers_ok w"
  "timers_ok (w\<lparr>observing := v\<rparr>) = timers_ok w"
  by (simp_all add: timers_ok_def)

lemma timers_ok_None: "timers_ok w \<Longrightarrow> timers_ok (w\<lparr>flush_timer := None\<rparr>)" "timers_ok w \<Longrightarrow> timers_ok (w\<lparr>idle_timer := None\<rparr>)"
  by (simp_all add: timers_ok_def)

lemma timers_ok_queue: "timers_ok w \<Longrightarrow> queue_change c (w, m) = (w', m') \<Longrightarrow> timers_ok w'"
  by (auto simp: queue_change_def Let_def intro!: timers_ok_start timers_ok_cancel split: if_splits)

lemma timers_ok_cancel_timers: "timers_ok w \<Longrightarrow> timers_ok (cancel_timers w)"
  by (simp add: cancel_timers_def Let_def timers_ok_None timers_ok_cancel)

lemma timers_ok_hand_over:
  "timers_ok w \<Longrightarrow> flush (w, m) = (b, w', m') \<Longrightarrow> timers_ok w'"
  "timers_ok w \<Longrightarrow> drain_pending_batch (w, m) = (b, w', m') \<Longrightarrow> timers_ok w'"
  by (auto simp: flush_def drain_pending_batch_def take_pending_def Let_def timers_ok_None timers_ok_cancel_timers split: if_splits)

lemma timers_ok_idle: "timers_ok w \<Longrightarrow> timers_ok (cancel_idle w)" "timers_ok w \<Longrightarrow> timers_ok (schedule_idle q w)"
  by (simp_all add: cancel_idle_def schedule_idle_def Let_def timers_ok_None timers_ok_cancel timers_ok_start)

lemma flush_live_queue:
  "queue_change c (w, m) = (w', m') \<Longrightarrow> \<not> rejecting_events w \<Longrightarrow> flush_live w'"
  by (auto simp: queue_change_def Let_def flush_live_def frame_simps dict_simps)

text \<open>The idle timer is another timer than the debounce timer.\<close>

lemma flush_live_keeps:
  assumes "flush_timer w = Some i" "map_of (timers w) i = Some (FlushJob, d)" "timers_ok w"
  shows "idle_timer w \<noteq> Some i" "next_timer w \<noteq> i"
  using assms by (auto simp: timers_ok_def)

lemma flush_live_cancel:
  assumes "timers_ok w" "flush_live w"
  shows "flush_live (cancel_timer (idle_timer w) w)"
proof -
  from assms(2) obtain i d where i: "flush_timer w = Some i" "map_of (timers w) i = Some (FlushJob, d)"
    by (auto simp: flush_live_def)
  with flush_live_keeps [OF i assms(1)]
  have "map_of (timers (cancel_timer (idle_timer w) w)) i = Some (FlushJob, d)"
    by (auto simp: frame_simps dict_simps split: option.split)
  with i(1) show ?thesis unfolding flush_live_def by (metis cancel_timer_frames(4))
qed

lemma flush_live_idle:
  assumes "timers_ok w" "flush_live w"
  shows "flush_live (cancel_idle w)" "flush_live (schedule_idle q w)"
proof -
  let ?w = "cancel_timer (idle_timer w) w"
  have c: "flush_live ?w" using flush_live_cancel [OF assms] .
  then show "flush_live (cancel_idle w)" by (simp add: cancel_idle_def flush_live_def)
  have t: "timers_ok ?w" using timers_ok_cancel [OF assms(1)] .
  from c obtain i d where i: "flush_timer ?w = Some i" "map_of (timers ?w) i = Some (FlushJob, d)"
    by (auto simp: flush_live_def)
  with flush_live_keeps(2) [OF i t] have "flush_timer (schedule_idle q w) = Some i"
    "map_of (timers (schedule_idle q w)) i = Some (FlushJob, d)"
    by (simp_all add: schedule_idle_def Let_def start_timer_def dict_simps)
  then show "flush_live (schedule_idle q w)" unfolding flush_live_def by blast
qed

section \<open>What a compilation leaves\<close>

text \<open>The watcher but for its idle timer, and whether the index is open; on a closed index nothing compiles.\<close>

lemma compile_frame:
  assumes "on_batch L cf E b dm = (dm', r)"
  shows "watch dm' \<in> {watch dm, cancel_idle (watch dm)} \<union> range (\<lambda>q. schedule_idle q (watch dm))"
    "conn_open (index dm') = conn_open (index dm)"
    "\<not> conn_open (index dm) \<Longrightarrow> isl r"
proof -
  let ?P = "\<lambda>s. watch s = watch dm \<and> conn_open (index s) = conn_open (index dm)"
  have c: "compile_batch L cf E b dm = (dm', r)"
    using assms by (simp add: on_batch_def coordinator_run_batch_def consume_def)
  obtain dm1 r1 where x: "extract_stage cf E b dm = (dm1, r1)" by (cases "extract_stage cf E b dm")
  then have p1: "?P dm1" by (auto simp: extract_stage_def put_extract_state_def split: prod.splits)
  obtain dm2 r2 where i: "index_stage cf E b dm1 = (dm2, r2)" by (cases "index_stage cf E b dm1")
  then have p2: "?P dm2" and closed: "\<not> conn_open (index dm1) \<Longrightarrow> isl r2"
    using p1 by (auto simp: index_stage_def sync_batch_def with_conn_def split: prod.splits sum.splits if_splits)
  obtain dm3 r3 where g: "publish_batch L dm2 = (dm3, r3)" by (cases "publish_batch L dm2")
  then have p3: "?P dm3" using p2 publish_batch_frame(3,4) [OF g] by simp
  obtain dm4 r4 where t: "record_stage E b dm3 = (dm4, r4)" by (cases "record_stage E b dm3")
  then have p4: "?P dm4" using p3 by (auto simp: record_stage_def)
  obtain dm5 r5 where k: "cadence_stage L cf E dm4 = (dm5, r5)" by (cases "cadence_stage L cf E dm4")
  then have p5: "watch dm5 \<in> {watch dm, cancel_idle (watch dm)} \<union> range (\<lambda>q. schedule_idle q (watch dm))"
    "conn_open (index dm5) = conn_open (index dm)"
    using p4 by (auto simp: cadence_stage_def daemon_cadence_cycle_frame(3,4) split: prod.splits sum.splits)
  have d: "dm' \<in> {dm1, dm2, dm3, dm4, dm5}" and l: "isl r1 \<or> isl r2 \<Longrightarrow> isl r"
    using c x i g t k by (auto simp: compile_batch_def split: sum.splits)
  from d p1 p2 p3 p4 p5 show "watch dm' \<in> {watch dm, cancel_idle (watch dm)} \<union> range (\<lambda>q. schedule_idle q (watch dm))"
    "conn_open (index dm') = conn_open (index dm)" by auto
  show "isl r" if "\<not> conn_open (index dm)" using l closed p1 that by simp
qed

lemma idle_run_frame:
  "on_idle_cadence L cf E dm = (dm', r) \<Longrightarrow> watch dm' = watch dm \<and> index dm' = index dm"
  by (auto simp: on_idle_cadence_def coordinator_run_batch_def daemon_cadence_cycle_frame(3,4) split: prod.splits sum.splits)

lemma persist_frame:
  "persist_on_shutdown L cf dm = (dm', r) \<Longrightarrow> watch dm' = watch dm \<and> (\<not> isl r \<longrightarrow> \<not> conn_open (index dm'))"
  by (auto simp: persist_on_shutdown_def close_conn_def split: prod.splits sum.splits)

section \<open>The invariant\<close>

lemma flush_outcome:
  "flush (w, m) = (None, w', m') \<Longrightarrow> pending w = []"
  "flush (w, m) = (Some b, w', m') \<Longrightarrow>
     changes b = pending w \<and> pending w' = [] \<and> rejecting_events w' = rejecting_events w"
  "drain_pending_batch (w, m) = (None, w', m') \<Longrightarrow>
     pending w = [] \<and> pending w' = [] \<and> rejecting_events w' = rejecting_events w"
  "drain_pending_batch (w, m) = (Some b, w', m') \<Longrightarrow>
     changes b = pending w \<and> pending w' = [] \<and> rejecting_events w' = rejecting_events w"
  by (auto simp: flush_def drain_pending_batch_def take_pending_def frame_simps Let_def split: if_splits)

lemma queue_outcome:
  assumes "queue_change c (w, m) = (w', m')"
  shows "pending w' = (if rejecting_events w then pending w else pending w @ [c])"
    "rejecting_events w' = rejecting_events w"
  using queue_change_rejecting [of w c m] queue_change_pending [of w c m] queue_change_frames(1) [of c "(w, m)"] assms
  by (auto split: if_splits)

lemma on_batch_watch:
  "on_batch L cf E b dm = (dm', r) \<Longrightarrow>
     pending (watch dm') = pending (watch dm) \<and> rejecting_events (watch dm') = rejecting_events (watch dm)"
  using compile_watch by (fastforce simp: on_batch_def coordinator_run_batch_def consume_def)

lemma on_batch_flush_live:
  "on_batch L cf E b dm = (dm', r) \<Longrightarrow> timers_ok (watch dm) \<Longrightarrow>
     timers_ok (watch dm') \<and> (flush_live (watch dm) \<longrightarrow> flush_live (watch dm'))"
  using compile_frame(1) [of L cf E b dm dm' r] by (auto intro: timers_ok_idle flush_live_idle)

lemma stop_watcher_fields [simp]:
  "pending (stop_watcher w) = pending w" "rejecting_events (stop_watcher w) = rejecting_events w"
  by (simp_all add: stop_watcher_def frame_simps)

lemma timers_ok_stop: "timers_ok w \<Longrightarrow> timers_ok (stop_watcher w)"
  by (simp add: stop_watcher_def timers_ok_cancel_timers)

lemma reject_fields [simp]:
  "pending (reject_new_events w) = pending w" "rejecting_events (reject_new_events w)"
  "timers_ok (reject_new_events w) = timers_ok w" "flush_live (reject_new_events w) = flush_live w"
  by (simp_all add: reject_new_events_def flush_live_def)

lemma compiled_or_failed_fields [simp]:
  "dmn (compiled_or_failed b r s) = dmn s" "lock (compiled_or_failed b r s) = None"
  "phase (compiled_or_failed b r s) = phase s" "waiting (compiled_or_failed b r s) = waiting s"
  "accepted (compiled_or_failed b r s) = accepted s" "cut (compiled_or_failed b r s) = cut s"
  "expired (compiled_or_failed b r s) = expired s" "persisted (compiled_or_failed b r s) = persisted s"
  "compiled (compiled_or_failed b r s) = (if isl r then compiled s else compiled s @ [b])"
  "failed (compiled_or_failed b r s) = (if isl r then failed s @ [b] else failed s)"
  by (simp_all add: compiled_or_failed_def split: sum.split)

lemma expire_timer_fields [simp]:
  "pending (watch (expire_timer i dm)) = pending (watch dm)"
  "rejecting_events (watch (expire_timer i dm)) = rejecting_events (watch dm)"
  "index (expire_timer i dm) = index dm"
  by (simp_all add: expire_timer_def)

lemma phase_step:
  assumes "thread_step L cf s t" "phase_ok s"
  shows "phase_ok t"
  using assms
proof (cases rule: thread_step.cases)
  case (th_event c w m)
  with assms(2) queue_outcome [OF th_event(3)] show ?thesis by (auto simp: phase_ok_def)
next
  case (th_flush n b w m)
  with assms(2) flush_outcome(2) [OF th_flush(3)] show ?thesis by (auto simp: phase_ok_def)
next
  case (th_compile b E dm' r)
  with assms(2) on_batch_watch [OF th_compile(3)] compile_frame(2,3) [OF th_compile(3)] show ?thesis
    by (auto simp: phase_ok_def)
next
  case (th_idle_run E dm' r)
  with assms(2) idle_run_frame [OF th_idle_run(3)] show ?thesis by (auto simp: phase_ok_def)
next
  case (th_drain_none w m)
  with assms(2) flush_outcome(3) [OF th_drain_none(3)] show ?thesis by (auto simp: phase_ok_def)
next
  case (th_drain b w m)
  with assms(2) flush_outcome(4) [OF th_drain(3)] show ?thesis by (auto simp: phase_ok_def)
next
  case (th_drain_compile b E dm' r)
  with assms(2) on_batch_watch [OF th_drain_compile(3)] compile_frame(2,3) [OF th_drain_compile(3)] show ?thesis
    by (auto simp: phase_ok_def)
next
  case (th_persist dm' u)
  with assms(2) persist_frame [OF th_persist(3)] show ?thesis by (auto simp: phase_ok_def)
next
  case (th_persist_fails dm' e)
  with assms(2) persist_frame [OF th_persist_fails(3)] show ?thesis by (auto simp: phase_ok_def)
qed (auto simp: phase_ok_def)

lemma conserved_step:
  assumes "thread_step L cf s t" "conserved s" "phase_ok s"
  shows "conserved t"
  using assms(1)
proof (cases rule: thread_step.cases)
  case (th_event c w m)
  with assms(2) queue_outcome [OF th_event(3)] show ?thesis by (auto simp: conserved_def in_flight_def)
next
  case (th_flush n b w m)
  with assms(2) flush_outcome(2) [OF th_flush(3)] show ?thesis by (auto simp: conserved_def in_flight_def)
next
  case (th_acquire bs b bs')
  with assms(2) show ?thesis by (auto simp: conserved_def in_flight_def)
next
  case (th_compile b E dm' r)
  with assms(2) on_batch_watch [OF th_compile(3)] show ?thesis by (auto simp: conserved_def in_flight_def)
next
  case (th_idle_run E dm' r)
  with assms(2) idle_run_frame [OF th_idle_run(3)] show ?thesis by (auto simp: conserved_def in_flight_def)
next
  case (th_drain_none w m)
  with assms(2) flush_outcome(3) [OF th_drain_none(3)] show ?thesis by (auto simp: conserved_def in_flight_def)
next
  case (th_drain b w m)
  with assms(2) flush_outcome(4) [OF th_drain(3)] show ?thesis by (auto simp: conserved_def in_flight_def)
next
  case (th_drain_compile b E dm' r)
  with assms(3) have "phase s = DrainRunning" by (auto simp: phase_ok_def)
  with th_drain_compile assms(2) on_batch_watch [OF th_drain_compile(3)] show ?thesis
    by (auto simp: conserved_def in_flight_def)
next
  case (th_persist dm' u)
  with assms(3) have "phase s = Persisting" by (auto simp: phase_ok_def)
  with th_persist assms(2) persist_frame [OF th_persist(3)] show ?thesis by (auto simp: conserved_def in_flight_def)
next
  case (th_persist_fails dm' e)
  with assms(3) have "phase s = Persisting" by (auto simp: phase_ok_def)
  with th_persist_fails assms(2) persist_frame [OF th_persist_fails(3)] show ?thesis by (auto simp: conserved_def in_flight_def)
qed (use assms(2) in \<open>auto simp: conserved_def in_flight_def\<close>)

lemma timers_step:
  assumes "thread_step L cf s t" "timers_ok (watch (dmn s))"
  shows "timers_ok (watch (dmn t))"
  using assms(1)
proof (cases rule: thread_step.cases)
  case (th_event c w m)
  with assms(2) timers_ok_queue show ?thesis by fastforce
next
  case (th_expire i secs)
  with assms(2) show ?thesis by (auto simp: expire_timer_def intro: timers_ok_delete)
next
  case (th_expire_idle i secs)
  with assms(2) show ?thesis by (auto simp: expire_timer_def intro: timers_ok_delete)
next
  case (th_flush n b w m)
  with assms(2) timers_ok_hand_over(1) show ?thesis by fastforce
next
  case (th_compile b E dm' r)
  with assms(2) on_batch_flush_live [OF th_compile(3)] show ?thesis by simp
next
  case (th_idle_run E dm' r)
  with assms(2) idle_run_frame [OF th_idle_run(3)] show ?thesis by simp
next
  case (th_drain_none w m)
  with assms(2) timers_ok_hand_over(2) show ?thesis by fastforce
next
  case (th_drain b w m)
  with assms(2) timers_ok_hand_over(2) show ?thesis by fastforce
next
  case (th_drain_compile b E dm' r)
  with assms(2) on_batch_flush_live [OF th_drain_compile(3)] show ?thesis by simp
next
  case th_stop
  with assms(2) timers_ok_stop show ?thesis by simp
next
  case (th_persist dm' u)
  with assms(2) persist_frame [OF th_persist(3)] show ?thesis by simp
next
  case (th_persist_fails dm' e)
  with assms(2) persist_frame [OF th_persist_fails(3)] show ?thesis by simp
qed (use assms(2) in simp_all)

lemma due_step:
  assumes "thread_step L cf s t" "flush_due s" "timers_ok (watch (dmn s))" "phase_ok s"
  shows "flush_due t"
  using assms(1)
proof (cases rule: thread_step.cases)
  case (th_event c w m)
  have "flush_live w" if "\<not> rejecting_events (watch (dmn s))" using flush_live_queue [OF th_event(3) that] .
  moreover have "w = watch (dmn s)" if "rejecting_events (watch (dmn s))"
    using th_event(3) queue_change_rejecting [OF that] by auto
  ultimately show ?thesis using th_event assms(2) by (auto simp: flush_due_def Let_def)
next
  case (th_expire_idle i secs)
  have "flush_live (watch (dmn t))" if "flush_live (watch (dmn s))"
  proof -
    from that obtain k d where k: "flush_timer (watch (dmn s)) = Some k" "map_of (timers (watch (dmn s))) k = Some (FlushJob, d)"
      by (auto simp: flush_live_def)
    then have "k \<noteq> i" using th_expire_idle(2) by auto
    with k th_expire_idle(1) show ?thesis by (auto simp: flush_live_def expire_timer_def dict_simps)
  qed
  with th_expire_idle assms(2) show ?thesis by (auto simp: flush_due_def Let_def)
next
  case (th_flush_none n w m)
  with flush_outcome(1) show ?thesis by (auto simp: flush_due_def Let_def)
next
  case (th_flush n b w m)
  with flush_outcome(2) [OF th_flush(3)] show ?thesis by (auto simp: flush_due_def Let_def)
next
  case (th_compile b E dm' r)
  with assms(2) on_batch_watch [OF th_compile(3)] on_batch_flush_live [OF th_compile(3) assms(3)] show ?thesis
    by (auto simp: flush_due_def Let_def)
next
  case (th_idle_run E dm' r)
  with assms(2) idle_run_frame [OF th_idle_run(3)] show ?thesis by (auto simp: flush_due_def Let_def)
next
  case (th_drain_none w m)
  with flush_outcome(3) [OF th_drain_none(3)] show ?thesis by (auto simp: flush_due_def Let_def)
next
  case (th_drain b w m)
  with flush_outcome(4) [OF th_drain(3)] show ?thesis by (auto simp: flush_due_def Let_def)
next
  case (th_drain_compile b E dm' r)
  with assms(2) on_batch_watch [OF th_drain_compile(3)] on_batch_flush_live [OF th_drain_compile(3) assms(3)] show ?thesis
    by (auto simp: flush_due_def Let_def)
next
  case th_stop
  with assms(4) show ?thesis by (auto simp: flush_due_def Let_def phase_ok_def)
next
  case (th_persist dm' u)
  with assms(2) persist_frame [OF th_persist(3)] show ?thesis by (auto simp: flush_due_def Let_def)
next
  case (th_persist_fails dm' e)
  with assms(2) persist_frame [OF th_persist_fails(3)] show ?thesis by (auto simp: flush_due_def Let_def)
qed (use assms(2) in \<open>auto simp: flush_due_def Let_def\<close>)

text \<open>A daemon that has just been started.\<close>

definition just_started :: "('g, 't) daemon \<Rightarrow> bool" where
  "just_started dm \<longleftrightarrow> lifecycle dm = RUNNING \<and> pending (watch dm) = [] \<and> timers (watch dm) = []
     \<and> flush_timer (watch dm) = None \<and> idle_timer (watch dm) = None \<and> conn_open (index dm)"

definition threads_init :: "('g, 't) threads \<Rightarrow> bool" where
  "threads_init s \<longleftrightarrow> just_started (dmn s) \<and> s = threads_start (dmn s)"

lemma threads_init_inv: "threads_init s \<Longrightarrow> threads_inv s"
proof -
  assume h: "threads_init s"
  then obtain dm where s: "s = threads_start dm" and j: "just_started dm"
    unfolding threads_init_def by blast
  from j show "threads_inv s"
    by (simp add: s threads_start_def just_started_def threads_inv_def conserved_def in_flight_def timers_ok_def
        flush_due_def phase_ok_def)
qed

interpretation threads: transition_system threads_init "thread_step L cf" threads_inv
  for L cf
proof
  show "threads_inv s" if "threads_init s" for s :: "('a, 'b) threads" using threads_init_inv [OF that] .
  show "threads_inv t" if "threads_inv s" "thread_step L cf s t" for s t :: "('a, 'b) threads"
    using that conserved_step timers_step due_step phase_step unfolding threads_inv_def by blast
qed

section \<open>Getting on\<close>

text \<open>The lock is released whatever the other threads compile, and \<open>shutdown\<close> gets through its statements.\<close>

definition shutdown_ends :: "('g, 't) lib \<Rightarrow> config \<Rightarrow> ('g, 't) threads \<Rightarrow> bool" where
  "shutdown_ends L cf s \<longleftrightarrow> (\<exists>t. (thread_step L cf)\<^sup>*\<^sup>* s t \<and> phase t \<in> {Finished, Aborted})"

lemma ends_step: "thread_step L cf s t \<Longrightarrow> shutdown_ends L cf t \<Longrightarrow> shutdown_ends L cf s"
  unfolding shutdown_ends_def by (meson converse_rtranclp_into_rtranclp)

lemma ends_done: "phase s \<in> {Finished, Aborted} \<Longrightarrow> shutdown_ends L cf s"
  unfolding shutdown_ends_def by blast

lemma lock_released:
  assumes "threads_inv s" "phase s \<notin> {DrainRunning, Persisting}"
  shows "\<exists>t. (thread_step L cf)\<^sup>*\<^sup>* s t \<and> lock t = None \<and> phase t = phase s \<and> threads_inv t"
proof -
  obtain E :: env where True by simp
  have p: "phase_ok s" using assms(1) by (simp add: threads_inv_def)
  consider "lock s = None" | b where "lock s = Some (CompileJob b)" | "lock s = Some IdleRun"
  proof (cases "lock s")
    case (Some j)
    with p assms(2) that show ?thesis by (cases j) (auto simp: phase_ok_def)
  qed (use that in simp)
  then show ?thesis
  proof cases
    case 1
    with assms(1) show ?thesis by blast
  next
    case (2 b)
    obtain dm' r where o: "on_batch L cf E b (dmn s) = (dm', r)" by (cases "on_batch L cf E b (dmn s)")
    let ?t = "compiled_or_failed b r (s\<lparr>dmn := dm'\<rparr>)"
    have st: "thread_step L cf s ?t" using thread_step.th_compile [OF 2 o] .
    with threads.inv_step [OF assms(1) st] show ?thesis by (intro exI [of _ ?t]) auto
  next
    case 3
    obtain dm' r where o: "on_idle_cadence L cf E (dmn s) = (dm', r)" by (cases "on_idle_cadence L cf E (dmn s)")
    have st: "thread_step L cf s (s\<lparr>dmn := dm', lock := None\<rparr>)" using thread_step.th_idle_run [OF 3 o] .
    with threads.inv_step [OF assms(1) st] show ?thesis by (intro exI [of _ "s\<lparr>dmn := dm', lock := None\<rparr>"]) auto
  qed
qed

lemma ends_released:
  assumes "threads_inv s" "phase s \<notin> {DrainRunning, Persisting}"
    and "\<And>t. threads_inv t \<Longrightarrow> lock t = None \<Longrightarrow> phase t = phase s \<Longrightarrow> shutdown_ends L cf t"
  shows "shutdown_ends L cf s"
proof -
  obtain t where t: "(thread_step L cf)\<^sup>*\<^sup>* s t" "lock t = None" "phase t = phase s" "threads_inv t"
    using lock_released [OF assms(1,2)] by blast
  from assms(3) [OF t(4,2,3)] t(1) show ?thesis unfolding shutdown_ends_def by (meson rtranclp_trans)
qed

lemma ends_persisting:
  assumes "lock s = Some PersistJob"
  shows "shutdown_ends L cf s"
proof -
  obtain dm' r where p: "persist_on_shutdown L cf (dmn s) = (dm', r)" by (cases "persist_on_shutdown L cf (dmn s)")
  have "\<exists>t. thread_step L cf s t \<and> phase t \<in> {Finished, Aborted}"
  proof (cases r)
    case (Inl e)
    with thread_step.th_persist_fails [OF assms, of L cf dm' e] p show ?thesis by fastforce
  next
    case (Inr u)
    with thread_step.th_persist [OF assms, of L cf dm' u] p show ?thesis by fastforce
  qed
  then show ?thesis unfolding shutdown_ends_def by blast
qed

lemma ends_to_persist:
  assumes "threads_inv s" "phase s = ToPersist"
  shows "shutdown_ends L cf s"
proof (rule ends_released [OF assms(1)])
  fix t :: "('a, 'b) threads"
  assume "lock t = None" "phase t = phase s"
  with thread_step.th_persist_acquire [of t L cf] assms(2) have "thread_step L cf t (t\<lparr>phase := Persisting, lock := Some PersistJob\<rparr>)"
    by simp
  then show "shutdown_ends L cf t" by (rule ends_step) (rule ends_persisting, simp)
qed (use assms(2) in simp)

lemma ends_to_stop:
  assumes "threads_inv s" "phase s = ToStop"
  shows "shutdown_ends L cf s"
proof -
  note st = thread_step.th_stop [OF assms(2), of L cf]
  show ?thesis by (rule ends_step [OF st]) (rule ends_to_persist [OF threads.inv_step [OF assms(1) st]], simp)
qed

lemma ends_drain_running:
  assumes "threads_inv s" "phase s = DrainRunning"
  shows "shutdown_ends L cf s"
proof -
  obtain E :: env where True by simp
  from assms obtain b where b: "lock s = Some (DrainJob b)" by (auto simp: threads_inv_def phase_ok_def)
  obtain dm' r where o: "on_batch L cf E b (dmn s) = (dm', r)" by (cases "on_batch L cf E b (dmn s)")
  note st = thread_step.th_drain_compile [OF b o]
  show ?thesis
  proof (cases "isl r")
    case True
    then show ?thesis by (intro ends_step [OF st] ends_done) simp
  next
    case False
    with ends_to_stop [OF threads.inv_step [OF assms(1) st]] have
      "shutdown_ends L cf ((compiled_or_failed b r (s\<lparr>dmn := dm'\<rparr>))\<lparr>phase := (if isl r then Aborted else ToStop)\<rparr>)"
      by simp
    with st show ?thesis by (rule ends_step)
  qed
qed

lemma ends_drained:
  assumes "threads_inv s" "phase s = Drained b"
  shows "shutdown_ends L cf s"
proof (rule ends_released [OF assms(1)])
  fix t :: "('a, 'b) threads"
  assume t: "threads_inv t" "lock t = None" "phase t = phase s"
  note st = thread_step.th_drain_acquire [of t b L cf]
  have st': "thread_step L cf t (t\<lparr>phase := DrainRunning, lock := Some (DrainJob b)\<rparr>)" using st t(2,3) assms(2) by simp
  show "shutdown_ends L cf t"
    by (rule ends_step [OF st']) (rule ends_drain_running [OF threads.inv_step [OF t(1) st']], simp)
qed (use assms(2) in simp)

lemma ends_rejecting:
  assumes "threads_inv s" "phase s = Rejecting"
  shows "shutdown_ends L cf s"
proof -
  obtain bo w m where d: "drain_pending_batch (watch (dmn s), registry (dmn s)) = (bo, w, m)" by (metis surjective_pairing)
  show ?thesis
  proof (cases bo)
    case None
    note st = thread_step.th_drain_none [OF assms(2) d [unfolded None], of L cf]
    show ?thesis by (rule ends_step [OF st]) (rule ends_to_stop [OF threads.inv_step [OF assms(1) st]], simp)
  next
    case (Some b)
    note st = thread_step.th_drain [OF assms(2) d [unfolded Some], of L cf]
    show ?thesis by (rule ends_step [OF st]) (rule ends_drained [OF threads.inv_step [OF assms(1) st], of b], simp)
  qed
qed

lemma shutdown_gets_on:
  assumes "threads_inv s" "phase s \<noteq> Serving"
  shows "shutdown_ends L cf s"
proof (cases "phase s")
  case Stopping
  note st = thread_step.th_reject [OF Stopping, of L cf]
  show ?thesis by (rule ends_step [OF st]) (rule ends_rejecting [OF threads.inv_step [OF assms(1) st]], simp)
next
  case Persisting
  with assms(1) show ?thesis by (auto simp: threads_inv_def phase_ok_def intro: ends_persisting)
qed (use assms in \<open>auto intro: ends_rejecting ends_drained ends_drain_running ends_to_stop ends_to_persist ends_done\<close>)

section \<open>Runs\<close>

lemma then_steps: "thread_step L cf s t \<Longrightarrow> (thread_step L cf)\<^sup>*\<^sup>* t u \<Longrightarrow> (thread_step L cf)\<^sup>*\<^sup>* s u"
  by (rule converse_rtranclp_into_rtranclp)

text \<open>One change, its debounce timer, and the flush, with nothing in between.\<close>

definition burst_daemon :: "file_change \<Rightarrow> ('g, 't) daemon \<Rightarrow> ('g, 't) daemon" where
  "burst_daemon c dm =
     (let (w1, m1) = queue_change c (watch dm, registry dm);
          dm1 = expire_timer (the (flush_timer w1)) (dm\<lparr>watch := w1, registry := m1\<rparr>);
          (b, w2, m2) = flush (watch dm1, registry dm1)
      in dm1\<lparr>watch := w2, registry := m2\<rparr>)"

abbreviation one_change :: "file_change \<Rightarrow> batch" where
  "one_change c \<equiv> \<lparr>changes = [c]\<rparr>"

lemma burst_frame:
  "lifecycle (burst_daemon c dm) = lifecycle dm" "index (burst_daemon c dm) = index dm"
  "holder (burst_daemon c dm) = holder dm" "cache (burst_daemon c dm) = cache dm" "disk_state (burst_daemon c dm) = disk_state dm"
  by (simp_all add: burst_daemon_def expire_timer_def split: prod.split)

lemma observing_queue: "queue_change c (w, m) = (w', m') \<Longrightarrow> observing w' = observing w"
  by (auto simp: queue_change_def Let_def start_timer_def cancel_timer_def split: if_splits option.splits)

lemma observing_flush: "flush (w, m) = (b, w', m') \<Longrightarrow> observing w' = observing w"
  by (auto simp: flush_def take_pending_def split: if_splits)

lemma burst_steps:
  assumes "observing (watch (dmn s))" "\<not> rejecting_events (watch (dmn s))" "pending (watch (dmn s)) = []"
  shows "(thread_step L cf)\<^sup>*\<^sup>* s (s\<lparr>dmn := burst_daemon c (dmn s), waiting := waiting s @ [one_change c],
      accepted := accepted s @ [c], cut := cut s @ [one_change c]\<rparr>)"
    and "observing (watch (burst_daemon c (dmn s)))" "\<not> rejecting_events (watch (burst_daemon c (dmn s)))"
    "pending (watch (burst_daemon c (dmn s))) = []"
proof -
  obtain w1 m1 where q: "queue_change c (watch (dmn s), registry (dmn s)) = (w1, m1)" by (metis surjective_pairing)
  note q1 = queue_outcome [OF q]
  from flush_live_queue [OF q assms(2)] obtain i d where
    t: "flush_timer w1 = Some i" "map_of (timers w1) i = Some (FlushJob, d)" by (auto simp: flush_live_def)
  define dm1 where "dm1 = expire_timer i ((dmn s)\<lparr>watch := w1, registry := m1\<rparr>)"
  obtain bo w2 m2 where f: "flush (watch dm1, registry dm1) = (bo, w2, m2)" by (metis surjective_pairing)
  have p1: "pending (watch dm1) = [c]" "rejecting_events (watch dm1) = rejecting_events (watch (dmn s))"
    using q1 assms(2,3) by (simp_all add: dm1_def)
  then have bo: "bo = Some (one_change c)" and p2: "pending w2 = []" "rejecting_events w2 = rejecting_events (watch (dmn s))"
    using f by (auto simp: flush_def take_pending_def)
  have b: "burst_daemon c (dmn s) = dm1\<lparr>watch := w2, registry := m2\<rparr>"
    using q t(1) f by (simp add: burst_daemon_def dm1_def)
  let ?s1 = "s\<lparr>dmn := (dmn s)\<lparr>watch := w1, registry := m1\<rparr>, accepted := accepted s @ [c]\<rparr>"
  let ?s2 = "?s1\<lparr>dmn := dm1, expired := Suc (expired s)\<rparr>"
  have 1: "thread_step L cf s ?s1" using thread_step.th_event [OF assms(1) q, of L cf] assms(2) by simp
  have 2: "thread_step L cf ?s1 ?s2"
    using thread_step.th_expire [of ?s1 i d L cf] t(2) by (simp add: dm1_def)
  have 3: "thread_step L cf ?s2 (?s2\<lparr>dmn := dm1\<lparr>watch := w2, registry := m2\<rparr>, expired := expired s,
       waiting := waiting s @ [one_change c], cut := cut s @ [one_change c]\<rparr>)"
    using thread_step.th_flush [of ?s2 "expired s" "one_change c" w2 m2 L cf] f bo by simp
  have "?s2\<lparr>dmn := dm1\<lparr>watch := w2, registry := m2\<rparr>, expired := expired s,
       waiting := waiting s @ [one_change c], cut := cut s @ [one_change c]\<rparr>
     = s\<lparr>dmn := burst_daemon c (dmn s), waiting := waiting s @ [one_change c], accepted := accepted s @ [c],
         cut := cut s @ [one_change c]\<rparr>" by (simp add: b)
  with then_steps [OF 1 then_steps [OF 2 r_into_rtranclp [of "thread_step L cf", OF 3]]]
  show "(thread_step L cf)\<^sup>*\<^sup>* s (s\<lparr>dmn := burst_daemon c (dmn s), waiting := waiting s @ [one_change c],
      accepted := accepted s @ [c], cut := cut s @ [one_change c]\<rparr>)"
    by (simp only:)
  have "observing w2"
    using observing_flush [OF f] observing_queue [OF q] assms(1) by (simp add: dm1_def expire_timer_def)
  then show "observing (watch (burst_daemon c (dmn s)))" "\<not> rejecting_events (watch (burst_daemon c (dmn s)))"
    "pending (watch (burst_daemon c (dmn s))) = []"
    using p2 assms(2) by (simp_all add: b)
qed

lemma persist_result:
  "isl (snd (persist_on_shutdown L cf dm))
     = isl (snd (run_all (artifact_writers L (current (holder dm)) (cache dm) (artifacts_of cf)) (disk_state dm)))"
  by (auto simp: persist_on_shutdown_def split: prod.split sum.split)

text \<open>A whole shutdown while a timer thread waits for the lock.\<close>

lemma shutdown_steps:
  assumes "phase s = Serving" "lifecycle (dmn s) = RUNNING" "pending (watch (dmn s)) = []" "lock s = None"
    and "\<not> isl (snd (persist_on_shutdown L cf (dmn s)))"
  shows "\<exists>t. (thread_step L cf)\<^sup>*\<^sup>* s t \<and> phase t = Finished \<and> lock t = None \<and> waiting t = waiting s \<and> accepted t = accepted s
    \<and> compiled t = compiled s \<and> failed t = failed s \<and> cut t = cut s \<and> \<not> conn_open (index (dmn t))"
proof -
  let ?s1 = "s\<lparr>dmn := (dmn s)\<lparr>lifecycle := STOPPING\<rparr>, phase := Stopping\<rparr>"
  let ?s2 = "?s1\<lparr>dmn := (dmn ?s1)\<lparr>watch := reject_new_events (watch (dmn ?s1))\<rparr>, phase := Rejecting\<rparr>"
  obtain bo w m where d: "drain_pending_batch (watch (dmn ?s2), registry (dmn ?s2)) = (bo, w, m)" by (metis surjective_pairing)
  with assms(3) have bo: "bo = None" by (auto simp: drain_pending_batch_def frame_simps Let_def reject_new_events_def split: if_splits)
  let ?s3 = "?s2\<lparr>dmn := (dmn ?s2)\<lparr>watch := w, registry := m\<rparr>, phase := ToStop\<rparr>"
  let ?s4 = "?s3\<lparr>dmn := (dmn ?s3)\<lparr>watch := stop_watcher (watch (dmn ?s3))\<rparr>, phase := ToPersist\<rparr>"
  let ?s5 = "?s4\<lparr>phase := Persisting, lock := Some PersistJob\<rparr>"
  obtain dm6 r where p: "persist_on_shutdown L cf (dmn ?s5) = (dm6, r)" by (metis surjective_pairing)
  have "isl (snd (persist_on_shutdown L cf (dmn ?s5))) = isl (snd (persist_on_shutdown L cf (dmn s)))"
    unfolding persist_result by simp
  with assms(5) p have r: "r = Inr ()" by (auto dest: not_isl)
  let ?s6 = "?s5\<lparr>dmn := dm6\<lparr>lifecycle := STOPPED\<rparr>, lock := None, phase := Finished, persisted := Some (compiled ?s5)\<rparr>"
  have 1: "thread_step L cf s ?s1" by (rule thread_step.th_begin [OF assms(1,2)])
  have 2: "thread_step L cf ?s1 ?s2" by (rule thread_step.th_reject) simp
  have 3: "thread_step L cf ?s2 ?s3" using d bo by (intro thread_step.th_drain_none) simp_all
  have 4: "thread_step L cf ?s3 ?s4" by (rule thread_step.th_stop) simp
  have 5: "thread_step L cf ?s4 ?s5" using assms(4) by (intro thread_step.th_persist_acquire) simp_all
  have 6: "thread_step L cf ?s5 ?s6" using p r by (intro thread_step.th_persist) simp_all
  have run: "(thread_step L cf)\<^sup>*\<^sup>* s ?s6"
    by (rule then_steps [OF 1 then_steps [OF 2 then_steps [OF 3 then_steps [OF 4 then_steps [OF 5
          r_into_rtranclp [of "thread_step L cf", OF 6]]]]]])
  have "\<not> conn_open (index dm6)" using persist_frame [OF p] r by simp
  with run show ?thesis by (intro exI [of _ ?s6]) simp
qed

lemma compile_steps:
  assumes "lock s = None" "waiting s = bs @ b # bs'" "on_batch L cf E b (dmn s) = (dm', r)"
  shows "(thread_step L cf)\<^sup>*\<^sup>* s (compiled_or_failed b r (s\<lparr>waiting := bs @ bs', dmn := dm'\<rparr>))"
proof -
  let ?s1 = "s\<lparr>waiting := bs @ bs', lock := Some (CompileJob b)\<rparr>"
  have 1: "thread_step L cf s ?s1" by (rule thread_step.th_acquire [OF assms(1,2)])
  have "thread_step L cf ?s1 (compiled_or_failed b r (?s1\<lparr>dmn := dm'\<rparr>))"
    using assms(3) by (intro thread_step.th_compile) simp_all
  moreover have "compiled_or_failed b r (?s1\<lparr>dmn := dm'\<rparr>) = compiled_or_failed b r (s\<lparr>waiting := bs @ bs', dmn := dm'\<rparr>)"
    by (simp add: compiled_or_failed_def split: sum.split)
  ultimately show ?thesis using 1 by (simp add: converse_rtranclp_into_rtranclp)
qed

section \<open>Properties\<close>

text \<open>C4. No change is lost or repeated between threads: however events, timers, compilations, the idle cycle
  and \<open>shutdown\<close> interleave, every accepted change is, in order, in one of the batches cut from the queue or still
  pending, and every such batch is in exactly one place: compiled, failed, or held by one thread.\<close>

theorem no_change_lost_between_threads:
  assumes "threads_init s" "(thread_step L cf)\<^sup>*\<^sup>* s t"
  shows "accepted t = concat (map changes (cut t)) @ pending (watch (dmn t))
    \<and> mset (cut t) = mset (compiled t) + mset (failed t) + mset (waiting t)
        + mset (job_batches (lock t)) + mset (phase_batches (phase t))"
  using threads.reachable_inv [OF assms] by (simp add: threads_inv_def conserved_def in_flight_def)

text \<open>C19. A pending change is never forgotten by the timers: in every reachable state with pending changes before
  the drain, the steps of the debounce timer alone lead to a state in which exactly these changes have been
  cut into the next batch, although timers are cancelled, replaced and expire at any moment.\<close>

theorem pending_changes_get_flushed:
  assumes "threads_init s" "(thread_step L cf)\<^sup>*\<^sup>* s t" "pending (watch (dmn t)) \<noteq> []"
  shows "\<exists>u. (thread_step L cf)\<^sup>*\<^sup>* t u \<and> cut u = cut t @ [\<lparr>changes = pending (watch (dmn t))\<rparr>]
    \<and> waiting u = waiting t @ [\<lparr>changes = pending (watch (dmn t))\<rparr>] \<and> pending (watch (dmn u)) = []"
proof -
  let ?goal = "\<lambda>v. \<exists>u. (thread_step L cf)\<^sup>*\<^sup>* v u \<and> cut u = cut v @ [\<lparr>changes = pending (watch (dmn v))\<rparr>]
    \<and> waiting u = waiting v @ [\<lparr>changes = pending (watch (dmn v))\<rparr>] \<and> pending (watch (dmn u)) = []"
  have flushed: "?goal v" if v: "pending (watch (dmn v)) \<noteq> []" "expired v = Suc n" for v :: "('a, 'b) threads" and n
  proof -
    obtain bo w m where f: "flush (watch (dmn v), registry (dmn v)) = (bo, w, m)" by (metis surjective_pairing)
    with v(1) obtain b where b: "bo = Some b" by (auto simp: flush_def take_pending_def)
    with flush_outcome(2) [of "watch (dmn v)" "registry (dmn v)" b w m] f
    have o: "b = \<lparr>changes = pending (watch (dmn v))\<rparr>" "pending w = []" by simp_all
    from thread_step.th_flush [OF v(2) f [unfolded b], of L cf] o show ?thesis
      by (intro exI conjI r_into_rtranclp) (assumption | simp)+
  qed
  have "flush_due t" using threads.reachable_inv [OF assms(1,2)] by (simp add: threads_inv_def)
  with assms(3) consider n where "expired t = Suc n" | "flush_live (watch (dmn t))"
    by (auto simp: flush_due_def Let_def gr0_conv_Suc)
  then show ?thesis
  proof cases
    case (1 n)
    with flushed [OF assms(3)] show ?thesis by blast
  next
    case 2
    then obtain i d where "map_of (timers (watch (dmn t))) i = Some (FlushJob, d)" by (auto simp: flush_live_def)
    note st = thread_step.th_expire [OF this, of L cf]
    from flushed [of "t\<lparr>dmn := expire_timer i (dmn t), expired := Suc (expired t)\<rparr>" "expired t"] assms(3) st
    show ?thesis by (auto intro: converse_rtranclp_into_rtranclp [of "thread_step L cf", OF st])
  qed
qed

text \<open>C20. Shutdown always ends: once \<open>shutdown\<close> has begun, from every reachable state the threads can run on until it has
  persisted or raised; no order of lock acquisitions leaves it waiting for a lock that nobody can release.\<close>

theorem shutdown_never_deadlocks:
  assumes "threads_init s" "(thread_step L cf)\<^sup>*\<^sup>* s t" "phase t \<noteq> Serving"
  shows "\<exists>u. (thread_step L cf)\<^sup>*\<^sup>* t u \<and> phase u \<in> {Finished, Aborted}"
  using shutdown_gets_on [OF threads.reachable_inv [OF assms(1,2)] assms(3)] unfolding shutdown_ends_def .


text \<open>C38. Shutdown can lose an accepted batch: a batch that a timer thread has taken out of the queue is not drained any
  more, and if that thread gets the coordinator's lock only after the final persist, the daemon finishes without the
  batch, whose compilation then fails on the closed index. The run exists for every started daemon that can persist
  and every change.\<close>

theorem shutdown_race_loses_batch:
  assumes "just_started dm" "observing (watch dm)" "\<not> rejecting_events (watch dm)"
    and "\<not> isl (snd (persist_on_shutdown L cf dm))"
  shows "\<exists>t u. (thread_step L cf)\<^sup>*\<^sup>* (threads_start dm) t \<and> phase t = Finished \<and> accepted t = [c]
    \<and> persisted t = Some [] \<and> (thread_step L cf)\<^sup>*\<^sup>* t u \<and> compiled u = [] \<and> failed u = [one_change c]"
proof -
  obtain E :: env where True by simp
  let ?s = "threads_start dm"
  have s: "observing (watch (dmn ?s))" "\<not> rejecting_events (watch (dmn ?s))" "pending (watch (dmn ?s)) = []"
    using assms(1-3) by (simp_all add: threads_start_def just_started_def)
  let ?s1 = "?s\<lparr>dmn := burst_daemon c (dmn ?s), waiting := waiting ?s @ [one_change c],
      accepted := accepted ?s @ [c], cut := cut ?s @ [one_change c]\<rparr>"
  note burst = burst_steps(1) [OF s, of L cf c]
  have "\<not> isl (snd (persist_on_shutdown L cf (dmn ?s1)))"
    using assms(4) unfolding persist_result by (simp add: burst_frame threads_start_def)
  moreover have "phase ?s1 = Serving" "lifecycle (dmn ?s1) = RUNNING" "pending (watch (dmn ?s1)) = []" "lock ?s1 = None"
    using assms(1) burst_steps(4) [OF s, of c] by (simp_all add: burst_frame threads_start_def just_started_def)
  ultimately obtain t where t: "(thread_step L cf)\<^sup>*\<^sup>* ?s1 t" "phase t = Finished" "lock t = None" "waiting t = [one_change c]"
    "accepted t = [c]" "compiled t = []" "failed t = []" "\<not> conn_open (index (dmn t))"
    using shutdown_steps [of ?s1 L cf] by (auto simp: threads_start_def)
  from burst t(1) have run: "(thread_step L cf)\<^sup>*\<^sup>* ?s t" by (rule rtranclp_trans)
  have "threads_init ?s" using assms(1) by (simp add: threads_init_def threads_start_def)
  from threads.reachable_inv [OF this run] t(2,6) have p: "persisted t = Some []" by (auto simp: threads_inv_def phase_ok_def)
  obtain dm' r where o: "on_batch L cf E (one_change c) (dmn t) = (dm', r)" by (metis surjective_pairing)
  from compile_steps [OF t(3) _ o, of "[]" "[]"] t(4)
  have "(thread_step L cf)\<^sup>*\<^sup>* t (compiled_or_failed (one_change c) r (t\<lparr>waiting := [], dmn := dm'\<rparr>))" by simp
  with run t p compile_frame(3) [OF o t(8)] show ?thesis
    by (intro exI [of _ t] exI [of _ "compiled_or_failed (one_change c) r (t\<lparr>waiting := [], dmn := dm'\<rparr>)"]) simp
qed

definition sample_started :: "(sample_graph, nat) daemon" where
  "sample_started = start_daemon (sample_daemon [])"

lemma sample_just_started:
  "just_started sample_started" "observing (watch sample_started)" "\<not> rejecting_events (watch sample_started)"
  "\<not> isl (snd (persist_on_shutdown sample_lib sample_config sample_started))"
proof -
  show "just_started sample_started" "observing (watch sample_started)" "\<not> rejecting_events (watch sample_started)"
    by (simp_all add: sample_started_def start_daemon_def start_watcher_def sample_daemon_def just_started_def new_watcher_def)
  show "\<not> isl (snd (persist_on_shutdown sample_lib sample_config sample_started))" by code_simp
qed

theorem shutdown_race_loses_batch_witness:
  "\<exists>t. (thread_step sample_lib sample_config)\<^sup>*\<^sup>* (threads_start sample_started) t \<and> phase t = Finished
     \<and> accepted t = [sample_change CREATED ''a.md''] \<and> persisted t = Some []"
  using shutdown_race_loses_batch [OF sample_just_started, where c = "sample_change CREATED ''a.md''"] by blast

lemma sample_threads_init: "threads_init (threads_start sample_started)"
  using sample_just_started(1) by (simp add: threads_init_def threads_start_def)

text \<open>One change of the sample daemon, queued and flushed.\<close>

lemma sample_burst_run:
  "\<exists>t. (thread_step sample_lib sample_config)\<^sup>*\<^sup>* (threads_start sample_started) t \<and> accepted t = [c] \<and> cut t = [one_change c]
     \<and> waiting t = [one_change c] \<and> phase t = Serving \<and> lock t = None \<and> failed t = [] \<and> compiled t = []
     \<and> dmn t = burst_daemon c sample_started"
proof -
  have "observing (watch (dmn (threads_start sample_started)))" "\<not> rejecting_events (watch (dmn (threads_start sample_started)))"
    "pending (watch (dmn (threads_start sample_started))) = []"
    using sample_just_started by (simp_all add: threads_start_def just_started_def)
  from burst_steps(1) [OF this, of sample_lib sample_config c] show ?thesis
    by (intro exI conjI) (assumption | simp add: threads_start_def)+
qed

theorem no_change_lost_between_threads_witness:
  "\<exists>t. (thread_step sample_lib sample_config)\<^sup>*\<^sup>* (threads_start sample_started) t \<and> waiting t \<noteq> []
     \<and> accepted t = concat (map changes (cut t)) @ pending (watch (dmn t))"
proof -
  obtain t where t: "(thread_step sample_lib sample_config)\<^sup>*\<^sup>* (threads_start sample_started) t"
    "waiting t = [one_change (sample_change CREATED ''a.md'')]" using sample_burst_run by blast
  from no_change_lost_between_threads [OF sample_threads_init t(1)] t show ?thesis by auto
qed

theorem pending_changes_get_flushed_witness:
  "\<exists>u. (thread_step sample_lib sample_config)\<^sup>*\<^sup>* (threads_start sample_started) u
     \<and> waiting u = [one_change (sample_change CREATED ''a.md'')]"
proof -
  let ?s = "threads_start sample_started" and ?c = "sample_change CREATED ''a.md''"
  obtain w m where q: "queue_change ?c (watch (dmn ?s), registry (dmn ?s)) = (w, m)" by (metis surjective_pairing)
  let ?t = "?s\<lparr>dmn := (dmn ?s)\<lparr>watch := w, registry := m\<rparr>,
      accepted := (if rejecting_events (watch (dmn ?s)) then accepted ?s else accepted ?s @ [?c])\<rparr>"
  have o: "observing (watch (dmn ?s))" using sample_just_started(2) by (simp add: threads_start_def)
  have st: "(thread_step sample_lib sample_config)\<^sup>*\<^sup>* ?s ?t"
    by (rule r_into_rtranclp) (rule thread_step.th_event [OF o q])
  have p: "pending (watch (dmn ?t)) = [?c]"
    using queue_outcome(1) [OF q] sample_just_started(1,3) by (simp add: threads_start_def just_started_def)
  from pending_changes_get_flushed [OF sample_threads_init st] p obtain u where
    "(thread_step sample_lib sample_config)\<^sup>*\<^sup>* ?t u" "waiting u = waiting ?t @ [one_change ?c]" by auto
  with st show ?thesis by (intro exI [of _ u]) (auto simp: threads_start_def intro: rtranclp_trans)
qed

theorem shutdown_never_deadlocks_witness:
  "\<exists>u. (thread_step sample_lib sample_config)\<^sup>*\<^sup>* (threads_start sample_started) u \<and> phase u \<in> {Finished, Aborted}"
proof -
  let ?s = "threads_start sample_started"
  let ?t = "?s\<lparr>dmn := (dmn ?s)\<lparr>lifecycle := STOPPING\<rparr>, phase := Stopping\<rparr>"
  have "phase ?s = Serving" "lifecycle (dmn ?s) = RUNNING"
    using sample_just_started(1) by (simp_all add: threads_start_def just_started_def)
  then have st: "(thread_step sample_lib sample_config)\<^sup>*\<^sup>* ?s ?t"
    by (intro r_into_rtranclp thread_step.th_begin)
  from shutdown_never_deadlocks [OF sample_threads_init st] st show ?thesis by (auto intro: rtranclp_trans)
qed


lemma out_of_order_run:
  assumes "just_started dm" "observing (watch dm)" "\<not> rejecting_events (watch dm)"
    and o1: "on_batch L cf E (one_change c2) (burst_daemon c2 (burst_daemon c1 dm)) = (d1, Inr ())"
    and o2: "on_batch L cf E (one_change c1) d1 = (d2, Inr ())"
  shows "\<exists>t. (thread_step L cf)\<^sup>*\<^sup>* (threads_start dm) t \<and> cut t = [one_change c1, one_change c2]
    \<and> compiled t = [one_change c2, one_change c1] \<and> failed t = [] \<and> in_flight t = [] \<and> dmn t = d2"
proof -
  let ?s = "threads_start dm"
  have s: "observing (watch (dmn ?s))" "\<not> rejecting_events (watch (dmn ?s))" "pending (watch (dmn ?s)) = []"
    using assms(1-3) by (simp_all add: threads_start_def just_started_def)
  define s1 where "s1 = ?s\<lparr>dmn := burst_daemon c1 (dmn ?s), waiting := waiting ?s @ [one_change c1],
      accepted := accepted ?s @ [c1], cut := cut ?s @ [one_change c1]\<rparr>"
  have s1: "observing (watch (dmn s1))" "\<not> rejecting_events (watch (dmn s1))" "pending (watch (dmn s1)) = []"
    using burst_steps(2-4) [OF s, of c1] by (simp_all add: s1_def)
  define s2 where "s2 = s1\<lparr>dmn := burst_daemon c2 (dmn s1), waiting := waiting s1 @ [one_change c2],
      accepted := accepted s1 @ [c2], cut := cut s1 @ [one_change c2]\<rparr>"
  have d: "dmn s2 = burst_daemon c2 (burst_daemon c1 dm)" "waiting s2 = [one_change c1] @ one_change c2 # []" "lock s2 = None"
    by (simp_all add: threads_start_def s1_def s2_def)
  define s3 where "s3 = compiled_or_failed (one_change c2) (Inr ()) (s2\<lparr>waiting := [one_change c1] @ [], dmn := d1\<rparr>)"
  have d3: "dmn s3 = d1" "waiting s3 = [] @ one_change c1 # []" "lock s3 = None" by (simp_all add: s3_def)
  define s4 where "s4 = compiled_or_failed (one_change c1) (Inr ()) (s3\<lparr>waiting := [] @ [], dmn := d2\<rparr>)"
  have "(thread_step L cf)\<^sup>*\<^sup>* ?s s1" "(thread_step L cf)\<^sup>*\<^sup>* s1 s2"
    using burst_steps(1) [OF s, of L cf c1] burst_steps(1) [OF s1, of L cf c2] by (simp_all only: s1_def s2_def)
  moreover have "(thread_step L cf)\<^sup>*\<^sup>* s2 s3"
    unfolding s3_def by (rule compile_steps [OF d(3,2), where E = E]) (simp only: d(1) o1)
  moreover have "(thread_step L cf)\<^sup>*\<^sup>* s3 s4"
    unfolding s4_def by (rule compile_steps [OF d3(3,2), where E = E]) (simp only: d3(1) o2)
  ultimately have "(thread_step L cf)\<^sup>*\<^sup>* ?s s4" by (meson rtranclp_trans)
  then show ?thesis
    by (intro exI [of _ s4] conjI) (assumption | simp add: s4_def s3_def s2_def s1_def threads_start_def in_flight_def)+
qed

text \<open>A vault in which \<open>gone.md\<close> was created and deleted again before it could be read.\<close>

definition gone_env :: env where
  "gone_env = sample_env\<lparr>e_world := sample_world\<lparr>w_extract_markdown := \<lambda>p. Inl (Exn FileNotFoundError [])\<rparr>\<rparr>"

definition gone_row :: "(sample_graph, nat) daemon \<Rightarrow> file_row option" where
  "gone_row dm = (case files_table (index dm) of None \<Rightarrow> None | Some rs \<Rightarrow> map_of rs (pstr ''gone.md''))"

text \<open>C39. Batches can be compiled out of order, with a visible effect: two debounce threads may wait for the coordinator's
  lock at once, and the lock does not say which goes first. For a file that was created in one batch and deleted
  in the next, the swapped order leaves its row in the index although the file is gone; in order it leaves
  none.\<close>

theorem out_of_order_leaves_phantom_row:
  "\<exists>t b1 b2. (thread_step sample_lib sample_config)\<^sup>*\<^sup>* (threads_start sample_started) t
     \<and> b1 = one_change (sample_change CREATED ''gone.md'') \<and> b2 = one_change (sample_change DELETED ''gone.md'')
     \<and> cut t = [b1, b2] \<and> compiled t = [b2, b1] \<and> failed t = [] \<and> in_flight t = []
     \<and> isl (w_stat (e_world gone_env) (vault_file ''gone.md'')) \<and> gone_row (dmn t) \<noteq> None
     \<and> gone_row (fst (on_batch sample_lib sample_config gone_env b2
          (fst (on_batch sample_lib sample_config gone_env b1 sample_started)))) = None"
proof -
  let ?c1 = "sample_change CREATED ''gone.md''" and ?c2 = "sample_change DELETED ''gone.md''"
  let ?dm = "burst_daemon ?c2 (burst_daemon ?c1 sample_started)"
  have e: "case on_batch sample_lib sample_config gone_env (one_change ?c2) ?dm of (d1, r1) \<Rightarrow> \<not> isl r1 \<and>
      (case on_batch sample_lib sample_config gone_env (one_change ?c1) d1 of (d2, r2) \<Rightarrow> \<not> isl r2 \<and> gone_row d2 \<noteq> None)"
    by code_simp
  have i: "gone_row (fst (on_batch sample_lib sample_config gone_env (one_change ?c2)
      (fst (on_batch sample_lib sample_config gone_env (one_change ?c1) sample_started)))) = None"
    "isl (w_stat (e_world gone_env) (vault_file ''gone.md''))"
    by code_simp+
  obtain d1 r1 where o1: "on_batch sample_lib sample_config gone_env (one_change ?c2) ?dm = (d1, r1)" by (metis surjective_pairing)
  obtain d2 r2 where o2: "on_batch sample_lib sample_config gone_env (one_change ?c1) d1 = (d2, r2)" by (metis surjective_pairing)
  from e o1 o2 have r: "r1 = Inr ()" "r2 = Inr ()" "gone_row d2 \<noteq> None" by (auto dest: not_isl)
  from out_of_order_run [OF sample_just_started(1-3) o1 [unfolded r(1)] o2 [unfolded r(2)]] r(3) i show ?thesis by blast
qed

end
