(* ===== verification/Observability.thy ===== *)
theory Observability
  imports Daemon "HOL-Library.Multiset"
begin

text \<open>
  \<open>collect_metrics\<close> of \<open>artifact_lifecycle/metrics.py\<close>: the payload of the metrics endpoint, read from
  the registry, the snapshot holder and the query cache, with the two facts about the process that
  come from outside (\<open>ps\<close>, git and the environment). The \<open>dict\<close> it returns, whose keys are fixed,
  is a record.
\<close>

section \<open>The endpoint's payload\<close>

record process_facts =
  pf_environ :: "(string, pystr) dict"
  pf_rev_parse :: "pystr res"
  pf_status :: "pystr res"
  pf_ps :: "pystr res"
  pf_now :: real

record metrics_payload =
  queue_depth :: real
  snapshot_version :: "nat option"
  lru_cache_hit_rate :: real
  query_latency_seconds :: percentiles
  seconds_since_last_clustering :: "real option"
  resident_bytes :: int
  extraction_error_count :: int
  git_sha :: "pystr option"
  git_dirty :: "bool option"

definition collect_metrics ::
  "process_facts \<Rightarrow> metrics \<Rightarrow> ('g, 't) snapshot_holder \<Rightarrow> query_cache \<Rightarrow> metrics_payload res" where
  "collect_metrics pf m h q =
     (let (sha, dirty) = resolve_git_revision (pf_environ pf) (pf_rev_parse pf) (pf_status pf)
      in bindR (rss_bytes (pf_ps pf)) (\<lambda>rss.
         Inr \<lparr>queue_depth = (case gauge m ''queue_depth'' of None \<Rightarrow> 0 | Some d \<Rightarrow> d),
              snapshot_version = map_option version (current h),
              lru_cache_hit_rate = hit_rate q,
              query_latency_seconds = latency_percentiles m ''query'',
              seconds_since_last_clustering = seconds_since_event m ''clustering_success'' (pf_now pf),
              resident_bytes = rss,
              extraction_error_count = counter m ''extraction_errors'',
              git_sha = sha, git_dirty = dirty\<rparr>))"

lemma collect_metrics_Inr:
  assumes "collect_metrics pf m h q = Inr p"
  shows "queue_depth p = (case gauge m ''queue_depth'' of None \<Rightarrow> 0 | Some d \<Rightarrow> d)"
    "snapshot_version p = map_option version (current h)"
    "query_latency_seconds p = latency_percentiles m ''query''"
    "lru_cache_hit_rate p = hit_rate q"
    "extraction_error_count p = counter m ''extraction_errors''"
    "(git_sha p, git_dirty p) = resolve_git_revision (pf_environ pf) (pf_rev_parse pf) (pf_status pf)"
  using assms by (auto simp: collect_metrics_def bindR_Inr_iff Let_def split: prod.splits)

lemma collect_metrics_total: "isl (collect_metrics pf m h q) \<longleftrightarrow> isl (rss_bytes (pf_ps pf))"
  by (cases "rss_bytes (pf_ps pf)") (simp_all add: collect_metrics_def Let_def split: prod.split)

section \<open>The gauge and the queue\<close>

text \<open>The calls of the watcher that write the gauge or the queue.\<close>

datatype queue_op = Queued file_change | Flushed | Drained | Rejecting

fun run_queue_op :: "queue_op \<Rightarrow> watcher \<times> metrics option \<Rightarrow> watcher \<times> metrics option" where
  "run_queue_op (Queued c) s = queue_change c s"
| "run_queue_op Flushed s = snd (flush s)"
| "run_queue_op Drained s = snd (drain_pending_batch s)"
| "run_queue_op Rejecting (w, m) = (reject_new_events w, m)"

definition run_queue :: "queue_op list \<Rightarrow> watcher \<times> metrics option \<Rightarrow> watcher \<times> metrics option" where
  "run_queue ops s = fold run_queue_op ops s"

text \<open>The registry is there, and its gauge is the number of pending changes (0 when it was never set).\<close>

definition depth_reported :: "watcher \<times> metrics option \<Rightarrow> bool" where
  "depth_reported s \<longleftrightarrow> (\<exists>m. snd s = Some m \<and>
     (case gauge m ''queue_depth'' of None \<Rightarrow> 0 | Some d \<Rightarrow> d) = real (length (pending (fst s))))"

lemma depth_queue: "depth_reported s \<Longrightarrow> depth_reported (queue_change c s)"
  by (cases s) (auto simp: depth_reported_def queue_change_def Let_def frame_simps)

lemma depth_hand_over:
  "depth_reported s \<Longrightarrow> depth_reported (snd (flush s))"
  "depth_reported s \<Longrightarrow> depth_reported (snd (drain_pending_batch s))"
  by (cases s; auto simp: depth_reported_def flush_def drain_pending_batch_def take_pending_def frame_simps Let_def)+

lemma depth_op: "depth_reported s \<Longrightarrow> depth_reported (run_queue_op x s)"
proof (induction x s rule: run_queue_op.induct)
  case (4 w m)
  then show ?case by (auto simp: depth_reported_def reject_new_events_def)
qed (simp_all add: depth_queue depth_hand_over)

lemma depth_run: "depth_reported s \<Longrightarrow> depth_reported (run_queue ops s)"
  by (induction ops arbitrary: s) (simp_all add: run_queue_def depth_op)

text \<open>A percentile has the rank it is named after.\<close>

lemma pct_rank:
  assumes "sorted samples" "samples \<noteq> []" "0 \<le> p" "p \<le> 1"
  shows "real (length samples) * p \<le> real (length (filter (\<lambda>x. x \<le> pct samples p) samples))"
    "real (length (filter (\<lambda>x. x < pct samples p) samples)) \<le> real (length samples) * p"
proof -
  let ?n = "length samples"
  define k where "k = nat (min (int ?n - 1) \<lfloor>real ?n * p\<rfloor>)"
  have k: "k < ?n" "pct samples p = samples ! k"
    using pct_index [OF assms(2,3)] by (simp_all add: k_def pct_def)
  have split: "length (filter P samples) = length (filter P (take m samples)) + length (filter P (drop m samples))" for P m
    by (metis append_take_drop_id filter_append length_append)
  have "filter (\<lambda>x. x \<le> samples ! k) (take (Suc k) samples) = take (Suc k) samples"
    using k(1) sorted_nth_mono [OF assms(1)] by (auto simp: filter_id_conv in_set_conv_nth less_Suc_eq_le)
  then have le: "Suc k \<le> length (filter (\<lambda>x. x \<le> samples ! k) samples)"
    using k(1) split [of "\<lambda>x. x \<le> samples ! k" "Suc k"] by simp
  have "filter (\<lambda>x. x < samples ! k) (drop k samples) = []"
    using k(1) sorted_nth_mono [OF assms(1)] by (auto simp: filter_empty_conv in_set_conv_nth not_less)
  then have lt: "length (filter (\<lambda>x. x < samples ! k) samples) \<le> k"
    using length_filter_le [of "\<lambda>x. x < samples ! k" "take k samples"] split [of "\<lambda>x. x < samples ! k" k] by simp
  have f: "0 \<le> real ?n * p" "real ?n * p \<le> real ?n" using assms(3,4) by (simp_all add: mult_left_le)
  have "real ?n * p \<le> real (Suc k) \<and> real k \<le> real ?n * p"
  proof (cases "int ?n - 1 \<le> \<lfloor>real ?n * p\<rfloor>")
    case True
    then have "Suc k = ?n" "real k \<le> of_int \<lfloor>real ?n * p\<rfloor>" using k(1) by (auto simp: k_def)
    with f show ?thesis using of_int_floor_le [of "real ?n * p"] by linarith
  next
    case False
    then have "int k = \<lfloor>real ?n * p\<rfloor>" using f by (simp add: k_def)
    then have "real k = of_int \<lfloor>real ?n * p\<rfloor>" by (metis of_int_of_nat_eq)
    then show ?thesis using floor_correct [of "real ?n * p"] by (simp, linarith)
  qed
  with le lt show "real ?n * p \<le> real (length (filter (\<lambda>x. x \<le> pct samples p) samples))"
    "real (length (filter (\<lambda>x. x < pct samples p) samples)) \<le> real ?n * p"
    unfolding k(2) by linarith+
qed

definition has_rank :: "real list \<Rightarrow> real \<Rightarrow> real \<Rightarrow> bool" where
  "has_rank xs p v \<longleftrightarrow> v \<in> set xs \<and> real (length xs) * p \<le> real (length (filter (\<lambda>x. x \<le> v) xs))
     \<and> real (length (filter (\<lambda>x. x < v) xs)) \<le> real (length xs) * p"

lemma has_rank_pct: "xs \<noteq> [] \<Longrightarrow> 0 \<le> p \<Longrightarrow> p \<le> 1 \<Longrightarrow> has_rank xs p (pct (sort xs) p)"
proof -
  assume h: "xs \<noteq> []" "0 \<le> p" "p \<le> 1"
  have s: "sort xs \<noteq> []" using h(1) by (metis set_empty set_sort)
  have l: "length (filter P (sort xs)) = length (filter P xs)" for P
    by (metis mset_filter mset_sort size_mset)
  show ?thesis
    using pct_mem [OF s h(2)] pct_rank [OF sorted_sort s h(2,3)] by (simp add: has_rank_def l)
qed

lemma latency_percentiles_rank:
  assumes "dict_get (latencies m) name [] = xs" "xs \<noteq> []" "latency_percentiles m name = p"
  shows "has_rank xs (50 / 100) (p50 p) \<and> has_rank xs (95 / 100) (p95 p) \<and> has_rank xs (99 / 100) (p99 p)
    \<and> p50 p \<le> p95 p \<and> p95 p \<le> p99 p"
proof -
  have s: "sort xs \<noteq> []" using assms(2) by (metis set_empty set_sort)
  then show ?thesis
    using assms has_rank_pct [OF assms(2)] pct_mono [OF sorted_sort s]
    by (auto simp: latency_percentiles_def Let_def)
qed

section \<open>Properties\<close>

text \<open>The queue depth of the endpoint is the truth: from a new watcher and registry, after any
  sequence of queued changes, flushes and drains, also once events are rejected, the reported depth is the
  number of changes that are pending.\<close>

theorem reported_queue_depth:
  assumes "run_queue ops (new_watcher base ms nested threshold, Some (new_metrics window)) = (w, Some m)"
    and "collect_metrics pf m h q = Inr p"
  shows "queue_depth p = real (length (pending w))"
proof -
  have "depth_reported (new_watcher base ms nested threshold, Some (new_metrics window))"
    by (simp add: depth_reported_def new_watcher_def new_metrics_def gauge_def)
  from depth_run [OF this, of ops] assms show ?thesis
    by (simp add: depth_reported_def collect_metrics_Inr(1))
qed

definition sample_facts :: process_facts where
  "sample_facts =
     \<lparr>pf_environ = [], pf_rev_parse = Inr (pstr ''4f2a'' @ [newline]), pf_status = Inl (Exn CalledProcessError []),
      pf_ps = Inr (pstr '' 2048'' @ [newline]), pf_now = 9\<rparr>"

lemma sample_facts_read:
  "rss_bytes (pf_ps sample_facts) = Inr 2097152"
  "resolve_git_revision (pf_environ sample_facts) (pf_rev_parse sample_facts) (pf_status sample_facts) = (None, None)"
  by (simp_all add: sample_facts_def rss_bytes_def py_int_def py_strip_def strip_by_def is_space_def is_digit_def
      pstr_def MAX_STR_DIGITS_def Let_def resolve_git_revision_def dict_get_def)

theorem reported_queue_depth_witness:
  "\<exists>w m p. run_queue (map Queued (sample_burst 3)) (new_watcher sample_root 300 {} 200, Some (new_metrics 10)) = (w, Some m)
     \<and> collect_metrics sample_facts m (new_holder :: (sample_graph, nat) snapshot_holder) (new_query_cache 8) = Inr p
     \<and> queue_depth p = 3 \<and> resident_bytes p = 2097152 \<and> git_sha p = None"
proof -
  obtain w m where r: "run_queue (map Queued (sample_burst 3)) (new_watcher sample_root 300 {} 200, Some (new_metrics 10)) = (w, Some m)"
    and l: "length (pending w) = 3"
    by (simp add: run_queue_def sample_burst_def eval_nat_numeral queue_change_def Let_def new_watcher_def
        cancel_timer_def start_timer_def)
  obtain p where c: "collect_metrics sample_facts m (new_holder :: (sample_graph, nat) snapshot_holder) (new_query_cache 8) = Inr p"
    and l2: "resident_bytes p = 2097152" "git_sha p = None"
    by (simp add: collect_metrics_def sample_facts_read)
  from reported_queue_depth [OF r c] r c l l2 show ?thesis by auto
qed

text \<open>The reported latencies are percentiles of the last calls: after any non-empty run of tool calls,
  hits, misses and failures alike, p50, p95 and p99 are durations of the last \<open>window\<close> calls, in
  ascending order, and each has its rank: at least that share of the durations is not above it,
  at most that share is below it.\<close>

theorem reported_latencies:
  assumes "calls \<noteq> []" "0 < window"
    and "fold (serve_one L) calls (qc, Some (new_metrics window)) = (q, Some m)"
    and "collect_metrics pf m h q = Inr p"
    and "durations = drop (length calls - window) (map (\<lambda>c. call_end c - call_start c) calls)"
  shows "has_rank durations (50 / 100) (p50 (query_latency_seconds p))
    \<and> has_rank durations (95 / 100) (p95 (query_latency_seconds p))
    \<and> has_rank durations (99 / 100) (p99 (query_latency_seconds p))
    \<and> p50 (query_latency_seconds p) \<le> p95 (query_latency_seconds p)
    \<and> p95 (query_latency_seconds p) \<le> p99 (query_latency_seconds p)"
proof (rule latency_percentiles_rank)
  have z: "dict_get (latencies (new_metrics window)) ''query'' [] = []" "latency_window (new_metrics window) = window"
    by (simp_all add: new_metrics_def dict_get_def)
  have "m = fold (record_latency ''query'') (map (\<lambda>c. call_end c - call_start c) calls) (new_metrics window)"
    using serve_metrics [of L calls "(qc, Some (new_metrics window))"] assms(3) by simp
  then show "dict_get (latencies m) ''query'' [] = durations"
    using latency_fold [of "''query''" "map (\<lambda>c. call_end c - call_start c) calls" "new_metrics window"]
      deque_append_fold [of "[]" window "map (\<lambda>c. call_end c - call_start c) calls"] z assms(5) by simp
  show "durations \<noteq> []" using assms(1,2) by (simp add: assms(5) not_le)
  show "latency_percentiles m ''query'' = query_latency_seconds p" using assms(4) by (simp add: collect_metrics_Inr(3))
qed

definition sample_calls :: "(sample_graph, nat) call list" where
  "sample_calls = map (\<lambda>d. \<lparr>call_start = 0, call_end = d, call_name = [], call_params = None, call_snapshot = None\<rparr>) [7, 3, 1]"

theorem reported_latencies_witness:
  "\<exists>q m p. fold (serve_one sample_lib) sample_calls (new_query_cache 8, Some (new_metrics 2)) = (q, Some m)
     \<and> collect_metrics sample_facts m (new_holder :: (sample_graph, nat) snapshot_holder) q = Inr p
     \<and> has_rank [3, 1] (50 / 100) (p50 (query_latency_seconds p))"
proof -
  obtain q m where r: "fold (serve_one sample_lib) sample_calls (new_query_cache 8, Some (new_metrics 2)) = (q, Some m)"
    using serve_metrics [of sample_lib sample_calls "(new_query_cache 8, Some (new_metrics 2))"]
    by (cases "fold (serve_one sample_lib) sample_calls (new_query_cache 8, Some (new_metrics 2))") auto
  obtain p where c: "collect_metrics sample_facts m (new_holder :: (sample_graph, nat) snapshot_holder) q = Inr p"
    by (simp add: collect_metrics_def sample_facts_read)
  have d: "[3, 1] = drop (length sample_calls - 2) (map (\<lambda>c. call_end c - call_start c) sample_calls)" "sample_calls \<noteq> []"
    by (simp_all add: sample_calls_def)
  from reported_latencies [OF d(2) _ r c d(1)] r c show ?thesis by auto
qed

end
