(* ===== verification/Transport.thy ===== *)
theory Transport
  imports Utf8 Py_Numbers "HOL-Library.List_Lexorder"
begin

text \<open>
  \<open>graph_query_api/transport.py\<close> and \<open>errors.py\<close>: the start-up checks on host and API key, the
  API-key gate in front of every HTTP request, and what \<open>run\<close> hands to uvicorn. A header is a pair
  of byte strings, its name in lower case as ASGI delivers it. What happens behind the gate
  (Starlette's routes, the MCP session manager) is third-party; the gate's answer is to forward or
  to respond itself.
\<close>

definition DEFAULT_HOST :: pystr where
  "DEFAULT_HOST = pstr ''127.0.0.1''"

definition DEFAULT_PORT :: int where
  "DEFAULT_PORT = 8787"

definition ALLOWED_HOSTS :: "pystr list" where
  "ALLOWED_HOSTS = [pstr ''127.0.0.1'', pstr ''localhost'']"

definition MCP_PATH :: pystr where
  "MCP_PATH = pstr ''/mcp''"

definition DEFAULT_SHUTDOWN_TIMEOUT_SECONDS :: int where
  "DEFAULT_SHUTDOWN_TIMEOUT_SECONDS = 5"

section \<open>Start-up checks\<close>

text \<open>\<open>rep\<close> is \<open>repr\<close> of a string.\<close>

definition validate_host :: "(pystr \<Rightarrow> pystr) \<Rightarrow> pystr \<Rightarrow> unit res" where
  "validate_host rep host =
     (if host \<notin> set ALLOWED_HOSTS
      then Inl (Exn ConfigurationError
        (pstr ''GRAPHIFY_DAEMON_HOST must be one of ['' @ py_join (pstr '', '') (map rep ALLOWED_HOSTS) @ pstr ''], got ''
           @ rep host @ pstr ''. This daemon never binds to a non-loopback interface.''))
      else Inr ())"

definition validate_api_key :: "pystr option \<Rightarrow> pystr res" where
  "validate_api_key api_key =
     (case api_key of
        Some k \<Rightarrow> if k \<noteq> [] then Inr k
          else Inl (Exn ConfigurationError (pstr ''GRAPHIFY_DAEMON_API_KEY must be set to a non-empty value. '' @
            pstr ''This daemon never starts unauthenticated.''))
      | None \<Rightarrow> Inl (Exn ConfigurationError (pstr ''GRAPHIFY_DAEMON_API_KEY must be set to a non-empty value. '' @
            pstr ''This daemon never starts unauthenticated.'')))"

section \<open>Bytes\<close>

definition bytes_lower :: "bytes \<Rightarrow> bytes" where
  "bytes_lower b = map (\<lambda>c. let n = (of_char c :: nat) in if 65 \<le> n \<and> n \<le> 90 then char_of (n + 32) else c) b"

definition bytes_space :: "char \<Rightarrow> bool" where
  "bytes_space c \<longleftrightarrow> (let n = (of_char c :: nat) in 9 \<le> n \<and> n \<le> 13 \<or> n = 32)"

definition bytes_strip :: "bytes \<Rightarrow> bytes" where
  "bytes_strip b = strip_by bytes_space b"

text \<open>\<open>b.partition(c)\<close> without the separator: what is before the first \<open>c\<close>, and what is after it.\<close>

definition bytes_partition :: "char \<Rightarrow> bytes \<Rightarrow> bytes \<times> bytes" where
  "bytes_partition c b = (takeWhile (\<lambda>x. x \<noteq> c) b, drop 1 (dropWhile (\<lambda>x. x \<noteq> c) b))"

section \<open>The gate\<close>

record asgi_scope =
  scope_type :: string
  scope_headers :: "(bytes \<times> bytes) list option"

datatype asgi_action =
    Forward
  | Respond nat "(bytes \<times> bytes) list" bytes

record api_key_middleware =
  expected_key :: bytes

definition mk_middleware :: "pystr \<Rightarrow> api_key_middleware res" where
  "mk_middleware api_key = bindR (utf8_encode api_key) (\<lambda>b. Inr \<lparr>expected_key = b\<rparr>)"

definition single_header :: "(bytes \<times> bytes) list \<Rightarrow> bytes \<Rightarrow> bytes option" where
  "single_header raw_headers name =
     (let matches = map snd (filter (\<lambda>kv. fst kv = name) raw_headers)
      in if length matches = 1 then Some (hd matches) else None)"

definition UNAUTHORIZED_BODY :: bytes where
  "UNAUTHORIZED_BODY = ''{'' @ [char_of (34::nat)] @ ''error'' @ [char_of (34::nat)] @ '': '' @ [char_of (34::nat)]
     @ ''unauthorized'' @ [char_of (34::nat)] @ ''}''"

definition unauthorized :: asgi_action where
  "unauthorized =
     Respond 401 [(''content-type'', ''application/json''),
       (''content-length'', map char_of (py_str_int (int (length UNAUTHORIZED_BODY))))] UNAUTHORIZED_BODY"

definition provided_key :: "(bytes \<times> bytes) list \<Rightarrow> bytes option" where
  "provided_key raw_headers =
     (case single_header raw_headers ''x-api-key'' of
        Some v \<Rightarrow> Some v
      | None \<Rightarrow>
          let authorization = (case single_header raw_headers ''authorization'' of None \<Rightarrow> [] | Some a \<Rightarrow> a);
              (scheme, token) = bytes_partition CHR '' '' authorization
          in if bytes_lower scheme = ''bearer'' \<and> token \<noteq> [] then Some (bytes_strip token) else None)"

definition gate :: "api_key_middleware \<Rightarrow> asgi_scope \<Rightarrow> asgi_action" where
  "gate mw scope =
     (if scope_type scope \<noteq> ''http'' then Forward
      else
        let raw_headers = (case scope_headers scope of None \<Rightarrow> [] | Some hs \<Rightarrow> hs);
            provided = provided_key raw_headers
        in if provided = None \<or> provided \<noteq> Some (expected_key mw) then unauthorized else Forward)"

section \<open>Building and running\<close>

record ('route) asgi_app =
  app_allowed_hosts :: "pystr list"
  app_routes :: "(pystr \<times> 'route) list"
  app_api_key :: pystr

definition build_app :: "'route \<Rightarrow> pystr \<Rightarrow> int \<Rightarrow> (pystr \<times> 'route) list option \<Rightarrow> 'route asgi_app" where
  "build_app mcp_app api_key port extra_routes =
     \<lparr>app_allowed_hosts = sort (remdups (ALLOWED_HOSTS @ map (\<lambda>h. h @ pstr '':'' @ py_str_int port) ALLOWED_HOSTS)),
      app_routes = (MCP_PATH, mcp_app) # (case extra_routes of None \<Rightarrow> [] | Some rs \<Rightarrow> rs),
      app_api_key = api_key\<rparr>"

record ('route) uvicorn_call =
  uv_app :: "'route asgi_app"
  uv_host :: pystr
  uv_port :: int
  uv_shutdown_timeout :: int

text \<open>What \<open>run\<close> starts, or the refusal.\<close>

definition run_transport ::
  "(pystr \<Rightarrow> pystr) \<Rightarrow> 'route \<Rightarrow> pystr \<Rightarrow> int \<Rightarrow> pystr option \<Rightarrow> (pystr \<times> 'route) list option \<Rightarrow> int
     \<Rightarrow> 'route uvicorn_call res" where
  "run_transport rep mcp_app host port api_key extra_routes shutdown_timeout =
     bindR (validate_host rep host) (\<lambda>u.
     bindR (validate_api_key api_key) (\<lambda>validated_key.
       Inr \<lparr>uv_app = build_app mcp_app validated_key port extra_routes, uv_host = host, uv_port = port,
            uv_shutdown_timeout = shutdown_timeout\<rparr>))"

section \<open>Facts\<close>

lemma single_header_Some_iff:
  "single_header hs name = Some v \<longleftrightarrow>
     (\<exists>as bs. hs = as @ (name, v) # bs \<and> name \<notin> fst ` set as \<and> name \<notin> fst ` set bs)"
proof
  assume h: "single_header hs name = Some v"
  then have one: "map snd (filter (\<lambda>kv. fst kv = name) hs) = [v]"
    by (auto simp: single_header_def Let_def length_Suc_conv split: if_splits)
  then obtain kv where f: "filter (\<lambda>kv. fst kv = name) hs = [kv]" "snd kv = v" by auto
  then obtain as bs where s: "hs = as @ kv # bs" "\<forall>x \<in> set as. fst x \<noteq> name" "fst kv = name" "filter (\<lambda>kv. fst kv = name) bs = []"
    using filter_eq_ConsD [OF f(1)] by auto
  then have "\<forall>x \<in> set bs. fst x \<noteq> name" by (simp add: filter_empty_conv)
  moreover have "kv = (name, v)" using f(2) s(3) by (cases kv) simp
  ultimately show "\<exists>as bs. hs = as @ (name, v) # bs \<and> name \<notin> fst ` set as \<and> name \<notin> fst ` set bs"
    using s by force
next
  assume "\<exists>as bs. hs = as @ (name, v) # bs \<and> name \<notin> fst ` set as \<and> name \<notin> fst ` set bs"
  then obtain as bs where s: "hs = as @ (name, v) # bs" "name \<notin> fst ` set as" "name \<notin> fst ` set bs" by blast
  then have "filter (\<lambda>kv. fst kv = name) as = []" "filter (\<lambda>kv. fst kv = name) bs = []"
    by (force simp: filter_empty_conv)+
  with s show "single_header hs name = Some v" by (simp add: single_header_def)
qed

text \<open>A bearer credential in an \<open>Authorization\<close> value.\<close>

definition bearer_token :: "bytes \<Rightarrow> bytes \<Rightarrow> bool" where
  "bearer_token auth key \<longleftrightarrow>
     (\<exists>scheme token. auth = scheme @ CHR '' '' # token \<and> CHR '' '' \<notin> set scheme
        \<and> bytes_lower scheme = ''bearer'' \<and> token \<noteq> [] \<and> bytes_strip token = key)"

lemma partition_iff:
  "bytes_partition c b = (s, t) \<and> t \<noteq> [] \<longleftrightarrow> b = s @ c # t \<and> c \<notin> set s \<and> t \<noteq> []"
proof
  assume p: "bytes_partition c b = (s, t) \<and> t \<noteq> []"
  then have s: "s = takeWhile (\<lambda>x. x \<noteq> c) b" and t: "t = drop 1 (dropWhile (\<lambda>x. x \<noteq> c) b)"
    by (auto simp: bytes_partition_def)
  have ne: "dropWhile (\<lambda>x. x \<noteq> c) b \<noteq> []"
  proof
    assume "dropWhile (\<lambda>x. x \<noteq> c) b = []"
    with p t show False by simp
  qed
  from ne have "hd (dropWhile (\<lambda>x. x \<noteq> c) b) = c" using hd_dropWhile [of "\<lambda>x. x \<noteq> c" b] by simp
  with ne t have "dropWhile (\<lambda>x. x \<noteq> c) b = c # t" by (cases "dropWhile (\<lambda>x. x \<noteq> c) b") auto
  with s have "b = s @ c # t" by (metis takeWhile_dropWhile_id)
  moreover have "c \<notin> set s" using s by (auto dest: set_takeWhileD)
  ultimately show "b = s @ c # t \<and> c \<notin> set s \<and> t \<noteq> []" using p by blast
next
  assume b: "b = s @ c # t \<and> c \<notin> set s \<and> t \<noteq> []"
  then have "takeWhile (\<lambda>x. x \<noteq> c) b = s" "dropWhile (\<lambda>x. x \<noteq> c) b = c # t"
    by (induction s arbitrary: b) auto
  with b show "bytes_partition c b = (s, t) \<and> t \<noteq> []" by (simp add: bytes_partition_def)
qed

lemma provided_key_iff:
  "provided_key hs = Some key \<longleftrightarrow>
     single_header hs ''x-api-key'' = Some key \<or>
     (single_header hs ''x-api-key'' = None \<and>
      (\<exists>auth. single_header hs ''authorization'' = Some auth \<and> bearer_token auth key))"
proof (cases "single_header hs ''x-api-key''")
  case None
  define auth where "auth = (case single_header hs ''authorization'' of None \<Rightarrow> [] | Some a \<Rightarrow> a)"
  obtain s t where p: "bytes_partition CHR '' '' auth = (s, t)" by (cases "bytes_partition CHR '' '' auth")
  have "provided_key hs = Some key \<longleftrightarrow> bytes_lower s = ''bearer'' \<and> t \<noteq> [] \<and> bytes_strip t = key"
    using None p by (simp add: provided_key_def auth_def [symmetric])
  also have "\<dots> \<longleftrightarrow> bearer_token auth key"
    using p partition_iff [of "CHR '' ''" auth] unfolding bearer_token_def by (metis prod.inject)
  also have "\<dots> \<longleftrightarrow> (\<exists>a. single_header hs ''authorization'' = Some a \<and> bearer_token a key)"
    by (auto simp: auth_def bearer_token_def split: option.splits)
  finally show ?thesis using None by simp
qed (simp add: provided_key_def)

section \<open>Properties\<close>

text \<open>C9. The gate, exactly: an HTTP request is let through if and only if it carries the key in a single
  \<open>X-API-Key\<close> header, or carries no usable \<open>X-API-Key\<close> (none, or several) and the key as the token of
  a single \<open>Authorization: Bearer\<close> header; every other HTTP request is answered with 401 and reaches
  nothing behind the gate.\<close>

theorem gate_spec:
  assumes "scope_type scope = ''http''" "hs = (case scope_headers scope of None \<Rightarrow> [] | Some hs \<Rightarrow> hs)"
  shows "gate mw scope =
    (if single_header hs ''x-api-key'' = Some (expected_key mw) \<or>
        (single_header hs ''x-api-key'' = None \<and>
         (\<exists>auth. single_header hs ''authorization'' = Some auth \<and> bearer_token auth (expected_key mw)))
     then Forward else unauthorized)"
  using provided_key_iff [of hs "expected_key mw"] assms by (auto simp: gate_def Let_def)

theorem gate_spec_witness:
  "gate \<lparr>expected_key = ''k''\<rparr> \<lparr>scope_type = ''http'', scope_headers = Some [(''x-api-key'', ''k''), (''x-api-key'', ''k'')]\<rparr>
     = unauthorized"
  using gate_spec [of "\<lparr>scope_type = ''http'', scope_headers = Some [(''x-api-key'', ''k''), (''x-api-key'', ''k'')]\<rparr>" _ "\<lparr>expected_key = ''k''\<rparr>"]
  by (simp add: single_header_def)

text \<open>The daemon never serves unprotected: what \<open>run\<close> starts is bound to a loopback host, accepts
  \<open>Host\<close> headers for the two loopback names only (bare, or with the port it listens on), and its gate, with the non-empty
  configured key, answers 401 to every HTTP request without credentials; any other host or key is
  refused before anything is started.\<close>

theorem run_is_protected:
  shows "case run_transport rep mcp host port api_key extra tmo of
      Inl e \<Rightarrow> kind_of e = ConfigurationError \<and> (host \<notin> set ALLOWED_HOSTS \<or> api_key = None \<or> api_key = Some [])
    | Inr c \<Rightarrow> uv_host c \<in> {pstr ''127.0.0.1'', pstr ''localhost''} \<and> api_key = Some (app_api_key (uv_app c))
        \<and> set (app_allowed_hosts (uv_app c)) = {pstr ''127.0.0.1'', pstr ''localhost'',
            pstr ''127.0.0.1:'' @ py_str_int port, pstr ''localhost:'' @ py_str_int port}
        \<and> (\<forall>mw. mk_middleware (app_api_key (uv_app c)) = Inr mw \<longrightarrow> expected_key mw \<noteq> [] \<and>
             gate mw \<lparr>scope_type = ''http'', scope_headers = None\<rparr> = unauthorized)"
proof (cases "host \<notin> set ALLOWED_HOSTS \<or> api_key = None \<or> api_key = Some []")
  case True
  then show ?thesis
    by (auto simp: run_transport_def validate_host_def validate_api_key_def split: option.split)
next
  case False
  then obtain k where k: "api_key = Some k" "k \<noteq> []" and h: "host \<in> set ALLOWED_HOSTS" by auto
  have enc: "b \<noteq> []" if "utf8_encode k = Inr b" for b
    using utf8_decode_encode [OF that] k(2) by (auto simp: utf8_decode_def)
  have hosts: "pstr a @ pstr '':'' @ x = pstr (a @ '':'') @ x" for a x by (simp add: pstr_append)
  have "gate mw \<lparr>scope_type = ''http'', scope_headers = None\<rparr> = unauthorized" for mw
    by (simp add: gate_def provided_key_def single_header_def bytes_partition_def)
  with k h enc show ?thesis
    by (auto simp: run_transport_def validate_host_def validate_api_key_def build_app_def ALLOWED_HOSTS_def hosts
        mk_middleware_def bindR_Inr_iff)
qed

theorem run_is_protected_witness:
  "\<exists>e. run_transport id () (pstr ''0.0.0.0'') 8787 (Some (pstr ''k'')) None 5 = Inl e \<and> kind_of e = ConfigurationError"
proof -
  have n: "pstr ''0.0.0.0'' \<notin> {pstr ''127.0.0.1'', pstr ''localhost''}" by simp
  have "\<not> (\<exists>c. run_transport id () (pstr ''0.0.0.0'') 8787 (Some (pstr ''k'')) None 5 = Inr c)"
    by (simp add: run_transport_def validate_host_def ALLOWED_HOSTS_def)
  with run_is_protected [where rep = id and mcp = "()" and host = "pstr ''0.0.0.0''" and port = 8787
      and api_key = "Some (pstr ''k'')" and extra = None and tmo = 5] show ?thesis
    by (cases "run_transport id () (pstr ''0.0.0.0'') 8787 (Some (pstr ''k'')) None 5") auto
qed

end
