(* ===== verification/Startup.thy ===== *)
theory Startup
  imports Observability Transport
begin

text \<open>
  \<open>logging_config.py\<close> and the entry point of \<open>daemon.py\<close>: the log level and rotation settings, the
  log file, \<open>main\<close> from the environment variables to \<open>run_forever\<close>, the signal handler, and what
  the MCP server and the two HTTP routes are bound to. Everything \<open>uvicorn.run\<close> does until it
  returns or raises, with all that happens to the daemon meanwhile, is the argument \<open>serve\<close>.
\<close>

section \<open>Log level\<close>

text \<open>
  \<open>s.upper()\<close>. The mapping is Python's on U+0000 to U+00FF and on the code points above whose upper
  case is ASCII (dotless i, long s, the Latin ligatures); other code points are left as they are,
  and neither they nor their upper case are ASCII.
\<close>

definition upper_point :: "nat \<Rightarrow> nat list" where
  "upper_point c =
     (if 97 \<le> c \<and> c \<le> 122 \<or> (224 \<le> c \<and> c \<le> 254 \<and> c \<noteq> 247) then [c - 32]
      else if c < 181 then [c]
      else if c = 181 then [924] else if c = 223 then [83, 83] else if c = 255 then [376]
      else if c = 305 then [73] else if c = 383 then [83]
      else if c = 64256 then [70, 70] else if c = 64257 then [70, 73] else if c = 64258 then [70, 76]
      else if c = 64259 then [70, 70, 73] else if c = 64260 then [70, 70, 76]
      else if c = 64261 \<or> c = 64262 then [83, 84]
      else [c])"

definition py_upper :: "pystr \<Rightarrow> pystr" where
  "py_upper s = concat (map upper_point s)"

text \<open>The standard library's table of level names.\<close>

definition NAME_TO_LEVEL :: "(pystr, int) dict" where
  "NAME_TO_LEVEL =
     [(pstr ''CRITICAL'', 50), (pstr ''FATAL'', 50), (pstr ''ERROR'', 40), (pstr ''WARN'', 30), (pstr ''WARNING'', 30),
      (pstr ''INFO'', 20), (pstr ''DEBUG'', 10), (pstr ''NOTSET'', 0)]"

definition DEFAULT_LOG_LEVEL :: pystr where
  "DEFAULT_LOG_LEVEL = pstr ''INFO''"

definition DEFAULT_LOG_MAX_BYTES :: int where
  "DEFAULT_LOG_MAX_BYTES = 10485760"

definition DEFAULT_LOG_BACKUP_COUNT :: int where
  "DEFAULT_LOG_BACKUP_COUNT = 5"

text \<open>\<open>logging.getLevelName\<close> of a string that is no known name is a string, not a level.\<close>

definition resolve_log_level :: "(pystr \<Rightarrow> pystr) \<Rightarrow> pystr option \<Rightarrow> int res" where
  "resolve_log_level rep v =
     (let name = (case v of Some s \<Rightarrow> s | None \<Rightarrow> DEFAULT_LOG_LEVEL)
      in case map_of NAME_TO_LEVEL (py_upper name) of
           Some level \<Rightarrow> Inr level
         | None \<Rightarrow> Inl (Exn ConfigurationError
             (pstr ''GRAPHIFY_DAEMON_LOG_LEVEL must be a recognized logging level name, got '' @ rep name @ pstr ''.'')))"

definition resolve_rotation_settings :: "pystr option \<Rightarrow> pystr option \<Rightarrow> (int \<times> int) res" where
  "resolve_rotation_settings max_bytes backup_count =
     bindR (case max_bytes of Some s \<Rightarrow> py_int s | None \<Rightarrow> Inr DEFAULT_LOG_MAX_BYTES) (\<lambda>m.
     bindR (case backup_count of Some s \<Rightarrow> py_int s | None \<Rightarrow> Inr DEFAULT_LOG_BACKUP_COUNT) (\<lambda>b.
       Inr (m, b)))"

section \<open>The log file\<close>

record rotating_handler =
  handler_file :: pypath
  handler_max_bytes :: int
  handler_backup_count :: int

record root_logger =
  root_level :: int
  root_handlers :: "rotating_handler list"

text \<open>Opening for append: an existing file keeps content and bits, a directory cannot be opened.\<close>

definition open_append :: "pypath \<Rightarrow> disk \<Rightarrow> disk res" where
  "open_append p d =
     (if p \<in> set (keys (d_files d)) then Inr d else write_file p LogFile d)"

definition configure_logging ::
  "pypath \<Rightarrow> int \<Rightarrow> int \<Rightarrow> int \<Rightarrow> disk \<times> root_logger \<Rightarrow> (disk \<times> root_logger) \<times> unit res" where
  "configure_logging log_file level max_bytes backup_count s =
     (case s of (d, lg) \<Rightarrow>
        (case mkdir_restricted (path_parent log_file) d of
           (d2, Inl e) \<Rightarrow> ((d2, lg), Inl e)
         | (d2, Inr u) \<Rightarrow>
             (case open_append log_file d2 of
                Inl e \<Rightarrow> ((d2, lg), Inl e)
              | Inr d3 \<Rightarrow>
                  (case restrict_to_owner log_file d3 of
                     Inl e \<Rightarrow> ((d3, lg), Inl e)
                   | Inr d4 \<Rightarrow>
                       ((d4, lg\<lparr>root_level := level, root_handlers := root_handlers lg @
                           [\<lparr>handler_file = log_file, handler_max_bytes = max_bytes,
                             handler_backup_count = backup_count\<rparr>]\<rparr>), Inr ())))))"

section \<open>What the server is bound to\<close>

definition health_route :: "('g, 't) daemon \<Rightarrow> health" where
  "health_route dm = health_check (holder dm)"

definition metrics_route :: "process_facts \<Rightarrow> ('g, 't) daemon \<Rightarrow> metrics_payload res" where
  "metrics_route pf dm =
     (case registry dm of
        None \<Rightarrow> Inl (Exn AttributeError (pstr ''NoneType''))
      | Some m \<Rightarrow> collect_metrics pf m (holder dm) (queries dm))"

text \<open>The \<open>tools/call\<close> handler of \<open>build_mcp_server\<close>, which takes the snapshot that is current when the call starts.\<close>

definition daemon_call_tool ::
  "('g, 't) lib \<Rightarrow> real \<Rightarrow> real \<Rightarrow> pystr \<Rightarrow> pyobj option \<Rightarrow> ('g, 't) daemon
     \<Rightarrow> call_result \<times> ('g, 't) daemon \<times> exn option" where
  "daemon_call_tool L t0 t1 name params dm =
     (case on_call_tool L t0 t1 name params (current (holder dm)) (queries dm, registry dm) of
        (r, (q, m), logged) \<Rightarrow> (r, dm\<lparr>queries := q, registry := m\<rparr>, logged))"

text \<open>The signal handler: one line in the log, then \<open>SystemExit(0)\<close>.\<close>

definition handle_shutdown_signal :: "string \<Rightarrow> pystr \<times> exit_status" where
  "handle_shutdown_signal signal_name =
     (pstr ''Shutdown requested ('' @ pstr signal_name @ pstr '')'', ExitSignal)"

section \<open>main\<close>

record main_inputs =
  mi_environ :: "(string, pystr) dict"
  mi_cwd :: "pypath res"
  mi_expanduser :: "pypath \<Rightarrow> pypath res"
  mi_repr :: "pystr \<Rightarrow> pystr"
  mi_stored :: "rows option"
  mi_now :: real
  mi_world :: world
  mi_shutdown :: env

text \<open>\<open>Path(v).expanduser() if v else Path.cwd() / parts\<close> for the variable \<open>name\<close>.\<close>

definition env_path :: "main_inputs \<Rightarrow> string \<Rightarrow> string list \<Rightarrow> pypath res" where
  "env_path mi name parts =
     (let v = dict_get (mi_environ mi) name []
      in if v \<noteq> [] then mi_expanduser mi (path_of_str v)
         else bindR (mi_cwd mi) (\<lambda>cwd. Inr (fold (\<lambda>n p. path_child p n) parts cwd)))"

text \<open>\<open>int(os.environ.get(name, default))\<close>.\<close>

definition env_int :: "main_inputs \<Rightarrow> string \<Rightarrow> int \<Rightarrow> int res" where
  "env_int mi name dflt = (case map_of (mi_environ mi) name of None \<Rightarrow> Inr dflt | Some s \<Rightarrow> py_int s)"

definition main_logging ::
  "main_inputs \<Rightarrow> disk \<times> root_logger \<Rightarrow> (disk \<times> root_logger) \<times> unit res" where
  "main_logging mi s =
     (case bindR (env_path mi ''GRAPHIFY_DAEMON_LOG_FILE'' [''logs'', ''daemon.log'']) (\<lambda>log_file.
           bindR (resolve_log_level (mi_repr mi) (map_of (mi_environ mi) ''GRAPHIFY_DAEMON_LOG_LEVEL'')) (\<lambda>level.
           bindR (resolve_rotation_settings (map_of (mi_environ mi) ''GRAPHIFY_DAEMON_LOG_MAX_BYTES'')
                    (map_of (mi_environ mi) ''GRAPHIFY_DAEMON_LOG_BACKUP_COUNT'')) (\<lambda>(m, b).
             Inr (log_file, level, m, b)))) of
        Inl e \<Rightarrow> (s, Inl e)
      | Inr (log_file, level, m, b) \<Rightarrow> configure_logging log_file level m b s)"

definition main_config :: "main_inputs \<Rightarrow> config res" where
  "main_config mi =
     bindR (case map_of (mi_environ mi) ''GRAPHIFY_DAEMON_VAULT_ROOT'' of
              None \<Rightarrow> Inl (Exn KeyError (pstr ''GRAPHIFY_DAEMON_VAULT_ROOT''))
            | Some v \<Rightarrow> mi_expanduser mi (path_of_str v)) (\<lambda>vault_root.
     bindR (env_path mi ''GRAPHIFY_DAEMON_OUT_DIR'' [DEFAULT_OUTPUT_DIR_NAME]) (\<lambda>out.
     bindR (env_int mi ''GRAPHIFY_DAEMON_LRU_SIZE'' DEFAULT_LRU_SIZE) (\<lambda>lru_size.
     bindR (env_int mi ''GRAPHIFY_DAEMON_PENDING_WARN_THRESHOLD'' DEFAULT_PENDING_WARN_THRESHOLD) (\<lambda>warn.
       Inr \<lparr>cf_root = vault_root, cf_paths = \<lparr>output_dir = out\<rparr>, cf_nested = {}, cf_debounce_ms = 300,
            cf_quiet = 60, cf_threshold = 25, cf_lru_size = lru_size, cf_pending_warn = warn\<rparr>))))"

text \<open>\<open>main\<close> up to \<open>daemon.start()\<close>. The daemon, when one was constructed, is handed back also on failure.\<close>

record ('g, 't) process =
  p_disk :: disk
  p_logger :: root_logger
  p_daemon :: "('g, 't) daemon option"

definition main_prepare ::
  "('g, 't) lib \<Rightarrow> main_inputs \<Rightarrow> disk \<times> root_logger \<Rightarrow> ('g, 't) process \<times> (config \<times> ('g, 't) daemon) res" where
  "main_prepare L mi s =
     (case main_logging mi s of
        ((d, lg), Inl e) \<Rightarrow> (\<lparr>p_disk = d, p_logger = lg, p_daemon = None\<rparr>, Inl e)
      | ((d, lg), Inr u) \<Rightarrow>
          (case main_config mi of
             Inl e \<Rightarrow> (\<lparr>p_disk = d, p_logger = lg, p_daemon = None\<rparr>, Inl e)
           | Inr cf \<Rightarrow>
               (case init_daemon cf (mi_stored mi) (mi_now mi) d of
                  (d1, Inl e) \<Rightarrow> (\<lparr>p_disk = d1, p_logger = lg, p_daemon = None\<rparr>, Inl e)
                | (d1, Inr dm) \<Rightarrow>
                    (case daemon_cold_start L cf (mi_world mi) dm of
                       (dm1, Inl e) \<Rightarrow> (\<lparr>p_disk = disk_state dm1, p_logger = lg, p_daemon = Some dm1\<rparr>, Inl e)
                     | (dm1, Inr u') \<Rightarrow>
                         let dm2 = start_daemon dm1
                         in (\<lparr>p_disk = disk_state dm2, p_logger = lg, p_daemon = Some dm2\<rparr>, Inr (cf, dm2))))))"

text \<open>The arguments of \<open>run_forever\<close> are evaluated outside its \<open>try\<close>; \<open>transport.run\<close> is inside.\<close>

datatype route = McpRoute | HealthRoute | MetricsRoute

definition main_routes :: "(pystr \<times> route) list" where
  "main_routes = [(pstr ''/health'', HealthRoute), (pstr ''/metrics'', MetricsRoute)]"

definition main ::
  "('g, 't) lib \<Rightarrow> main_inputs \<Rightarrow> (route uvicorn_call \<Rightarrow> ('g, 't) daemon \<Rightarrow> ('g, 't) daemon \<times> exit_status)
     \<Rightarrow> disk \<times> root_logger \<Rightarrow> ('g, 't) process \<times> exit_status" where
  "main L mi serve s =
     (case main_prepare L mi s of
        (p, Inl e) \<Rightarrow> (p, ExitRaised e)
      | (p, Inr (cf, dm)) \<Rightarrow>
          (case env_int mi ''GRAPHIFY_DAEMON_PORT'' DEFAULT_PORT of
             Inl e \<Rightarrow> (p, ExitRaised e)
           | Inr port \<Rightarrow>
               let host = dict_get (mi_environ mi) ''GRAPHIFY_DAEMON_HOST'' DEFAULT_HOST;
                   (dm1, served) =
                     (case run_transport (mi_repr mi) McpRoute host port (map_of (mi_environ mi) ''GRAPHIFY_DAEMON_API_KEY'')
                             (Some main_routes) DEFAULT_SHUTDOWN_TIMEOUT_SECONDS of
                        Inl e \<Rightarrow> (dm, ExitRaised e)
                      | Inr call \<Rightarrow> serve call dm);
                   (dm2, st) = run_forever L cf (mi_shutdown mi) served dm1
               in (p\<lparr>p_disk := disk_state dm2, p_daemon := Some dm2\<rparr>, st)))"

section \<open>Facts\<close>

lemma compile_lifecycle: "lifecycle (fst (compile_batch L cf E b dm)) = lifecycle dm"
  unfolding compile_batch_def
proof (rule run_all_inv)
  fix f and s :: "('a, 'b) daemon"
  assume f: "f \<in> set [extract_stage cf E b, index_stage cf E b, publish_batch L, record_stage E b, cadence_stage L cf E]"
    and s: "lifecycle s = lifecycle dm"
  have "lifecycle (fst (publish_batch L s)) = lifecycle s"
    using publish_batch_frame(5) by (metis surjective_pairing)
  moreover have "lifecycle (fst (cadence_stage L cf E s)) = lifecycle s"
    by (auto simp: cadence_stage_def daemon_cadence_cycle_frame(5) split: prod.split sum.split)
  moreover have "lifecycle (fst (extract_stage cf E b s)) = lifecycle s" "lifecycle (fst (index_stage cf E b s)) = lifecycle s"
    "lifecycle (fst (record_stage E b s)) = lifecycle s"
    by (simp_all add: extract_stage_def index_stage_def record_stage_def put_extract_state_def split: prod.split)
  ultimately show "lifecycle (fst (f s)) = lifecycle dm" using f s by auto
qed simp

lemma drain_lifecycle: "lifecycle (fst (drain_and_compile L cf E dm)) = lifecycle dm"
  by (auto simp: drain_and_compile_def coordinator_run_batch_def consume_def compile_lifecycle
      split: prod.split option.split)

lemma persist_lifecycle: "lifecycle (fst (persist_on_shutdown L cf dm)) = lifecycle dm"
  by (auto simp: persist_on_shutdown_def split: prod.split sum.split)

lemma shutdown_leaves_running: "shutdown L cf E dm = (dm', r) \<Longrightarrow> lifecycle dm' \<noteq> RUNNING"
proof (cases "lifecycle dm = RUNNING")
  case True
  assume s: "shutdown L cf E dm = (dm', r)"
  obtain dm1 r1 where d: "drain_and_compile L cf E (dm\<lparr>lifecycle := STOPPING\<rparr>) = (dm1, r1)"
    by (cases "drain_and_compile L cf E (dm\<lparr>lifecycle := STOPPING\<rparr>)")
  obtain dm2 r2 where p: "persist_on_shutdown L cf (dm1\<lparr>watch := stop_watcher (watch dm1)\<rparr>) = (dm2, r2)"
    by (cases "persist_on_shutdown L cf (dm1\<lparr>watch := stop_watcher (watch dm1)\<rparr>)")
  have "lifecycle dm1 = STOPPING" "lifecycle dm2 = lifecycle dm1"
    using drain_lifecycle [of L cf E "dm\<lparr>lifecycle := STOPPING\<rparr>"] d
      persist_lifecycle [of L cf "dm1\<lparr>watch := stop_watcher (watch dm1)\<rparr>"] p by simp_all
  with s shutdown_running [OF True, of L cf E] d p show ?thesis by (cases r1; cases r2) auto
qed (auto simp: shutdown_def)

lemma run_forever_leaves_running: "run_forever L cf E served dm = (dm', st) \<Longrightarrow> lifecycle dm' \<noteq> RUNNING"
  by (auto simp: run_forever_def dest: shutdown_leaves_running split: prod.splits sum.splits)

text \<open>What \<open>main_prepare\<close> hands on, when it succeeds.\<close>

lemma prepared:
  assumes "main_prepare L mi s = (p, Inr (cf, dm))"
  shows "p_daemon p = Some dm" "observing (watch dm)"
    "\<exists>d dm0 dm1. init_daemon cf (mi_stored mi) (mi_now mi) d = (disk_state dm0, Inr dm0)
       \<and> daemon_cold_start L cf (mi_world mi) dm0 = (dm1, Inr ()) \<and> dm = start_daemon dm1"
proof -
  from assms obtain d lg d1 dm0 dm1 where i: "init_daemon cf (mi_stored mi) (mi_now mi) d = (d1, Inr dm0)"
    and c: "daemon_cold_start L cf (mi_world mi) dm0 = (dm1, Inr ())"
    and p: "dm = start_daemon dm1" "p = \<lparr>p_disk = disk_state dm, p_logger = lg, p_daemon = Some dm\<rparr>"
    by (auto simp: main_prepare_def Let_def split: prod.splits sum.splits)
  from p show "p_daemon p = Some dm" "observing (watch dm)" by (simp_all add: start_daemon_def start_watcher_def)
  have "disk_state dm0 = d1" by (simp add: init_daemon_result [OF i])
  with i c p(1) show "\<exists>d dm0 dm1. init_daemon cf (mi_stored mi) (mi_now mi) d = (disk_state dm0, Inr dm0)
       \<and> daemon_cold_start L cf (mi_world mi) dm0 = (dm1, Inr ()) \<and> dm = start_daemon dm1" by blast
qed

lemma cold_start_lifecycle: "lifecycle (fst (daemon_cold_start L cf W dm)) = lifecycle dm"
  by (auto simp: daemon_cold_start_def Let_def put_extract_state_def split: sum.split prod.split)

lemma prepared_running:
  assumes "main_prepare L mi s = (p, Inr (cf, dm))"
  shows "lifecycle dm = RUNNING"
proof -
  obtain d dm0 dm1 where i: "init_daemon cf (mi_stored mi) (mi_now mi) d = (disk_state dm0, Inr dm0)"
    and c: "daemon_cold_start L cf (mi_world mi) dm0 = (dm1, Inr ())" and dm: "dm = start_daemon dm1"
    using prepared(3) [OF assms] by blast
  have "lifecycle dm0 = RUNNING" using arg_cong [OF init_daemon_result [OF i], of lifecycle] by simp
  with cold_start_lifecycle [of L cf "mi_world mi" dm0] c show ?thesis by (simp add: dm start_daemon_def)
qed

lemma upper_ascii: "c < 128 \<Longrightarrow> upper_point c = [if 97 \<le> c \<and> c \<le> 122 then c - 32 else c]"
  by (simp add: upper_point_def)

lemma map_eq_transfer:
  "(\<And>x y. x \<in> set s \<Longrightarrow> y \<in> set t \<Longrightarrow> f x = f y \<longleftrightarrow> g x = g y) \<Longrightarrow> map f s = map f t \<longleftrightarrow> map g s = map g t"
proof (induction s arbitrary: t)
  case (Cons x s)
  then show ?case by (cases t) auto
qed simp

lemma upper_lower_ascii:
  assumes s: "\<forall>c \<in> set s. c < 128" and t: "\<forall>c \<in> set t. c < 128"
  shows "py_upper s = py_upper t \<longleftrightarrow> py_lower s = py_lower t"
proof -
  define u where "u c = (if 97 \<le> c \<and> c \<le> 122 then c - 32 else c)" for c :: nat
  have up: "py_upper s = map u s" if "\<forall>c \<in> set s. c < 128" for s
    using that by (induction s) (simp_all add: py_upper_def upper_ascii u_def)
  have "map u s = map u t \<longleftrightarrow> map lower_point s = map lower_point t"
  proof (rule map_eq_transfer)
    fix x y
    assume "x \<in> set s" "y \<in> set t"
    with s t have "x < 128" "y < 128" by blast+
    then show "u x = u y \<longleftrightarrow> lower_point x = lower_point y"
      by (auto simp: u_def lower_point_def split: if_splits)
  qed
  then show ?thesis by (simp add: up [OF s] up [OF t] py_lower_def)
qed

section \<open>Properties\<close>

lemma main_unfold:
  assumes "main_prepare L mi s = (p, Inr (cf, dm))"
  shows "case env_int mi ''GRAPHIFY_DAEMON_PORT'' DEFAULT_PORT of
      Inl e \<Rightarrow> main L mi serve s = (p, ExitRaised e)
    | Inr port \<Rightarrow> (\<exists>dm1 served dm2 st. run_forever L cf (mi_shutdown mi) served dm1 = (dm2, st)
        \<and> main L mi serve s = (p\<lparr>p_disk := disk_state dm2, p_daemon := Some dm2\<rparr>, st))"
proof (cases "env_int mi ''GRAPHIFY_DAEMON_PORT'' DEFAULT_PORT")
  case (Inl e)
  with assms show ?thesis by (simp add: main_def)
next
  case (Inr port)
  let ?run = "run_transport (mi_repr mi) McpRoute (dict_get (mi_environ mi) ''GRAPHIFY_DAEMON_HOST'' DEFAULT_HOST) port
      (map_of (mi_environ mi) ''GRAPHIFY_DAEMON_API_KEY'') (Some main_routes) DEFAULT_SHUTDOWN_TIMEOUT_SECONDS"
  obtain dm1 served where s1: "(case ?run of Inl e \<Rightarrow> (dm, ExitRaised e) | Inr call \<Rightarrow> serve call dm) = (dm1, served)"
    by (metis surjective_pairing)
  obtain dm2 st where s2: "run_forever L cf (mi_shutdown mi) served dm1 = (dm2, st)" by (metis surjective_pairing)
  from assms Inr s1 s2 have "main L mi serve s = (p\<lparr>p_disk := disk_state dm2, p_daemon := Some dm2\<rparr>, st)"
    by (simp add: main_def Let_def)
  with Inr s2 show ?thesis by auto
qed

text \<open>C36. Every started daemon is shut down, with one exception: once \<open>main\<close> has started the watcher, however
  serving ends (a refused host or key, a signal, an exception, a normal return) the daemon has left RUNNING
  when \<open>main\<close> does, unless \<open>GRAPHIFY_DAEMON_PORT\<close> is no integer: then \<open>main\<close> raises \<open>ValueError\<close> with the
  observer running, nothing drained or persisted, and the daemon as it was started.\<close>

theorem main_shuts_down_unless_bad_port:
  assumes "main_prepare L mi s = (p, Inr (cf, dm))" "main L mi serve s = (p', st)"
  shows "\<exists>dm'. p_daemon p' = Some dm' \<and>
    (case env_int mi ''GRAPHIFY_DAEMON_PORT'' DEFAULT_PORT of
       Inr port \<Rightarrow> lifecycle dm' \<noteq> RUNNING
     | Inl e \<Rightarrow> lifecycle dm' = RUNNING \<and> observing (watch dm') \<and> dm' = dm \<and> st = ExitRaised e \<and> kind_of e = ValueError)"
proof (cases "env_int mi ''GRAPHIFY_DAEMON_PORT'' DEFAULT_PORT")
  case (Inl e)
  then have "kind_of e = ValueError"
    by (auto simp: env_int_def py_int_def Let_def split: option.splits if_splits)
  with Inl assms main_unfold [OF assms(1), of serve] prepared(1,2) [OF assms(1)] prepared_running [OF assms(1)]
  show ?thesis by simp
next
  case (Inr port)
  with main_unfold [OF assms(1), of serve] assms(2) obtain dm1 served dm2 st' where
    "run_forever L cf (mi_shutdown mi) served dm1 = (dm2, st')" "p_daemon p' = Some dm2" by auto
  with Inr run_forever_leaves_running show ?thesis by fastforce
qed

definition start_world :: world where
  "start_world = sample_world\<lparr>w_rglob := \<lambda>p. [vault_file ''sub'', vault_file ''a.md'', vault_file ''link.md'']\<rparr>"

definition sample_inputs :: "pystr \<Rightarrow> main_inputs" where
  "sample_inputs port =
     \<lparr>mi_environ = [(''GRAPHIFY_DAEMON_VAULT_ROOT'', pstr ''/vault''), (''GRAPHIFY_DAEMON_OUT_DIR'', pstr ''/out''),
        (''GRAPHIFY_DAEMON_API_KEY'', pstr ''k''), (''GRAPHIFY_DAEMON_PORT'', port)],
      mi_cwd = Inr (PyPath [slash] []), mi_expanduser = Inr, mi_repr = id, mi_stored = None, mi_now = 0,
      mi_world = start_world, mi_shutdown = sample_env\<rparr>"

lemma sample_level: "resolve_log_level id None = Inr 20"
  by (simp add: resolve_log_level_def DEFAULT_LOG_LEVEL_def NAME_TO_LEVEL_def py_upper_def upper_point_def pstr_def)

text \<open>The configuration and the files the sample environment leads to.\<close>

lemma sample_main_config:
  "main_config (sample_inputs port) = Inr (sample_config\<lparr>cf_lru_size := DEFAULT_LRU_SIZE\<rparr>)"
proof -
  have "path_of_str (pstr ''/vault'') = sample_root" "path_of_str (pstr ''/out'') = PyPath [slash] [pstr ''out'']"
    by code_simp+
  then show ?thesis
    by (simp add: main_config_def sample_inputs_def env_path_def env_int_def dict_get_def sample_config_def
        DEFAULT_PENDING_WARN_THRESHOLD_def)
qed

lemma sample_main_logging:
  "main_logging (sample_inputs port) s =
     configure_logging (PyPath [slash] [pstr ''logs'', pstr ''daemon.log'']) 20 DEFAULT_LOG_MAX_BYTES DEFAULT_LOG_BACKUP_COUNT s"
proof -
  have "path_child (path_child (PyPath [slash] []) ''logs'') ''daemon.log'' = PyPath [slash] [pstr ''logs'', pstr ''daemon.log'']"
    by code_simp
  then show ?thesis
    by (simp add: main_logging_def sample_inputs_def env_path_def dict_get_def sample_level resolve_rotation_settings_def)
qed

definition sample_logger :: root_logger where
  "sample_logger = \<lparr>root_level = 30, root_handlers = []\<rparr>"

lemma sample_prepared:
  "\<exists>p cf dm. main_prepare sample_lib (sample_inputs port) (sample_disk, sample_logger) = (p, Inr (cf, dm))
     \<and> map_of (d_files (disk_state dm)) (graph_cache_json (cf_paths cf)) = None"
proof -
  let ?cf = "sample_config\<lparr>cf_lru_size := DEFAULT_LRU_SIZE\<rparr>"
  let ?log = "configure_logging (PyPath [slash] [pstr ''logs'', pstr ''daemon.log'']) 20 DEFAULT_LOG_MAX_BYTES
    DEFAULT_LOG_BACKUP_COUNT (sample_disk, sample_logger)"
  have c: "case ?log of ((d, lg), r) \<Rightarrow> \<not> isl r \<and> (case init_daemon ?cf None 0 d of (d1, r1) \<Rightarrow>
      (case r1 of Inl e \<Rightarrow> False | Inr dm \<Rightarrow> (case daemon_cold_start sample_lib ?cf start_world dm of
         (dm1, r2) \<Rightarrow> \<not> isl r2 \<and> map_of (d_files (disk_state dm1)) (graph_cache_json (cf_paths ?cf)) = None)))"
    by code_simp
  obtain d lg r where l: "?log = ((d, lg), r)" by (metis surjective_pairing)
  obtain d1 r1 where i: "init_daemon ?cf None 0 d = (d1, r1 :: (sample_graph, nat) daemon res)" by (metis surjective_pairing)
  from c l i obtain dm where r: "r = Inr ()" "r1 = Inr dm" by (auto split: sum.splits dest: not_isl)
  obtain dm1 r2 where d: "daemon_cold_start sample_lib ?cf start_world dm = (dm1, r2)"
    by (cases "daemon_cold_start sample_lib ?cf start_world dm")
  with c l i r have "r2 = Inr ()" "map_of (d_files (disk_state dm1)) (graph_cache_json (cf_paths ?cf)) = None"
    by (auto dest: not_isl)
  moreover have "mi_stored (sample_inputs port) = None" "mi_now (sample_inputs port) = 0" "mi_world (sample_inputs port) = start_world"
    by (simp_all add: sample_inputs_def)
  ultimately show ?thesis
    using l i r d by (simp add: main_prepare_def sample_main_logging sample_main_config Let_def start_daemon_def)
qed

theorem main_shuts_down_unless_bad_port_witness:
  "\<exists>p' dm' e. main sample_lib (sample_inputs (pstr ''x'')) (\<lambda>c dm. (dm, ExitSignal)) (sample_disk, sample_logger) = (p', ExitRaised e)
     \<and> kind_of e = ValueError \<and> p_daemon p' = Some dm' \<and> lifecycle dm' = RUNNING \<and> observing (watch dm')"
proof -
  let ?mi = "sample_inputs (pstr ''x'')"
  obtain p cf dm where prep: "main_prepare sample_lib ?mi (sample_disk, sample_logger) = (p, Inr (cf, dm))"
    using sample_prepared by blast
  obtain p' st where m: "main sample_lib ?mi (\<lambda>c dm. (dm, ExitSignal)) (sample_disk, sample_logger) = (p', st)"
    by (metis surjective_pairing)
  have "py_int (pstr ''x'') = Inl (Exn ValueError (pstr ''invalid literal for int() with base 10: '' @ pstr ''x''))"
    by (simp add: py_int_def py_strip_def strip_by_def is_space_def is_digit_def pstr_def)
  then have "\<exists>e. env_int ?mi ''GRAPHIFY_DAEMON_PORT'' DEFAULT_PORT = Inl e"
    by (simp add: env_int_def sample_inputs_def)
  with main_shuts_down_unless_bad_port [OF prep m] m show ?thesis by auto
qed

lemma open_append_Inr:
  assumes "p \<notin> set (d_dirs d)" "path_parent p \<in> set (d_dirs d)"
  shows "\<exists>d'. open_append p d = Inr d' \<and> d_dirs d' = d_dirs d \<and> d_posix d' = d_posix d \<and> p \<in> set (keys (d_files d'))
    \<and> set (keys (d_files d')) = insert p (set (keys (d_files d))) \<and> (\<forall>q. q \<noteq> p \<longrightarrow> owner_only d' q = owner_only d q)
    \<and> (\<forall>q. q \<noteq> p \<longrightarrow> map_of (d_modes d') q = map_of (d_modes d) q)"
  using assms by (auto simp: open_append_def write_file_def owner_only_def dict_simps)

text \<open>The log stays confidential: \<open>configure_logging\<close> succeeds for any log file that is not a directory; the
  file and its directory are then owner-only, nothing that was owner-only is opened, and one handler with the
  given limits is added at the given level. The directory is narrowed to \<open>0700\<close> also when it existed before
  and is not the daemon's own.\<close>

theorem log_file_owner_only:
  assumes "log_file \<notin> set (d_dirs d)" "path_parts log_file \<noteq> []"
    and "\<forall>a \<in> set (path_ancestors (path_parent log_file)). a \<notin> set (keys (d_files d))"
  shows "\<exists>d'. configure_logging log_file level mb bc (d, lg)
      = ((d', \<lparr>root_level = level, root_handlers = root_handlers lg @
           [\<lparr>handler_file = log_file, handler_max_bytes = mb, handler_backup_count = bc\<rparr>]\<rparr>), Inr ())
    \<and> owner_only d' log_file \<and> (d_posix d \<longrightarrow> map_of (d_modes d') (path_parent log_file) = Some OWNER_ONLY_DIR_MODE)
    \<and> (\<forall>q \<in> set (keys (d_files d)). owner_only d q \<longrightarrow> owner_only d' q)"
proof -
  let ?par = "path_parent log_file"
  obtain d2 where m: "mkdir_restricted ?par d = (d2, Inr ())"
    using mkdir_restricted_outcome(1) [of ?par d] assms(3) by (cases "mkdir_restricted ?par d") simp
  note o = mkdir_restricted_outcome [OF m]
  have d2: "?par \<in> set (d_dirs d2)" "log_file \<notin> set (d_dirs d2)" "owner_only d2 ?par"
    using o(3) path_in_ancestors [of ?par] child_not_ancestor [OF assms(2)] assms(1) by auto
  then obtain d3 where o3: "open_append log_file d2 = Inr d3" and f3: "d_dirs d3 = d_dirs d2" "d_posix d3 = d_posix d2"
    "log_file \<in> set (keys (d_files d3))" "\<forall>q. q \<noteq> log_file \<longrightarrow> owner_only d3 q = owner_only d2 q"
    using open_append_Inr [of log_file d2] by auto
  then obtain d4 where r4: "restrict_to_owner log_file d3 = Inr d4"
    using restrict_Inr [of d3 log_file] by (auto simp: d_exists_def)
  note f4 = restrict_frames [OF r4]
  have "?par \<noteq> log_file" using d2(1,2) by auto
  then have par: "owner_only d4 ?par" using restrict_keeps [OF r4 _] f3(4) d2(3) by blast
  have "owner_only d4 q" if "q \<in> set (keys (d_files d))" "owner_only d q" for q
  proof (cases "q = log_file")
    case True
    then show ?thesis using restrict_owner_only [OF r4] by simp
  next
    case False
    have "owner_only d2 q" using o(3) that assms(3) by blast
    with False show ?thesis using restrict_keeps [OF r4] f3(4) by blast
  qed
  with par show ?thesis
    using o3 r4 restrict_owner_only [OF r4] d2(1) f3(1,2) f4 o(5)
    by (auto simp: configure_logging_def m owner_only_def)
qed

theorem log_file_owner_only_witness:
  "\<exists>d' lg. configure_logging (PyPath [slash] [pstr ''tmp'', pstr ''d.log'']) 20 100 2 (sample_disk, sample_logger) = ((d', lg), Inr ())
     \<and> map_of (d_modes d') (PyPath [slash] [pstr ''tmp'']) = Some 448"
proof -
  let ?p = "PyPath [slash] [pstr ''tmp'', pstr ''d.log'']"
  have h: "?p \<notin> set (d_dirs sample_disk)" "path_parts ?p \<noteq> []"
    "\<forall>a \<in> set (path_ancestors (path_parent ?p)). a \<notin> set (keys (d_files sample_disk))"
    by (simp_all add: sample_disk_def)
  have "path_parent ?p = PyPath [slash] [pstr ''tmp'']" "d_posix sample_disk" by (simp_all add: path_parent_def sample_disk_def)
  with log_file_owner_only [OF h, of 20 100 2 sample_logger] show ?thesis by (auto simp: OWNER_ONLY_DIR_MODE_def)
qed

text \<open>Log levels, exactly: an ASCII \<open>GRAPHIFY_DAEMON_LOG_LEVEL\<close> is accepted if and only if it is one of the
  eight level names in any capitalisation, and then gives that name's level; an unset one gives INFO; anything else
  is a \<open>ConfigurationError\<close>.\<close>

theorem log_level_spec:
  assumes "\<forall>c \<in> set s. c < 128"
  shows "(resolve_log_level rep (Some s) = Inr level
      \<longleftrightarrow> (\<exists>name. py_lower name = py_lower s \<and> map_of NAME_TO_LEVEL name = Some level))
    \<and> resolve_log_level rep None = Inr 20
    \<and> (\<forall>e. resolve_log_level rep v = Inl e \<longrightarrow> kind_of e = ConfigurationError)"
    (is "(?l \<longleftrightarrow> ?r) \<and> ?none \<and> ?err")
proof -
  have up: "py_upper name = name \<and> (\<forall>c \<in> set name. c < 128)" if "map_of NAME_TO_LEVEL name = Some l" for name l
    using that by (auto simp: NAME_TO_LEVEL_def py_upper_def upper_point_def pstr_def split: if_splits)
  have "?l \<longleftrightarrow> ?r"
  proof
    assume ?l
    then have m: "map_of NAME_TO_LEVEL (py_upper s) = Some level"
      by (auto simp: resolve_log_level_def Let_def split: option.splits)
    with up have u: "py_upper (py_upper s) = py_upper s" "\<forall>c \<in> set (py_upper s). c < 128" by blast+
    with upper_lower_ascii [OF u(2) assms] m show ?r by auto
  next
    assume ?r
    then obtain name where n: "py_lower name = py_lower s" "map_of NAME_TO_LEVEL name = Some level" by blast
    from up [OF n(2)] upper_lower_ascii [OF _ assms, of name] n(1) have "py_upper s = name" by simp
    with n(2) show ?l by (simp add: resolve_log_level_def)
  qed
  moreover have ?none using sample_level by (simp add: resolve_log_level_def split: option.splits)
  moreover have ?err by (auto simp: resolve_log_level_def Let_def split: option.splits)
  ultimately show ?thesis by blast
qed

theorem log_level_spec_witness: "resolve_log_level id (Some (pstr ''Debug'')) = Inr 10"
proof -
  have "\<forall>c \<in> set (pstr ''Debug''). c < 128" "py_lower (pstr ''DEBUG'') = py_lower (pstr ''Debug'')"
    "map_of NAME_TO_LEVEL (pstr ''DEBUG'') = Some 10"
    by (simp_all add: pstr_def py_lower_def lower_point_def NAME_TO_LEVEL_def)
  with log_level_spec show ?thesis by blast
qed

end
