(* ===== verification/Serving.thy ===== *)
theory Serving
  imports Daemon_Threads Startup
begin

text \<open>
  Tool calls while the daemon works. \<open>Dispatch\<close> takes a call in one go; in the program a call has an
  \<open>await\<close> in the middle (\<open>asyncio.to_thread\<close>), so other calls, and the writer's threads at any time, get in
  between. Here a call is its two halves: up to the \<open>await\<close> (the snapshot is taken, the arguments are checked,
  the cache is looked up) and from there on (the result is stored and returned). Each half runs on the event
  loop without interruption by another call; all it shares with the writer's threads is the one read of the
  holder and the registry, whose methods are atomic. A call can also be cancelled at the \<open>await\<close>.

  The writer's threads appear as the stages of their work in any order and at any time (\<open>writer_step\<close>); every
  step of \<open>Daemon_Threads\<close> is a sequence of such stages.
\<close>

section \<open>A call in two halves\<close>

record ('g, 't) open_call =
  oc_name :: pystr
  oc_arguments :: pyobj
  oc_snapshot :: "('g, 't) graph_snapshot"
  oc_key :: "cache_key option"

text \<open>Up to the \<open>await\<close>: an answer (with the exception that was logged, if any), or what goes to the worker thread.\<close>

definition begin_call ::
  "('g, 't) lib \<Rightarrow> pystr \<Rightarrow> pyobj option \<Rightarrow> ('g, 't) graph_snapshot option \<Rightarrow> query_cache
     \<Rightarrow> (call_result \<times> exn option + ('g, 't) open_call) \<times> query_cache" where
  "begin_call L name params snapshot qc =
     (case map_of TOOL_DEFINITIONS_BY_NAME name of
        None \<Rightarrow> (Inl (error_result (pstr ''Unknown tool: '' @ l_repr L (JStr name)), None), qc)
      | Some t \<Rightarrow>
          (case snapshot of
             None \<Rightarrow> (Inl (error_result (pstr ''Graph not ready yet''), None), qc)
           | Some s \<Rightarrow>
               let arguments = (case params of None \<Rightarrow> [] | Some a \<Rightarrow> a)
               in (case l_validate L arguments (input_schema t) of
                     Some message \<Rightarrow>
                       (Inl (error_result (pstr ''Invalid arguments for '' @ name @ pstr '': '' @ message), None), qc)
                   | None \<Rightarrow>
                       if name = QUERY_GRAPH then
                         (case query_key (version s) arguments of
                            Inl e \<Rightarrow> (Inl (error_result (tool_failed_text name), Some e), qc)
                          | Inr k \<Rightarrow>
                              (case query_get k qc of
                                 (Some cached, qc1) \<Rightarrow> (Inl (text_result cached, None), qc1)
                               | (None, qc1) \<Rightarrow>
                                   (Inr \<lparr>oc_name = name, oc_arguments = arguments, oc_snapshot = s, oc_key = Some k\<rparr>, qc1)))
                       else (Inr \<lparr>oc_name = name, oc_arguments = arguments, oc_snapshot = s, oc_key = None\<rparr>, qc))))"

text \<open>From the \<open>await\<close> on, when the worker thread is done.\<close>

definition finish_call ::
  "('g, 't) lib \<Rightarrow> ('g, 't) open_call \<Rightarrow> query_cache \<Rightarrow> call_result \<times> query_cache \<times> exn option" where
  "finish_call L c qc =
     (case execute_tool L (oc_name c) (oc_arguments c) (oc_snapshot c) of
        Inl e \<Rightarrow> (error_result (tool_failed_text (oc_name c)), qc, Some e)
      | Inr text \<Rightarrow> (text_result text, case oc_key c of None \<Rightarrow> qc | Some k \<Rightarrow> query_set k text qc, None))"

text \<open>With nothing in between, the halves are the dispatch.\<close>

lemma dispatch_halves:
  "dispatch L name params snapshot qc =
     (case begin_call L name params snapshot qc of
        (Inl (r, logged), qc') \<Rightarrow> (r, qc', logged)
      | (Inr c, qc') \<Rightarrow> finish_call L c qc')"
  by (auto simp: dispatch_def begin_call_def finish_call_def run_tool_def Let_def split: option.split sum.split prod.split)

text \<open>The reference: what the call answers with no cache, on one snapshot.\<close>

definition direct_answer ::
  "('g, 't) lib \<Rightarrow> pystr \<Rightarrow> pyobj option \<Rightarrow> ('g, 't) graph_snapshot option \<Rightarrow> call_result" where
  "direct_answer L name params snapshot =
     (case (map_of TOOL_DEFINITIONS_BY_NAME name, snapshot) of
        (None, _) \<Rightarrow> error_result (pstr ''Unknown tool: '' @ l_repr L (JStr name))
      | (Some t, None) \<Rightarrow> error_result (pstr ''Graph not ready yet'')
      | (Some t, Some s) \<Rightarrow>
          let arguments = (case params of None \<Rightarrow> [] | Some a \<Rightarrow> a)
          in (case l_validate L arguments (input_schema t) of
                Some message \<Rightarrow> error_result (pstr ''Invalid arguments for '' @ name @ pstr '': '' @ message)
              | None \<Rightarrow>
                  (case execute_tool L name arguments s of
                     Inl e \<Rightarrow> error_result (tool_failed_text name)
                   | Inr text \<Rightarrow> text_result text)))"

text \<open>An open call belongs to the request it came from.\<close>

definition opened_by ::
  "('g, 't) lib \<Rightarrow> pystr \<Rightarrow> pyobj option \<Rightarrow> ('g, 't) graph_snapshot option \<Rightarrow> ('g, 't) open_call \<Rightarrow> bool" where
  "opened_by L name params snapshot c \<longleftrightarrow>
     oc_name c = name \<and> snapshot = Some (oc_snapshot c)
     \<and> (\<exists>t. map_of TOOL_DEFINITIONS_BY_NAME name = Some t \<and> l_validate L (oc_arguments c) (input_schema t) = None)
     \<and> oc_arguments c = (case params of None \<Rightarrow> [] | Some a \<Rightarrow> a)
     \<and> (\<forall>k. oc_key c = Some k \<longrightarrow> name = QUERY_GRAPH \<and> query_key (version (oc_snapshot c)) (oc_arguments c) = Inr k)"

text \<open>Every entry of the cache is the answer of a snapshot of the set that has the entry's version.\<close>

definition answers_of :: "('g, 't) lib \<Rightarrow> ('g, 't) graph_snapshot set \<Rightarrow> cache_key \<Rightarrow> pystr \<Rightarrow> bool" where
  "answers_of L S k v \<longleftrightarrow> (\<exists>s \<in> S. version s = key_version k \<and> key_answer L (graph s) k = Inr v)"

lemma answers_of_mono: "S \<subseteq> T \<Longrightarrow> answers_of L S k v \<Longrightarrow> answers_of L T k v"
  by (auto simp: answers_of_def)

lemma query_validated:
  "map_of TOOL_DEFINITIONS_BY_NAME QUERY_GRAPH = Some t \<Longrightarrow> l_validate L a (input_schema t) = None \<Longrightarrow> valid_query L a"
  by (simp add: valid_query_def)

lemma begin_call_sound:
  assumes "filters_checked L" "empty_filters_neutral L" "lru.sound (answers_of L S) qc"
    and "begin_call L name params snapshot qc = (r, qc')" "\<forall>s. snapshot = Some s \<longrightarrow> s \<in> S" "inj_on version S"
  shows "lru.sound (answers_of L S) qc'
    \<and> (case r of Inl (a, logged) \<Rightarrow> a = direct_answer L name params snapshot
       | Inr c \<Rightarrow> opened_by L name params snapshot c)"
proof (cases "map_of TOOL_DEFINITIONS_BY_NAME name")
  case None
  with assms(3,4) show ?thesis by (auto simp: begin_call_def direct_answer_def)
next
  case t: (Some t)
  show ?thesis
  proof (cases snapshot)
    case None
    with assms(3,4) t show ?thesis by (auto simp: begin_call_def direct_answer_def)
  next
    case s: (Some s)
    let ?a = "case params of None \<Rightarrow> [] | Some a \<Rightarrow> a"
    show ?thesis
    proof (cases "l_validate L ?a (input_schema t) = None \<and> name = QUERY_GRAPH")
      case False
      with assms(3,4) t s show ?thesis
        by (cases "l_validate L ?a (input_schema t)") (auto simp: begin_call_def direct_answer_def opened_by_def Let_def)
    next
      case q: True
      then have v: "valid_query L ?a" using t query_validated by blast
      show ?thesis
      proof (cases "query_key (version s) ?a")
        case (Inl e)
        with assms(3,4) t s q run_tool_key_error [OF assms(1) v Inl] show ?thesis
          by (auto simp: begin_call_def direct_answer_def Let_def)
      next
        case (Inr k)
        obtain co qc1 where g: "query_get k qc = (co, qc1)" by (cases "query_get k qc")
        have s1: "lru.sound (answers_of L S) qc1" using lru.sound_fetch [OF assms(3), of k] g by simp
        show ?thesis
        proof (cases co)
          case None
          with assms(4) t s q Inr g s1 show ?thesis by (auto simp: begin_call_def opened_by_def Let_def)
        next
          case (Some x)
          then have "answers_of L S k x" using lru.sound_fetch_value [OF assms(3), of k x] g by simp
          then obtain s' where "s' \<in> S" "version s' = version s" "key_answer L (graph s') k = Inr x"
            using query_key_version [OF Inr] by (auto simp: answers_of_def)
          with assms(5,6) s have "key_answer L (graph s) k = Inr x" by (auto dest: inj_onD)
          with answer_by_key [OF assms(1,2) v Inr] assms(4) t s q Inr g s1 Some show ?thesis
            by (auto simp: begin_call_def direct_answer_def Let_def)
        qed
      qed
    qed
  qed
qed

lemma finish_call_sound:
  assumes "filters_checked L" "empty_filters_neutral L" "lru.sound (answers_of L S) qc"
    and "opened_by L name params snapshot c" "finish_call L c qc = (r, qc', logged)" "oc_snapshot c \<in> S"
  shows "lru.sound (answers_of L S) qc' \<and> r = direct_answer L name params snapshot"
proof -
  have r: "r = direct_answer L name params snapshot"
    using assms(4,5) by (auto simp: finish_call_def opened_by_def direct_answer_def Let_def split: sum.splits)
  have "lru.sound (answers_of L S) qc'"
  proof (cases "\<exists>k x. oc_key c = Some k \<and> execute_tool L (oc_name c) (oc_arguments c) (oc_snapshot c) = Inr x")
    case True
    then obtain k x where k: "oc_key c = Some k" and x: "execute_tool L (oc_name c) (oc_arguments c) (oc_snapshot c) = Inr x"
      by blast
    with assms(4) obtain t where n: "oc_name c = QUERY_GRAPH" and q: "query_key (version (oc_snapshot c)) (oc_arguments c) = Inr k"
      and t: "map_of TOOL_DEFINITIONS_BY_NAME QUERY_GRAPH = Some t" "l_validate L (oc_arguments c) (input_schema t) = None"
      by (auto simp: opened_by_def)
    note v = query_validated [OF t]
    from answer_by_key [OF assms(1,2) v q] x n query_key_version [OF q] assms(6) have "answers_of L S k x"
      by (auto simp: answers_of_def)
    from lru.sound_store [OF assms(3) this] assms(5) k x show ?thesis by (simp add: finish_call_def)
  next
    case False
    with assms(3,5) show ?thesis by (auto simp: finish_call_def split: sum.splits option.splits)
  qed
  with r show ?thesis by simp
qed

section \<open>The writer's stages\<close>

text \<open>
  What the writer's threads do to the daemon, cut as fine as a reader can see: one stage of a compilation, a
  slow-cadence cycle (it publishes at most once), the final persist, or an operation of the watcher. The
  order of the stages is left open, so this relation allows more than the threads do.
\<close>

inductive writer_step :: "('g, 't) lib \<Rightarrow> config \<Rightarrow> ('g, 't) daemon \<Rightarrow> ('g, 't) daemon \<Rightarrow> bool"
  for L :: "('g, 't) lib" and cf :: config where
  wr_extract: "extract_stage cf E b dm = (dm', r) \<Longrightarrow> writer_step L cf dm dm'"
| wr_index: "index_stage cf E b dm = (dm', r) \<Longrightarrow> writer_step L cf dm dm'"
| wr_publish: "publish_batch L dm = (dm', r) \<Longrightarrow> writer_step L cf dm dm'"
| wr_record: "record_stage E b dm = (dm', r) \<Longrightarrow> writer_step L cf dm dm'"
| wr_cadence: "daemon_cadence_cycle L cf E dm = (dm', r) \<Longrightarrow> writer_step L cf dm dm'"
| wr_persist: "persist_on_shutdown L cf dm = (dm', r) \<Longrightarrow> writer_step L cf dm dm'"
| wr_watch: "writer_step L cf dm (dm\<lparr>watch := w, registry := m\<rparr>)"
| wr_life: "lifecycle dm \<le> l \<Longrightarrow> writer_step L cf dm (dm\<lparr>lifecycle := l\<rparr>)"

text \<open>What a writer's step leaves to readers: the current snapshot, or one of a version not used before.\<close>

definition moved_on :: "('g, 't) snapshot_holder \<Rightarrow> ('g, 't) snapshot_holder \<Rightarrow> bool" where
  "moved_on h h' \<longleftrightarrow> next_version h \<le> next_version h' \<and> (current h \<noteq> None \<longrightarrow> current h' \<noteq> None)
     \<and> (\<forall>s. current h' = Some s \<longrightarrow> current h = Some s \<or> next_version h \<le> version s)"

lemma moved_on_refl [simp]: "moved_on h h"
  by (simp add: moved_on_def)

lemma moved_on_publish: "publish L g cm h = (s, h') \<Longrightarrow> moved_on h h'"
  by (frule publish_fields(1), frule publish_fields(2), drule publish_fields(3)) (simp add: moved_on_def)

lemma moved_on_cycle:
  assumes "run_clustering_cycle L ce tmo now st = (st', u)"
  shows "moved_on (c_holder st) (c_holder st')"
  using assms
  by (auto simp: run_clustering_cycle_def dest: moved_on_publish split: option.splits sum.splits prod.splits)

lemma moved_on_cadence:
  assumes "daemon_cadence_cycle L cf E dm = (dm', r)"
  shows "moved_on (holder dm) (holder dm')"
proof -
  obtain s where s: "run_slow_cadence_cycle L (e_child E) DEFAULT_CLUSTERING_TIMEOUT_SECONDS (e_clock E)
      (artifacts_of cf) (cache dm) (cadence_state_of dm) = (s, r)" and dm': "dm' = put_cadence_state s dm"
    using assms by (auto simp: daemon_cadence_cycle_def split: prod.splits)
  have "s_cluster s = s_cluster (cadence_state_of dm) \<or>
      (\<exists>u. run_clustering_cycle L (e_child E) DEFAULT_CLUSTERING_TIMEOUT_SECONDS (at_success (e_clock E))
        (s_cluster (cadence_state_of dm)) = (s_cluster s, u))"
    using s by (auto simp: run_slow_cadence_cycle_def split: if_splits prod.splits sum.splits)
  moreover have "c_holder (s_cluster (cadence_state_of dm)) = holder dm" by (simp add: cadence_state_of_def)
  ultimately show ?thesis by (auto simp: dm' put_cadence_state_def dest: moved_on_cycle)
qed

lemma writer_step_safe:
  assumes "writer_step L cf dm dm'" "daemon_inv L dm"
  shows "daemon_inv L dm' \<and> moved_on (holder dm) (holder dm') \<and> queries dm' = queries dm"
  using assms(1)
proof cases
  case (wr_extract E b r)
  then show ?thesis using safe_stepD [OF safe_extract assms(2) wr_extract]
    by (auto simp: extract_stage_def put_extract_state_def split: prod.splits)
next
  case (wr_index E b r)
  then show ?thesis using safe_stepD [OF safe_index assms(2) wr_index]
    by (auto simp: index_stage_def split: prod.splits)
next
  case (wr_publish r)
  with safe_stepD [OF safe_publish assms(2) wr_publish] show ?thesis
    using moved_on_publish [OF surjective_pairing] by (auto simp: publish_batch_def Let_def split: sum.splits)
next
  case (wr_record E b r)
  then show ?thesis using assms(2) by (auto simp: record_stage_def daemon_inv_def)
next
  case (wr_cadence E r)
  from cadence_cycle_safe [OF wr_cadence assms(2)] moved_on_cadence [OF wr_cadence] show ?thesis by simp
next
  case (wr_persist r)
  with persist_safe [OF wr_persist assms(2)] show ?thesis
    by (auto simp: persist_on_shutdown_def split: prod.splits sum.splits)
qed (use assms(2) in \<open>simp_all add: daemon_inv_def\<close>)

lemma writer_run_all:
  assumes "\<And>f s. f \<in> set fs \<Longrightarrow> (writer_step L cf)\<^sup>*\<^sup>* s (fst (f s))"
  shows "(writer_step L cf)\<^sup>*\<^sup>* dm (fst (run_all fs dm))"
proof (rule run_all_inv)
  show "(writer_step L cf)\<^sup>*\<^sup>* dm (fst (f s))" if "f \<in> set fs" "(writer_step L cf)\<^sup>*\<^sup>* dm s" for f s
    using assms [OF that(1)] that(2) by (rule rtranclp_trans [rotated])
qed simp

lemma wr_watch_only: "writer_step L cf dm (dm\<lparr>watch := w\<rparr>)"
  using wr_watch [where dm = dm and m = "registry dm"] by simp

lemma writer_cadence_stage: "(writer_step L cf)\<^sup>*\<^sup>* dm (fst (cadence_stage L cf E dm))"
proof -
  obtain dm' r where c: "daemon_cadence_cycle L cf E dm = (dm', r)" by (cases "daemon_cadence_cycle L cf E dm")
  have "(writer_step L cf)\<^sup>*\<^sup>* dm dm'" using wr_cadence [OF c] by blast
  from rtranclp.rtrancl_into_rtrancl [OF this wr_watch_only] this c show ?thesis
    by (auto simp: cadence_stage_def split: sum.split)
qed

lemma writer_batch:
  assumes "on_batch L cf E b dm = (dm', r)"
  shows "(writer_step L cf)\<^sup>*\<^sup>* dm dm'"
proof -
  have "(writer_step L cf)\<^sup>*\<^sup>* dm (fst (compile_batch L cf E b dm))"
    unfolding compile_batch_def
  proof (rule writer_run_all)
    fix f and s :: "('a, 'b) daemon"
    assume f: "f \<in> set [extract_stage cf E b, index_stage cf E b, publish_batch L, record_stage E b, cadence_stage L cf E]"
    have "writer_step L cf s (fst (extract_stage cf E b s))" "writer_step L cf s (fst (index_stage cf E b s))"
      "writer_step L cf s (fst (publish_batch L s))" "writer_step L cf s (fst (record_stage E b s))"
      by (metis surjective_pairing wr_extract wr_index wr_publish wr_record)+
    with f writer_cadence_stage show "(writer_step L cf)\<^sup>*\<^sup>* s (fst (f s))" by auto
  qed
  with assms show ?thesis by (simp add: on_batch_def coordinator_run_batch_def consume_def)
qed

text \<open>The threads of the daemon do nothing to it that is not a sequence of these stages.\<close>

lemma thread_writes:
  assumes "thread_step L cf s t"
  shows "(writer_step L cf)\<^sup>*\<^sup>* (dmn s) (dmn t)"
  using assms
proof (cases rule: thread_step.cases)
  case (th_compile b E dm' r)
  with writer_batch show ?thesis by simp
next
  case (th_idle_run E dm' r)
  then obtain r' where "daemon_cadence_cycle L cf E (dmn s) = (dm', r')"
    by (auto simp: on_idle_cadence_def coordinator_run_batch_def split: prod.splits sum.splits)
  with th_idle_run show ?thesis by (auto intro: wr_cadence)
next
  case (th_drain_compile b E dm' r)
  with writer_batch show ?thesis by simp
next
  case th_begin
  then show ?thesis by (auto intro!: r_into_rtranclp wr_life simp: less_eq_daemon_state_def)
next
  case (th_persist dm' u)
  have "writer_step L cf dm' (dm'\<lparr>lifecycle := STOPPED\<rparr>)"
    by (rule wr_life) (cases "lifecycle dm'"; simp add: less_eq_daemon_state_def)
  with wr_persist [OF th_persist(3)] th_persist(1) show ?thesis by auto
next
  case (th_persist_fails dm' e)
  then show ?thesis by (auto intro: wr_persist)
qed (simp_all add: expire_timer_def wr_watch wr_watch_only r_into_rtranclp)

section \<open>The server while the daemon works\<close>

record ('g, 't) request =
  rq_name :: pystr
  rq_params :: "pyobj option"
  rq_snapshot :: "('g, 't) graph_snapshot option"
  rq_start :: real

text \<open>
  \<open>sv_open\<close> holds the calls at their \<open>await\<close>, by number. The last two fields only record: the calls that began, in
  order, each with the snapshot it took, and the answers that were returned, with the number of their call.
\<close>

record ('g, 't) serving =
  sv_daemon :: "('g, 't) daemon"
  sv_open :: "(nat, ('g, 't) open_call) dict"
  sv_begun :: "('g, 't) request list"
  sv_answers :: "(nat \<times> call_result) list"

definition serving_start :: "('g, 't) daemon \<Rightarrow> ('g, 't) serving" where
  "serving_start dm = \<lparr>sv_daemon = dm, sv_open = [], sv_begun = [], sv_answers = []\<rparr>"

text \<open>The \<open>finally\<close> of \<open>on_call_tool\<close>: the latency is recorded however the call ends.\<close>

definition call_over :: "real \<Rightarrow> real \<Rightarrow> query_cache \<Rightarrow> ('g, 't) daemon \<Rightarrow> ('g, 't) daemon" where
  "call_over t0 t1 qc dm =
     dm\<lparr>queries := qc, registry := map_option (record_latency ''query'' (t1 - t0)) (registry dm)\<rparr>"

inductive serving_step :: "('g, 't) lib \<Rightarrow> config \<Rightarrow> ('g, 't) serving \<Rightarrow> ('g, 't) serving \<Rightarrow> bool"
  for L :: "('g, 't) lib" and cf :: config where
  sv_write: "writer_step L cf (sv_daemon s) dm' \<Longrightarrow> serving_step L cf s (s\<lparr>sv_daemon := dm'\<rparr>)"
| sv_answer_at_once:
    "rq = \<lparr>rq_name = name, rq_params = params, rq_snapshot = current (holder (sv_daemon s)), rq_start = t0\<rparr> \<Longrightarrow>
     begin_call L name params (current (holder (sv_daemon s))) (queries (sv_daemon s)) = (Inl (r, logged), qc) \<Longrightarrow>
     serving_step L cf s (s\<lparr>sv_daemon := call_over t0 t1 qc (sv_daemon s), sv_begun := sv_begun s @ [rq],
       sv_answers := sv_answers s @ [(length (sv_begun s), r)]\<rparr>)"
| sv_await:
    "rq = \<lparr>rq_name = name, rq_params = params, rq_snapshot = current (holder (sv_daemon s)), rq_start = t0\<rparr> \<Longrightarrow>
     begin_call L name params (current (holder (sv_daemon s))) (queries (sv_daemon s)) = (Inr c, qc) \<Longrightarrow>
     serving_step L cf s (s\<lparr>sv_daemon := (sv_daemon s)\<lparr>queries := qc\<rparr>, sv_begun := sv_begun s @ [rq],
       sv_open := sv_open s @ [(length (sv_begun s), c)]\<rparr>)"
| sv_finish:
    "map_of (sv_open s) i = Some c \<Longrightarrow> finish_call L c (queries (sv_daemon s)) = (r, qc, logged) \<Longrightarrow>
     serving_step L cf s (s\<lparr>sv_daemon := call_over (rq_start (sv_begun s ! i)) t1 qc (sv_daemon s),
       sv_open := AList.delete i (sv_open s), sv_answers := sv_answers s @ [(i, r)]\<rparr>)"
| sv_cancel:
    "map_of (sv_open s) i = Some c \<Longrightarrow>
     serving_step L cf s (s\<lparr>sv_daemon := call_over (rq_start (sv_begun s ! i)) t1 (queries (sv_daemon s)) (sv_daemon s),
       sv_open := AList.delete i (sv_open s)\<rparr>)"

text \<open>The snapshots that calls took, in the order the calls began.\<close>

definition taken :: "('g, 't) request list \<Rightarrow> ('g, 't) graph_snapshot list" where
  "taken rqs = List.map_filter rq_snapshot rqs"

lemma taken_simps [simp]:
  "taken [] = []"
  "taken (rqs @ [rq]) = taken rqs @ (case rq_snapshot rq of None \<Rightarrow> [] | Some s \<Rightarrow> [s])"
  by (simp_all add: taken_def map_filter_def split: option.split)

lemma taken_set: "s \<in> set (taken rqs) \<longleftrightarrow> (\<exists>rq \<in> set rqs. rq_snapshot rq = Some s)"
  by (force simp: taken_def map_filter_def)

text \<open>
  What calls have seen, against what is published: versions in the order they were taken, one snapshot per version, none
  newer than the current one.
\<close>

definition seen_ok :: "('g, 't) snapshot_holder \<Rightarrow> ('g, 't) graph_snapshot list \<Rightarrow> bool" where
  "seen_ok h ss \<longleftrightarrow> sorted (map version ss) \<and> inj_on version (set ss)
     \<and> (\<forall>s \<in> set ss. version s < next_version h \<and> current h \<noteq> None)
     \<and> (\<forall>s \<in> set ss. \<forall>c. current h = Some c \<longrightarrow> version s \<le> version c \<and> (version s = version c \<longrightarrow> s = c))"

lemma seen_ok_new [simp]: "seen_ok h []"
  by (simp add: seen_ok_def)

lemma seen_ok_moved: "seen_ok h ss \<Longrightarrow> moved_on h h' \<Longrightarrow> seen_ok h' ss"
  by (fastforce simp: seen_ok_def moved_on_def)

lemma seen_ok_take:
  assumes "seen_ok h ss" "current h = Some c" "version c < next_version h"
  shows "seen_ok h (ss @ [c])"
  using assms by (auto simp: seen_ok_def sorted_append inj_on_def)

definition open_ok :: "('g, 't) lib \<Rightarrow> ('g, 't) request list \<Rightarrow> (nat, ('g, 't) open_call) dict \<Rightarrow> bool" where
  "open_ok L rqs os \<longleftrightarrow> (\<forall>(i, c) \<in> set os. i < length rqs
     \<and> opened_by L (rq_name (rqs ! i)) (rq_params (rqs ! i)) (rq_snapshot (rqs ! i)) c)"

definition answers_ok :: "('g, 't) lib \<Rightarrow> ('g, 't) request list \<Rightarrow> (nat \<times> call_result) list \<Rightarrow> bool" where
  "answers_ok L rqs as \<longleftrightarrow> (\<forall>(i, r) \<in> set as. i < length rqs
     \<and> r = direct_answer L (rq_name (rqs ! i)) (rq_params (rqs ! i)) (rq_snapshot (rqs ! i)))"

lemma open_ok_more: "open_ok L rqs os \<Longrightarrow> open_ok L (rqs @ [rq]) os"
  by (auto simp: open_ok_def nth_append)

lemma answers_ok_more: "answers_ok L rqs as \<Longrightarrow> answers_ok L (rqs @ [rq]) as"
  by (auto simp: answers_ok_def nth_append)

definition serving_inv :: "('g, 't) lib \<Rightarrow> ('g, 't) serving \<Rightarrow> bool" where
  "serving_inv L s \<longleftrightarrow> daemon_inv L (sv_daemon s)
     \<and> seen_ok (holder (sv_daemon s)) (taken (sv_begun s))
     \<and> lru.sound (answers_of L (set (taken (sv_begun s)))) (queries (sv_daemon s))
     \<and> open_ok L (sv_begun s) (sv_open s) \<and> answers_ok L (sv_begun s) (sv_answers s)
     \<and> distinct (keys (sv_open s) @ keys (sv_answers s))"

text \<open>Beginning a call: the snapshot it takes is the newest one any call has seen.\<close>

lemma serving_begin:
  assumes "filters_checked L" "empty_filters_neutral L" "serving_inv L s"
    and "rq = \<lparr>rq_name = name, rq_params = params, rq_snapshot = current (holder (sv_daemon s)), rq_start = t0\<rparr>"
    and "begin_call L name params (current (holder (sv_daemon s))) (queries (sv_daemon s)) = (r, qc)"
  shows "seen_ok (holder (sv_daemon s)) (taken (sv_begun s @ [rq]))"
    and "lru.sound (answers_of L (set (taken (sv_begun s @ [rq])))) qc"
    and "case r of Inl (a, logged) \<Rightarrow> a = direct_answer L name params (rq_snapshot rq)
       | Inr c \<Rightarrow> opened_by L name params (rq_snapshot rq) c"
proof -
  let ?S = "set (taken (sv_begun s @ [rq]))"
  have i: "seen_ok (holder (sv_daemon s)) (taken (sv_begun s))"
    "lru.sound (answers_of L (set (taken (sv_begun s)))) (queries (sv_daemon s))"
    "holder_ok L (holder (sv_daemon s))"
    using assms(3) by (simp_all add: serving_inv_def daemon_inv_def)
  show seen: "seen_ok (holder (sv_daemon s)) (taken (sv_begun s @ [rq]))"
  proof (cases "current (holder (sv_daemon s))")
    case (Some c)
    with i(3) have "version c < next_version (holder (sv_daemon s))" by (simp add: holder_ok_def)
    from seen_ok_take [OF i(1) Some this] Some show ?thesis by (simp add: assms(4))
  qed (use i(1) assms(4) in simp)
  have "lru.sound (answers_of L ?S) (queries (sv_daemon s))"
    by (rule lru.sound_weaken [OF i(2)]) (auto intro: answers_of_mono [rotated])
  moreover have "\<forall>c. current (holder (sv_daemon s)) = Some c \<longrightarrow> c \<in> ?S" by (simp add: assms(4))
  moreover have "inj_on version ?S" using seen by (simp only: seen_ok_def)
  ultimately have "lru.sound (answers_of L ?S) qc \<and> (case r of
      Inl (a, logged) \<Rightarrow> a = direct_answer L name params (current (holder (sv_daemon s)))
    | Inr c \<Rightarrow> opened_by L name params (current (holder (sv_daemon s))) c)"
    by (rule begin_call_sound [OF assms(1,2) _ assms(5)])
  moreover have "rq_snapshot rq = current (holder (sv_daemon s))" by (simp add: assms(4))
  ultimately
  show "lru.sound (answers_of L ?S) qc" "case r of Inl (a, logged) \<Rightarrow> a = direct_answer L name params (rq_snapshot rq)
       | Inr c \<Rightarrow> opened_by L name params (rq_snapshot rq) c"
    by (simp_all only:)
qed

lemma serving_queries:
  "serving_inv L s \<Longrightarrow> lru.sound ok qc \<Longrightarrow> daemon_inv L ((sv_daemon s)\<lparr>queries := qc\<rparr>)"
  by (simp add: serving_inv_def daemon_inv_def lru.sound_def)

lemma call_over_fields [simp]:
  "holder (call_over t0 t1 qc dm) = holder dm" "queries (call_over t0 t1 qc dm) = qc"
  "daemon_inv L (call_over t0 t1 qc dm) = daemon_inv L (dm\<lparr>queries := qc\<rparr>)"
  by (simp_all add: call_over_def daemon_inv_def)

lemma keys_fresh:
  "serving_inv L s \<Longrightarrow> length (sv_begun s) \<notin> fst ` set (sv_open s) \<union> fst ` set (sv_answers s)"
  by (fastforce simp: serving_inv_def open_ok_def answers_ok_def)

lemma open_ok_delete: "open_ok L rqs os \<Longrightarrow> open_ok L rqs (AList.delete i os)"
  using set_delete_sub [of i os] by (auto simp: open_ok_def)

lemma serving_step_inv:
  assumes "filters_checked L" "empty_filters_neutral L" "serving_inv L s" "serving_step L cf s t"
  shows "serving_inv L t"
  using assms(4)
proof cases
  case (sv_write dm')
  have "daemon_inv L (sv_daemon s)" using assms(3) by (simp add: serving_inv_def)
  note w = writer_step_safe [OF sv_write(2) this]
  with assms(3) have "seen_ok (holder dm') (taken (sv_begun s))" by (auto simp: serving_inv_def intro: seen_ok_moved)
  with w assms(3) sv_write(1) show ?thesis by (simp add: serving_inv_def)
next
  case (sv_answer_at_once rq name params t0 r logged qc t1)
  note b = serving_begin [OF assms(1-3) sv_answer_at_once(2,3)]
  note keys_fresh [OF assms(3)]
  moreover have "answers_ok L (sv_begun s @ [rq]) (sv_answers s @ [(length (sv_begun s), r)])"
    using assms(3) answers_ok_more b(3) by (fastforce simp: serving_inv_def answers_ok_def sv_answer_at_once(2) nth_append)
  ultimately show ?thesis
    using assms(3) b(1,2) serving_queries [OF assms(3) b(2)]
    by (simp add: serving_inv_def sv_answer_at_once(1) open_ok_more del: taken_simps)
next
  case (sv_await rq name params t0 c qc)
  note b = serving_begin [OF assms(1-3) sv_await(2,3)]
  note keys_fresh [OF assms(3)]
  moreover have "open_ok L (sv_begun s @ [rq]) (sv_open s @ [(length (sv_begun s), c)])"
    using assms(3) b(3) by (fastforce simp: serving_inv_def open_ok_def sv_await(2) nth_append)
  ultimately show ?thesis
    using assms(3) b(1,2) serving_queries [OF assms(3) b(2)]
    by (simp add: serving_inv_def sv_await(1) answers_ok_more del: taken_simps)
next
  case (sv_finish i c r qc logged t1)
  have m: "(i, c) \<in> set (sv_open s)" using sv_finish(2) by (rule map_of_SomeD)
  then have o: "i < length (sv_begun s)"
    "opened_by L (rq_name (sv_begun s ! i)) (rq_params (sv_begun s ! i)) (rq_snapshot (sv_begun s ! i)) c"
    using assms(3) by (auto simp: serving_inv_def open_ok_def)
  then have "oc_snapshot c \<in> set (taken (sv_begun s))" by (auto simp: opened_by_def taken_set)
  moreover have "lru.sound (answers_of L (set (taken (sv_begun s)))) (queries (sv_daemon s))"
    using assms(3) by (simp add: serving_inv_def)
  ultimately have f: "lru.sound (answers_of L (set (taken (sv_begun s)))) qc"
    "r = direct_answer L (rq_name (sv_begun s ! i)) (rq_params (sv_begun s ! i)) (rq_snapshot (sv_begun s ! i))"
    using finish_call_sound [OF assms(1,2) _ o(2) sv_finish(3)] by blast+
  have "distinct (keys (AList.delete i (sv_open s)) @ keys (sv_answers s @ [(i, r)]))"
    using assms(3) m by (force simp: serving_inv_def dict_simps distinct_delete)
  with f o(1) assms(3) serving_queries [OF assms(3) f(1)] show ?thesis
    by (auto simp: serving_inv_def sv_finish(1) open_ok_delete answers_ok_def)
next
  case (sv_cancel i c t1)
  have "distinct (keys (AList.delete i (sv_open s)) @ keys (sv_answers s))"
    using assms(3) by (force simp: serving_inv_def dict_simps distinct_delete)
  with assms(3) show ?thesis by (auto simp: serving_inv_def sv_cancel(1) open_ok_delete)
qed

lemma serving_start_inv: "daemon_inv L dm \<Longrightarrow> qentries (queries dm) = [] \<Longrightarrow> serving_inv L (serving_start dm)"
  by (simp add: serving_inv_def serving_start_def open_ok_def answers_ok_def lru.sound_def daemon_inv_def)

definition serving_init :: "('g, 't) lib \<Rightarrow> ('g, 't) serving \<Rightarrow> bool" where
  "serving_init L s \<longleftrightarrow> daemon_inv L (sv_daemon s) \<and> qentries (queries (sv_daemon s)) = [] \<and> s = serving_start (sv_daemon s)"

lemma serving_init_start: "daemon_inv L dm \<Longrightarrow> qentries (queries dm) = [] \<Longrightarrow> serving_init L (serving_start dm)"
  by (simp add: serving_init_def serving_start_def)

interpretation serving: transition_system "serving_init L" "serving_step L cf"
  "\<lambda>s. filters_checked L \<and> empty_filters_neutral L \<longrightarrow> serving_inv L s"
  for L cf
proof
  show "filters_checked L \<and> empty_filters_neutral L \<longrightarrow> serving_inv L s" if "serving_init L s" for s
    using that serving_start_inv by (metis serving_init_def)
  show "filters_checked L \<and> empty_filters_neutral L \<longrightarrow> serving_inv L t"
    if "filters_checked L \<and> empty_filters_neutral L \<longrightarrow> serving_inv L s" "serving_step L cf s t" for s t
    using that serving_step_inv by blast
qed

text \<open>Once a snapshot is published, every call takes one.\<close>

definition always_ready :: "('g, 't) serving \<Rightarrow> bool" where
  "always_ready s \<longleftrightarrow> current (holder (sv_daemon s)) \<noteq> None \<and> (\<forall>rq \<in> set (sv_begun s). rq_snapshot rq \<noteq> None)"

lemma ready_steps:
  assumes "(serving_step L cf)\<^sup>*\<^sup>* s t" "filters_checked L" "empty_filters_neutral L" "serving_inv L s" "always_ready s"
  shows "always_ready t \<and> serving_inv L t"
  using assms(1)
proof (induction rule: rtranclp_induct)
  case (step u v)
  then have i: "serving_inv L u" "always_ready u" by simp_all
  from serving_step_inv [OF assms(2,3) i(1) step(2)] have v: "serving_inv L v" .
  show ?case using step(2)
  proof cases
    case (sv_write dm')
    have "daemon_inv L (sv_daemon u)" using i(1) by (simp add: serving_inv_def)
    from writer_step_safe [OF sv_write(2) this] i(2) v sv_write(1) show ?thesis
      by (auto simp: always_ready_def moved_on_def)
  qed (use i(2) v in \<open>auto simp: always_ready_def\<close>)
qed (use assms(4,5) in simp)

section \<open>Properties\<close>

text \<open>C5. Tool calls and the writer do not disturb each other: whatever stages of compilation, clustering, idle
  cycle and shutdown run before, between and after the two halves of any number of concurrent calls, cancelled
  ones among them, every answer is the one that an uncached execution gives on the one snapshot that was current when its
  call began; no call is answered twice; and in the order the calls began, the snapshots never go back.\<close>

theorem concurrent_answers_correct:
  assumes "filters_checked L" "empty_filters_neutral L" "serving_init L s" "(serving_step L cf)\<^sup>*\<^sup>* s t"
  shows "(\<forall>(i, r) \<in> set (sv_answers t). i < length (sv_begun t)
      \<and> r = direct_answer L (rq_name (sv_begun t ! i)) (rq_params (sv_begun t ! i)) (rq_snapshot (sv_begun t ! i)))
    \<and> distinct (keys (sv_answers t)) \<and> sorted (map version (taken (sv_begun t)))
    \<and> (\<forall>a \<in> set (taken (sv_begun t)). \<forall>b \<in> set (taken (sv_begun t)). version a = version b \<longrightarrow> a = b)"
proof -
  have "serving_inv L t" using serving.reachable_inv [OF assms(3,4)] assms(1,2) by blast
  then show ?thesis by (auto simp: serving_inv_def answers_ok_def seen_ok_def inj_on_def)
qed

text \<open>C13. Readers see what has been compiled: once \<open>_compile_batch\<close> has published, every call that begins later takes a
  newer snapshot than every call that began before, whatever else runs in between.\<close>

theorem calls_after_publish_are_fresh:
  assumes "filters_checked L" "empty_filters_neutral L" "serving_init L s0" "(serving_step L cf)\<^sup>*\<^sup>* s0 s"
    and "publish_batch L (sv_daemon s) = (dm', Inr u)" "(serving_step L cf)\<^sup>*\<^sup>* (s\<lparr>sv_daemon := dm'\<rparr>) t"
    and "i < length (sv_begun s)" "length (sv_begun s) \<le> j" "j < length (sv_begun t)"
    and "rq_snapshot (sv_begun t ! i) = Some a" "rq_snapshot (sv_begun t ! j) = Some b"
  shows "version a < version b"
proof -
  let ?s = "s\<lparr>sv_daemon := dm'\<rparr>" and ?n = "next_version (holder (sv_daemon s))"
  have st: "serving_step L cf s ?s" by (rule sv_write) (rule wr_publish [OF assms(5)])
  have inv: "serving_inv L s" "serving_inv L ?s"
    using serving.reachable_inv [OF assms(3,4)] assms(1,2) serving_step_inv st by blast+
  have n: "?n < next_version (holder dm')"
    using assms(5) by (auto simp: publish_batch_def Let_def publish_snd split: sum.splits)
  have "(\<exists>rqs. sv_begun t = sv_begun ?s @ rqs \<and> (\<forall>rq \<in> set rqs. \<forall>b. rq_snapshot rq = Some b \<longrightarrow> ?n \<le> version b))
      \<and> ?n < next_version (holder (sv_daemon t)) \<and> serving_inv L t"
    using assms(6)
  proof (induction rule: rtranclp_induct)
    case base
    show ?case using n inv(2) by simp
  next
    case (step u v)
    have vi: "serving_inv L v" using serving_step_inv [OF assms(1,2) _ step(2)] step.IH by blast
    have hu: "holder_ok L (holder (sv_daemon u))" "daemon_inv L (sv_daemon u)"
      using step.IH by (simp_all add: serving_inv_def daemon_inv_def)
    then have c: "?n \<le> version b" if "current (holder (sv_daemon u)) = Some b" for b
      using that step.IH by (auto simp: holder_ok_def)
    show ?case using step(2)
    proof cases
      case (sv_write dm'')
      from writer_step_safe [OF sv_write(2) hu(2)] step.IH vi sv_write(1) show ?thesis
        by (auto simp: moved_on_def)
    qed (use step.IH vi c in auto)
  qed
  then obtain rqs where r: "sv_begun t = sv_begun s @ rqs" "\<forall>rq \<in> set rqs. \<forall>b. rq_snapshot rq = Some b \<longrightarrow> ?n \<le> version b"
    by auto
  have "a \<in> set (taken (sv_begun s))" using assms(7,10) r(1) by (auto simp: nth_append taken_set)
  then have "version a < ?n" using inv(1) by (auto simp: serving_inv_def seen_ok_def)
  moreover have "?n \<le> version b" using assms(8,9,11) r by (auto simp: nth_append)
  ultimately show ?thesis by simp
qed



section \<open>An example run\<close>

definition why_args :: pyobj where
  "why_args = [(pstr ''question'', jstr ''why'')]"

definition why_key :: "nat \<Rightarrow> cache_key" where
  "why_key v = \<lparr>key_version = v, key_question = pstr ''why'', key_mode = pstr ''bfs'', key_depth = 3,
     key_token_budget = 2000, key_context_filters = None\<rparr>"

definition why_open :: "(sample_graph, nat) graph_snapshot \<Rightarrow> (sample_graph, nat) open_call" where
  "why_open s = \<lparr>oc_name = QUERY_GRAPH, oc_arguments = why_args, oc_snapshot = s, oc_key = Some (why_key (version s))\<rparr>"

definition why_request :: "(sample_graph, nat) graph_snapshot \<Rightarrow> (sample_graph, nat) request" where
  "why_request s = \<lparr>rq_name = QUERY_GRAPH, rq_params = Some why_args, rq_snapshot = Some s, rq_start = 0\<rparr>"

lemma why_key_of: "query_key v why_args = Inr (why_key v)"
  by (simp add: query_key_def why_args_def why_key_def arg_def dict_index_def arg_get_def dict_get_def filters_tuple_def)

lemma why_begins:
  assumes "qentries qc = []"
  shows "begin_call sample_lib QUERY_GRAPH (Some why_args) (Some s) qc = (Inr (why_open s), qc\<lparr>misses := misses qc + 1\<rparr>)"
proof -
  obtain t where t: "map_of TOOL_DEFINITIONS_BY_NAME QUERY_GRAPH = Some t" using query_tool_listed by blast
  have "l_validate sample_lib why_args x = None" for x by (simp add: sample_lib_def why_args_def)
  with assms t show ?thesis by (simp add: begin_call_def Let_def why_key_of query_get_def why_open_def)
qed

lemma why_answer: "execute_tool sample_lib QUERY_GRAPH why_args s = Inr (pstr ''whybfs'')"
  by (simp add: execute_query tool_query_graph_def why_args_def arg_def dict_index_def arg_get_def dict_get_def
      query_graph_text_def sample_lib_def pstr_def)

lemma why_finishes:
  "finish_call sample_lib (why_open s) qc
     = (text_result (pstr ''whybfs''), query_set (why_key (version s)) (pstr ''whybfs'') qc, None)"
  by (simp add: finish_call_def why_open_def why_answer)

lemma sample_lib_laws: "filters_checked sample_lib" "empty_filters_neutral sample_lib"
  using query_tool_listed
  by (auto simp: filters_checked_def valid_query_def empty_filters_neutral_def sample_lib_def)

text \<open>A daemon with one snapshot; publishing makes the second.\<close>

definition serving_daemon :: "(sample_graph, nat) daemon" where
  "serving_daemon = (sample_daemon [])\<lparr>holder := snd (publish sample_lib ([], []) [] new_holder)\<rparr>"

definition why_snapshot :: "nat \<Rightarrow> (sample_graph, nat) graph_snapshot" where
  "why_snapshot v = \<lparr>graph = ([], []), trigram_index = 0, community_map = [], version = v\<rparr>"

lemma serving_daemon_init: "serving_init sample_lib (serving_start serving_daemon)"
proof (rule serving_init_start)
  show "daemon_inv sample_lib serving_daemon"
    using holder_ok_publish_snd [OF holder_ok_new, of sample_lib "([], [])" "[]"] sample_daemon_inv [of "[]"]
    by (simp add: serving_daemon_def daemon_inv_def)
  show "qentries (queries serving_daemon) = []"
    by (simp add: serving_daemon_def sample_daemon_def new_query_cache_def)
qed

lemma serving_daemon_current: "current (holder serving_daemon) = Some (why_snapshot 1)"
  by (simp add: serving_daemon_def publish_def get_trigram_index_def sample_lib_def new_holder_def why_snapshot_def Let_def)

definition after_begin :: "(sample_graph, nat) serving" where
  "after_begin = \<lparr>sv_daemon = serving_daemon\<lparr>queries := (queries serving_daemon)\<lparr>misses := 1\<rparr>\<rparr>,
     sv_open = [(0, why_open (why_snapshot 1))], sv_begun = [why_request (why_snapshot 1)], sv_answers = []\<rparr>"

lemma after_begin_run: "(serving_step sample_lib cf)\<^sup>*\<^sup>* (serving_start serving_daemon) after_begin"
proof -
  have q: "qentries (queries serving_daemon) = []" "misses (queries serving_daemon) = 0"
    by (simp_all add: serving_daemon_def sample_daemon_def new_query_cache_def)
  have "serving_step sample_lib cf (serving_start serving_daemon) after_begin"
    using sv_await [of "why_request (why_snapshot 1)" QUERY_GRAPH "Some why_args" "serving_start serving_daemon" 0 sample_lib
        "why_open (why_snapshot 1)" "(queries serving_daemon)\<lparr>misses := 1\<rparr>" cf]
      why_begins [OF q(1), of "why_snapshot 1"] q(2)
    by (simp add: serving_start_def serving_daemon_current why_request_def after_begin_def)
  then show ?thesis by blast
qed

text \<open>A publication while the first call waits, a second call of the same question on the new snapshot, and then the
  answers in the other order.\<close>

definition after_publish :: "(sample_graph, nat) serving" where
  "after_publish = after_begin\<lparr>sv_daemon := fst (publish_batch sample_lib (sv_daemon after_begin))\<rparr>"

lemma after_publish_facts:
  "publish_batch sample_lib (sv_daemon after_begin) = (sv_daemon after_publish, Inr ())"
  "current (holder (sv_daemon after_publish)) = Some (why_snapshot 2)"
  "qentries (queries (sv_daemon after_publish)) = []"
  "sv_begun after_publish = [why_request (why_snapshot 1)]" "sv_open after_publish = [(0, why_open (why_snapshot 1))]"
  "sv_answers after_publish = []"
proof -
  let ?r = "publish_batch sample_lib (sv_daemon after_begin)"
  have "\<not> isl (snd ?r) \<and> current (holder (fst ?r)) = Some (why_snapshot 2) \<and> qentries (queries (fst ?r)) = []"
    by code_simp
  then show "?r = (sv_daemon after_publish, Inr ())" "current (holder (sv_daemon after_publish)) = Some (why_snapshot 2)"
    "qentries (queries (sv_daemon after_publish)) = []"
    by (auto simp: after_publish_def dest: not_isl intro!: prod_eqI)
qed (simp_all add: after_publish_def after_begin_def)

lemma why_second_begin:
  "\<exists>u. (serving_step sample_lib cf)\<^sup>*\<^sup>* after_publish u
     \<and> sv_begun u = [why_request (why_snapshot 1), why_request (why_snapshot 2)]
     \<and> sv_open u = [(0, why_open (why_snapshot 1)), (1, why_open (why_snapshot 2))] \<and> sv_answers u = []"
proof -
  let ?qc = "(queries (sv_daemon after_publish))\<lparr>misses := misses (queries (sv_daemon after_publish)) + 1\<rparr>"
  let ?u = "after_publish\<lparr>sv_daemon := (sv_daemon after_publish)\<lparr>queries := ?qc\<rparr>,
      sv_begun := sv_begun after_publish @ [why_request (why_snapshot 2)],
      sv_open := sv_open after_publish @ [(length (sv_begun after_publish), why_open (why_snapshot 2))]\<rparr>"
  have "serving_step sample_lib cf after_publish ?u"
    by (rule sv_await [of _ QUERY_GRAPH "Some why_args" _ 0])
      (simp_all add: why_request_def after_publish_facts(2) why_begins [OF after_publish_facts(3)])
  then show ?thesis by (intro exI [of _ ?u]) (auto simp: after_publish_facts)
qed

lemma why_direct: "direct_answer sample_lib QUERY_GRAPH (Some why_args) (Some s) = text_result (pstr ''whybfs'')"
proof -
  obtain t where t: "map_of TOOL_DEFINITIONS_BY_NAME QUERY_GRAPH = Some t" using query_tool_listed by blast
  have "l_validate sample_lib why_args x = None" for x by (simp add: sample_lib_def why_args_def)
  with t show ?thesis by (simp add: direct_answer_def why_answer)
qed

lemma why_run:
  "\<exists>t. (serving_step sample_lib cf)\<^sup>*\<^sup>* (serving_start serving_daemon) t
     \<and> sv_begun t = [why_request (why_snapshot 1), why_request (why_snapshot 2)] \<and> keys (sv_answers t) = [1, 0]"
proof -
  obtain u where u: "(serving_step sample_lib cf)\<^sup>*\<^sup>* after_publish u"
    "sv_begun u = [why_request (why_snapshot 1), why_request (why_snapshot 2)]"
    "sv_open u = [(0, why_open (why_snapshot 1)), (1, why_open (why_snapshot 2))]" "sv_answers u = []"
    using why_second_begin by blast
  have p: "serving_step sample_lib cf after_begin after_publish"
    unfolding after_publish_def
    using sv_write [OF wr_publish [OF after_publish_facts(1)], of cf] by (simp add: after_publish_def)
  define v where "v = u\<lparr>sv_daemon := call_over 0 0 (query_set (why_key 2) (pstr ''whybfs'') (queries (sv_daemon u))) (sv_daemon u),
      sv_open := [(0, why_open (why_snapshot 1))], sv_answers := [(1, text_result (pstr ''whybfs''))]\<rparr>"
  have 1: "serving_step sample_lib cf u v"
    using sv_finish [of u 1 "why_open (why_snapshot 2)" sample_lib _ _ _ cf 0, OF _ why_finishes] u
    by (simp add: v_def why_snapshot_def why_request_def)
  define w where "w = v\<lparr>sv_daemon := call_over 0 0 (query_set (why_key 1) (pstr ''whybfs'') (queries (sv_daemon v))) (sv_daemon v),
      sv_open := [], sv_answers := sv_answers v @ [(0, text_result (pstr ''whybfs''))]\<rparr>"
  have 2: "serving_step sample_lib cf v w"
    using sv_finish [of v 0 "why_open (why_snapshot 1)" sample_lib _ _ _ cf 0, OF _ why_finishes] u
    by (simp add: w_def v_def why_snapshot_def why_request_def)
  have "(serving_step sample_lib cf)\<^sup>*\<^sup>* (serving_start serving_daemon) w"
    using after_begin_run p u(1) 1 2 by (meson rtranclp.rtrancl_into_rtrancl rtranclp_trans)
  moreover have "sv_begun w = sv_begun u" "keys (sv_answers w) = [1, 0]" by (simp_all add: w_def v_def)
  ultimately show ?thesis using u(2) by (intro exI [of _ w]) simp
qed

theorem concurrent_answers_correct_witness:
  "\<exists>t. (serving_step sample_lib sample_config)\<^sup>*\<^sup>* (serving_start serving_daemon) t \<and> keys (sv_answers t) = [1, 0]
     \<and> (\<forall>(i, r) \<in> set (sv_answers t). r = text_result (pstr ''whybfs''))"
proof -
  obtain t where t: "(serving_step sample_lib sample_config)\<^sup>*\<^sup>* (serving_start serving_daemon) t"
    and b: "sv_begun t = [why_request (why_snapshot 1), why_request (why_snapshot 2)]" and k: "keys (sv_answers t) = [1, 0]"
    using why_run [of sample_config] by (elim exE conjE) (rule that)
  have d: "direct_answer sample_lib (rq_name (sv_begun t ! i)) (rq_params (sv_begun t ! i)) (rq_snapshot (sv_begun t ! i))
      = text_result (pstr ''whybfs'')" if "i < length (sv_begun t)" for i
    using that by (cases i) (simp_all add: b why_request_def why_direct)
  from concurrent_answers_correct [OF sample_lib_laws serving_daemon_init t]
  have "\<forall>(i, r) \<in> set (sv_answers t). r = text_result (pstr ''whybfs'')" by (auto simp only: d case_prod_beta)
  then show ?thesis by (intro exI conjI) (rule t, rule k)
qed

theorem calls_after_publish_are_fresh_witness:
  "version (why_snapshot 1) < version (why_snapshot 2)"
proof -
  obtain u where u: "(serving_step sample_lib sample_config)\<^sup>*\<^sup>* after_publish u"
    "sv_begun u = [why_request (why_snapshot 1), why_request (why_snapshot 2)]"
    using why_second_begin by blast
  have "version a < version b" if "rq_snapshot (sv_begun u ! 0) = Some a" "rq_snapshot (sv_begun u ! 1) = Some b" for a b
    by (rule calls_after_publish_are_fresh [OF sample_lib_laws serving_daemon_init after_begin_run after_publish_facts(1) _ _ _ _ that])
      (use u in \<open>simp_all add: after_publish_def after_begin_def\<close>)
  then show ?thesis using u(2) by (simp add: why_request_def)
qed

section \<open>What the endpoint says of the cache\<close>

text \<open>A request that gets as far as the cache.\<close>

definition looks_up :: "('g, 't) lib \<Rightarrow> ('g, 't) request \<Rightarrow> bool" where
  "looks_up L rq \<longleftrightarrow> rq_name rq = QUERY_GRAPH \<and>
     (case (map_of TOOL_DEFINITIONS_BY_NAME QUERY_GRAPH, rq_snapshot rq) of
        (Some t, Some s) \<Rightarrow>
          (let arguments = (case rq_params rq of None \<Rightarrow> [] | Some a \<Rightarrow> a)
           in l_validate L arguments (input_schema t) = None \<and> \<not> isl (query_key (version s) arguments))
      | _ \<Rightarrow> False)"

lemma begin_call_counts:
  assumes "begin_call L name params snapshot qc = (r, qc')"
  shows "hits qc' + misses qc' = hits qc + misses qc
    + of_bool (looks_up L \<lparr>rq_name = name, rq_params = params, rq_snapshot = snapshot, rq_start = t0\<rparr>)"
  using assms
  by (auto simp: begin_call_def looks_up_def Let_def query_get_def split: option.splits sum.splits if_splits)

lemma query_set_counts [simp]: "hits (query_set k v qc) = hits qc" "misses (query_set k v qc) = misses qc"
  by (simp_all add: query_set_def Let_def)

lemma finish_call_counts:
  "finish_call L c qc = (r, qc', logged) \<Longrightarrow> hits qc' = hits qc \<and> misses qc' = misses qc"
  by (auto simp: finish_call_def split: sum.splits option.splits)

lemma writer_step_queries: "writer_step L cf dm dm' \<Longrightarrow> queries dm' = queries dm"
  by (induction rule: writer_step.induct)
    (auto simp: extract_stage_def put_extract_state_def index_stage_def publish_batch_def record_stage_def Let_def
      persist_on_shutdown_def daemon_cadence_cycle_frame split: prod.splits sum.splits)

definition lookups_counted :: "('g, 't) lib \<Rightarrow> nat \<Rightarrow> ('g, 't) serving \<Rightarrow> bool" where
  "lookups_counted L n s \<longleftrightarrow>
     hits (queries (sv_daemon s)) + misses (queries (sv_daemon s)) = n + length (filter (looks_up L) (sv_begun s))"

interpretation counting: transition_system
  "\<lambda>s. hits (queries (sv_daemon s)) + misses (queries (sv_daemon s)) = n \<and> sv_begun s = []"
  "serving_step L cf" "lookups_counted L n"
  for L cf n
proof
  show "lookups_counted L n t" if "lookups_counted L n s" "serving_step L cf s t" for s t :: "('a, 'b) serving"
    using that(2)
  proof cases
    case (sv_write dm')
    with that(1) writer_step_queries [OF sv_write(2)] show ?thesis by (simp add: lookups_counted_def)
  next
    case (sv_answer_at_once rq name params t0 r logged qc t1)
    from begin_call_counts [OF sv_answer_at_once(3), of t0] that(1) sv_answer_at_once(1,2) show ?thesis
      by (simp add: lookups_counted_def)
  next
    case (sv_await rq name params t0 c qc)
    from begin_call_counts [OF sv_await(3), of t0] that(1) sv_await(1,2) show ?thesis
      by (simp add: lookups_counted_def)
  next
    case (sv_finish i c r qc logged t1)
    with that(1) finish_call_counts [OF sv_finish(3)] show ?thesis by (simp add: lookups_counted_def)
  qed (use that(1) in \<open>simp_all add: lookups_counted_def\<close>)
qed (simp add: lookups_counted_def)



end
