(* ===== verification/Signals.thy ===== *)
theory Signals
  imports Startup
begin

text \<open>
  Signals in \<open>run_forever\<close> (\<open>daemon.py\<close>). CPython runs the handler between two statements of the main thread, where it
  raises \<open>SystemExit(0)\<close>. The first signal normally arrives while \<open>transport.run\<close> serves and unwinds into the \<open>finally\<close>
  block. A signal that arrives in that block stops \<open>shutdown\<close> itself, because nothing in it catches \<open>SystemExit\<close>
  and the \<open>with\<close> blocks only release their locks. Here \<open>shutdown\<close> is the list of its statements, those of
  \<open>_compile_batch\<close>, \<open>persist_on_shutdown\<close>, the artifact writers and \<open>Path.write_text\<close> included, and a signal leaves a prefix
  of it. A signal inside one of the five compile stages, which are single statements here, is not modelled.
\<close>

section \<open>The statements of shutdown\<close>

text \<open>The daemon and the local variable \<open>pending\<close>.\<close>

record ('g, 't) shutting =
  sd_daemon :: "('g, 't) daemon"
  sd_pending :: "batch option"

type_synonym ('g, 't) statement = "('g, 't) shutting \<Rightarrow> ('g, 't) shutting \<times> unit res"

definition on_daemon :: "(('g, 't) daemon \<Rightarrow> ('g, 't) daemon \<times> unit res) \<Rightarrow> ('g, 't) statement" where
  "on_daemon f s = (case f (sd_daemon s) of (dm, r) \<Rightarrow> (s\<lparr>sd_daemon := dm\<rparr>, r))"

definition if_pending :: "(batch \<Rightarrow> ('g, 't) daemon \<Rightarrow> ('g, 't) daemon \<times> unit res) \<Rightarrow> ('g, 't) statement" where
  "if_pending f s = (case sd_pending s of None \<Rightarrow> (s, Inr ()) | Some b \<Rightarrow> on_daemon (f b) s)"

definition write_stage :: "writer \<Rightarrow> ('g, 't) daemon \<Rightarrow> ('g, 't) daemon \<times> unit res" where
  "write_stage w dm = (case w (disk_state dm) of (d, r) \<Rightarrow> (dm\<lparr>disk_state := d\<rparr>, r))"

definition write_current :: "(('g, 't) graph_snapshot \<Rightarrow> writer) \<Rightarrow> ('g, 't) daemon \<Rightarrow> ('g, 't) daemon \<times> unit res" where
  "write_current w dm = (case current (holder dm) of None \<Rightarrow> (dm, Inr ()) | Some s \<Rightarrow> write_stage (w s) dm)"

definition stopping_statements :: "('g, 't) statement list" where
  "stopping_statements =
     [on_daemon (\<lambda>dm. (dm\<lparr>lifecycle := STOPPING\<rparr>, Inr ())),
      on_daemon (\<lambda>dm. (dm\<lparr>watch := reject_new_events (watch dm)\<rparr>, Inr ())),
      (\<lambda>s. case drain_pending_batch (watch (sd_daemon s), registry (sd_daemon s)) of
         (p, w, m) \<Rightarrow> (s\<lparr>sd_daemon := (sd_daemon s)\<lparr>watch := w, registry := m\<rparr>, sd_pending := p\<rparr>, Inr ()))]"

definition compiling_statements :: "('g, 't) lib \<Rightarrow> config \<Rightarrow> env \<Rightarrow> ('g, 't) statement list" where
  "compiling_statements L cf E =
     map if_pending [extract_stage cf E, index_stage cf E, \<lambda>b. publish_batch L, record_stage E, \<lambda>b. cadence_stage L cf E]"

text \<open>\<open>Path.write_text\<close> opens the file, which truncates it, and then writes; \<open>to_json\<close> replaces \<open>graph.json\<close> in one go.\<close>

definition open_for_writing :: "pypath \<Rightarrow> writer" where
  "open_for_writing p = as_writer (write_file p (TextFile []))"

definition write_text :: "pypath \<Rightarrow> pystr \<Rightarrow> writer" where
  "write_text p text d = (case utf8_encode text of Inl e \<Rightarrow> (d, Inl e) | Inr b \<Rightarrow> as_writer (write_file p (TextFile text)) d)"

definition replace_graph :: "('g, 't) lib \<Rightarrow> pypath \<Rightarrow> ('g, 't) graph_snapshot \<Rightarrow> writer" where
  "replace_graph L p s d = (case graph_json_of L s of Inl e \<Rightarrow> (d, Inl e) | Inr j \<Rightarrow> as_writer (write_file p (JsonFile j)) d)"

definition restrict_written :: "pypath \<Rightarrow> writer" where
  "restrict_written p = as_writer (restrict_to_owner p)"

definition persisting_statements :: "('g, 't) lib \<Rightarrow> config \<Rightarrow> ('g, 't) statement list" where
  "persisting_statements L cf =
     map on_daemon
       [\<lambda>dm. (dm\<lparr>watch := stop_watcher (watch dm)\<rparr>, Inr ()),
        write_current (replace_graph L (graph_json (cf_paths cf))),
        write_current (\<lambda>s. restrict_written (graph_json (cf_paths cf))),
        write_current (\<lambda>s. open_for_writing (knowledge_md (cf_paths cf))),
        write_current (\<lambda>s. write_text (knowledge_md (cf_paths cf)) (generate_knowledge_md L s)),
        write_current (\<lambda>s. restrict_written (knowledge_md (cf_paths cf))),
        write_stage (open_for_writing (graph_cache_json (cf_paths cf))),
        \<lambda>dm. write_stage (as_writer (write_file (graph_cache_json (cf_paths cf)) (JsonFile (cache_json (cache dm))))) dm,
        write_stage (restrict_written (graph_cache_json (cf_paths cf))),
        \<lambda>dm. (dm\<lparr>index := close_conn (index dm)\<rparr>, Inr ()),
        \<lambda>dm. (dm\<lparr>lifecycle := STOPPED\<rparr>, Inr ())]"

definition shutdown_statements :: "('g, 't) lib \<Rightarrow> config \<Rightarrow> env \<Rightarrow> ('g, 't) statement list" where
  "shutdown_statements L cf E = stopping_statements @ compiling_statements L cf E @ persisting_statements L cf"

definition shutting_start :: "('g, 't) daemon \<Rightarrow> ('g, 't) shutting" where
  "shutting_start dm = \<lparr>sd_daemon = dm, sd_pending = None\<rparr>"

text \<open>What the first \<open>n\<close> statements leave.\<close>

definition shutdown_until ::
  "('g, 't) lib \<Rightarrow> config \<Rightarrow> env \<Rightarrow> nat \<Rightarrow> ('g, 't) daemon \<Rightarrow> ('g, 't) daemon \<times> unit res" where
  "shutdown_until L cf E n dm =
     (case run_all (take n (shutdown_statements L cf E)) (shutting_start dm) of (s, r) \<Rightarrow> (sd_daemon s, r))"

text \<open>
  \<open>run_forever\<close> with the moment of a signal: none, between the registration of the handlers and the \<open>try\<close>, while
  serving, or in the \<open>finally\<close> block after \<open>n\<close> statements of \<open>shutdown\<close> (serving having ended with \<open>served\<close>).
\<close>

datatype signal_moment = NoSignal | BeforeTry | WhileServing | InCleanup nat

definition run_forever_signalled ::
  "('g, 't) lib \<Rightarrow> config \<Rightarrow> env \<Rightarrow> signal_moment \<Rightarrow> exit_status \<Rightarrow> ('g, 't) daemon \<Rightarrow> ('g, 't) daemon \<times> exit_status" where
  "run_forever_signalled L cf E m served dm =
     (case m of
        NoSignal \<Rightarrow> run_forever L cf E served dm
      | BeforeTry \<Rightarrow> (dm, ExitSignal)
      | WhileServing \<Rightarrow> run_forever L cf E ExitSignal dm
      | InCleanup n \<Rightarrow>
          if lifecycle dm \<noteq> RUNNING then (dm, ExitSignal)
          else (case shutdown_until L cf E n dm of (dm', Inl e) \<Rightarrow> (dm', ExitRaised e) | (dm', Inr u) \<Rightarrow> (dm', ExitSignal)))"

section \<open>The statements are the shutdown\<close>

lemma run_all_append:
  "run_all (fs @ gs) s = (case run_all fs s of (s', Inl e) \<Rightarrow> (s', Inl e) | (s', Inr u) \<Rightarrow> run_all gs s')"
  by (induction fs arbitrary: s) (auto split: prod.split sum.split)

lemma run_all_two: "run_all [f, g] s = (case f s of (s', Inl e) \<Rightarrow> (s', Inl e) | (s', Inr u) \<Rightarrow> g s')"
  by (auto split: prod.split sum.split)

lemma run_all_on_daemon:
  "run_all (map on_daemon fs) s = (case run_all fs (sd_daemon s) of (dm, r) \<Rightarrow> (s\<lparr>sd_daemon := dm\<rparr>, r))"
  by (induction fs arbitrary: s) (auto simp: on_daemon_def split: prod.split sum.split)

lemma run_all_if_pending:
  "run_all (map if_pending fs) s =
     (case sd_pending s of None \<Rightarrow> (s, Inr ())
      | Some b \<Rightarrow> case run_all (map (\<lambda>f. f b) fs) (sd_daemon s) of (dm, r) \<Rightarrow> (s\<lparr>sd_daemon := dm\<rparr>, r))"
proof (induction fs arbitrary: s)
  case (Cons f fs)
  then show ?case
    by (cases "sd_pending s") (auto simp: if_pending_def on_daemon_def split: prod.split sum.split)
qed (simp split: option.split)

lemma run_stopping:
  "run_all stopping_statements (shutting_start dm) =
     (case drain_pending_batch (reject_new_events (watch dm), registry dm) of
        (p, w, m) \<Rightarrow> (\<lparr>sd_daemon = dm\<lparr>lifecycle := STOPPING, watch := w, registry := m\<rparr>, sd_pending = p\<rparr>, Inr ()))"
  by (simp add: stopping_statements_def shutting_start_def on_daemon_def split: prod.split)

text \<open>The steps of a write are the write: the file was truncated in between, and nothing else.\<close>

lemma restrict_after_write: "write_file p c d = Inr d' \<Longrightarrow> \<exists>d''. restrict_to_owner p d' = Inr d''"
  by (auto simp: write_file_def restrict_to_owner_def chmod_def d_exists_def Let_def keys_update split: if_splits)

lemma write_file_again: "write_file p c d = Inr d1 \<Longrightarrow> write_file p c' d1 = write_file p c' d"
  by (auto simp: write_file_def keys_update split: if_splits)

lemma write_file_parent: "write_file p c d = Inl e \<Longrightarrow> write_file p c' d = Inl e"
  by (auto simp: write_file_def split: if_splits)

lemma write_file_writable: "write_file p c d = Inr d1 \<Longrightarrow> \<exists>d2. write_restricted p c' d = Inr d2"
  using write_file_Inr write_restricted_Inr by blast

lemma write_in_steps:
  "run_all [as_writer (write_file p c), restrict_written p] d = as_writer (write_restricted p c) d"
  "run_all [open_for_writing p, as_writer (write_file p c), restrict_written p] d = as_writer (write_restricted p c) d"
proof -
  show w: "run_all [as_writer (write_file p c), restrict_written p] d = as_writer (write_restricted p c) d" for d
    by (cases "write_file p c d")
      (auto simp: as_writer_def restrict_written_def write_restricted_def dest: restrict_after_write)
  show "run_all [open_for_writing p, as_writer (write_file p c), restrict_written p] d = as_writer (write_restricted p c) d"
  proof (cases "write_file p (TextFile []) d")
    case (Inl e)
    with write_file_parent [OF Inl, of c] show ?thesis
      by (simp add: open_for_writing_def as_writer_def write_restricted_def)
  next
    case (Inr d1)
    with write_file_writable [OF Inr, of c] w [of d1] show ?thesis
      by (auto simp: open_for_writing_def as_writer_def write_restricted_def write_file_again [OF Inr])
  qed
qed

lemma graph_in_steps:
  "run_all [replace_graph L p s, restrict_written p] d = write_graph_json L s p d"
  using write_in_steps(1) [of p _ d]
  by (auto simp: replace_graph_def write_graph_json_def graph_json_of_def Let_def split: sum.split)

lemma knowledge_in_steps:
  "run_all [open_for_writing p, write_text p (generate_knowledge_md L s), restrict_written p] d = write_knowledge_md L s p d"
proof (cases "utf8_encode (generate_knowledge_md L s)")
  case (Inl e)
  then show ?thesis
    by (auto simp: write_text_def write_knowledge_md_def open_for_writing_def as_writer_def split: sum.split)
next
  case (Inr b)
  then have "write_text p (generate_knowledge_md L s) = as_writer (write_file p (TextFile (generate_knowledge_md L s)))"
    by (simp add: write_text_def fun_eq_iff)
  with Inr show ?thesis using write_in_steps(2) [of p _ d] by (simp add: write_knowledge_md_def)
qed

lemma run_all_write_stage: "run_all (map write_stage ws) dm = write_stage (run_all ws) dm"
  by (induction ws arbitrary: dm) (auto simp: write_stage_def split: prod.split sum.split)

lemma run_all_write_current:
  "run_all (map write_current ws) dm =
     (case current (holder dm) of None \<Rightarrow> (dm, Inr ()) | Some s \<Rightarrow> write_stage (run_all (map (\<lambda>w. w s) ws)) dm)"
  by (induction ws arbitrary: dm) (auto simp: write_current_def write_stage_def split: prod.split sum.split option.split)

lemma cache_in_steps:
  "run_all [write_stage (open_for_writing p), \<lambda>dm. write_stage (as_writer (write_file p (JsonFile (cache_json (cache dm))))) dm,
      write_stage (restrict_written p)] dm = write_stage (as_writer (cache_save (cache dm) p)) dm"
proof -
  let ?w = "as_writer (write_file p (JsonFile (cache_json (cache dm))))"
  have "run_all [write_stage (open_for_writing p), \<lambda>dm. write_stage (as_writer (write_file p (JsonFile (cache_json (cache dm))))) dm,
      write_stage (restrict_written p)] dm = run_all (map write_stage [open_for_writing p, ?w, restrict_written p]) dm"
    by (simp add: write_stage_def split: prod.split sum.split)
  also have "\<dots> = write_stage (as_writer (write_restricted p (JsonFile (cache_json (cache dm))))) dm"
    unfolding run_all_write_stage write_stage_def write_in_steps(2) by (rule refl)
  finally show ?thesis by (simp add: write_stage_def cache_save_def as_writer_def)
qed

lemma run_persisting:
  "run_all ([write_current (replace_graph L (graph_json (cf_paths cf))),
        write_current (\<lambda>s. restrict_written (graph_json (cf_paths cf))),
        write_current (\<lambda>s. open_for_writing (knowledge_md (cf_paths cf))),
        write_current (\<lambda>s. write_text (knowledge_md (cf_paths cf)) (generate_knowledge_md L s)),
        write_current (\<lambda>s. restrict_written (knowledge_md (cf_paths cf)))] @
       [write_stage (open_for_writing (graph_cache_json (cf_paths cf))),
        \<lambda>dm. write_stage (as_writer (write_file (graph_cache_json (cf_paths cf)) (JsonFile (cache_json (cache dm))))) dm,
        write_stage (restrict_written (graph_cache_json (cf_paths cf)))] @
       [\<lambda>dm. (dm\<lparr>index := close_conn (index dm)\<rparr>, Inr ())]) dm = persist_on_shutdown L cf dm"
proof -
  let ?G = "graph_json (cf_paths cf)" and ?K = "knowledge_md (cf_paths cf)" and ?C = "graph_cache_json (cf_paths cf)"
  let ?five = "[write_current (replace_graph L ?G), write_current (\<lambda>s. restrict_written ?G), write_current (\<lambda>s. open_for_writing ?K),
        write_current (\<lambda>s. write_text ?K (generate_knowledge_md L s)), write_current (\<lambda>s. restrict_written ?K)]"
  let ?three = "[write_stage (open_for_writing ?C), \<lambda>dm. write_stage (as_writer (write_file ?C (JsonFile (cache_json (cache dm))))) dm,
        write_stage (restrict_written ?C)]"
  have two: "run_all (map (\<lambda>w. w s) [replace_graph L ?G, \<lambda>s. restrict_written ?G, \<lambda>s. open_for_writing ?K,
        \<lambda>s. write_text ?K (generate_knowledge_md L s), \<lambda>s. restrict_written ?K]) d
      = run_all [write_graph_json L s ?G, write_knowledge_md L s ?K] d" for s d
    using run_all_append [of "[replace_graph L ?G s, restrict_written ?G]"
        "[open_for_writing ?K, write_text ?K (generate_knowledge_md L s), restrict_written ?K]" d]
    unfolding graph_in_steps knowledge_in_steps list.map append.simps
      run_all_two [of "write_graph_json L s ?G" "write_knowledge_md L s ?K"] .
  have five: "run_all ?five dm =
      (case current (holder dm) of None \<Rightarrow> (dm, Inr ())
       | Some s \<Rightarrow> write_stage (run_all [write_graph_json L s ?G, write_knowledge_md L s ?K]) dm)"
    using run_all_write_current [of "[replace_graph L ?G, \<lambda>s. restrict_written ?G, \<lambda>s. open_for_writing ?K,
        \<lambda>s. write_text ?K (generate_knowledge_md L s), \<lambda>s. restrict_written ?K]" dm]
    unfolding write_stage_def two unfolding list.map .
  have last: "run_all (?three @ [\<lambda>dm. (dm\<lparr>index := close_conn (index dm)\<rparr>, Inr ())]) dm =
      (case as_writer (cache_save (cache dm) ?C) (disk_state dm) of
         (d, Inl e) \<Rightarrow> (dm\<lparr>disk_state := d\<rparr>, Inl e)
       | (d, Inr u) \<Rightarrow> (dm\<lparr>disk_state := d, index := close_conn (index dm)\<rparr>, Inr ()))" for dm :: "('a, 'b) daemon"
    unfolding run_all_append cache_in_steps by (simp add: write_stage_def split: prod.split sum.split)
  show ?thesis
  proof (cases "current (holder dm)")
    case None
    then show ?thesis
      unfolding run_all_append [of ?five] five last
      by (simp add: persist_on_shutdown_def artifact_writers_def artifacts_of_def split: prod.split sum.split)
  next
    case (Some s)
    obtain d r where gk: "run_all [write_graph_json L s ?G, write_knowledge_md L s ?K] (disk_state dm) = (d, r)"
      by (cases "run_all [write_graph_json L s ?G, write_knowledge_md L s ?K] (disk_state dm)")
    have "persist_on_shutdown L cf dm =
        (case (case r of Inl e \<Rightarrow> (d, Inl e) | Inr u \<Rightarrow> run_all [as_writer (cache_save (cache dm) ?C)] d) of
           (d, Inl e) \<Rightarrow> (dm\<lparr>disk_state := d\<rparr>, Inl e)
         | (d, Inr u) \<Rightarrow> (dm\<lparr>disk_state := d, index := close_conn (index dm)\<rparr>, Inr ()))"
      unfolding persist_on_shutdown_def artifact_writers_def artifacts_of_def Some option.case artifact_paths.select_convs
        run_all_append gk prod.case ..
    then show ?thesis
      unfolding run_all_append [of ?five] five last unfolding Some option.case write_stage_def gk
      by (cases r) (simp_all split: prod.split sum.split)
  qed
qed

lemma shutdown_runs_statements:
  assumes "lifecycle dm = RUNNING"
  shows "shutdown L cf E dm = shutdown_until L cf E 19 dm"
proof -
  have l: "take 19 (shutdown_statements L cf E) = stopping_statements @ compiling_statements L cf E @ persisting_statements L cf"
    by (simp add: shutdown_statements_def stopping_statements_def compiling_statements_def persisting_statements_def)
  obtain p w m where d: "drain_pending_batch (reject_new_events (watch dm), registry dm) = (p, w, m)"
    by (metis surjective_pairing)
  let ?dm = "dm\<lparr>lifecycle := STOPPING, watch := w, registry := m\<rparr>"
  have c: "drain_and_compile L cf E (dm\<lparr>lifecycle := STOPPING\<rparr>) =
      (case p of None \<Rightarrow> (?dm, Inr ()) | Some b \<Rightarrow> compile_batch L cf E b ?dm)"
    by (simp add: drain_and_compile_def d coordinator_run_batch_def consume_def split: option.split)
  have k: "run_all (compiling_statements L cf E) \<lparr>sd_daemon = ?dm, sd_pending = p\<rparr> =
      (case drain_and_compile L cf E (dm\<lparr>lifecycle := STOPPING\<rparr>) of (dm1, r) \<Rightarrow> (\<lparr>sd_daemon = dm1, sd_pending = p\<rparr>, r))"
    unfolding c compiling_statements_def run_all_if_pending
    by (auto simp: compile_batch_def split: option.split prod.split)
  have e: "run_all (persisting_statements L cf) \<lparr>sd_daemon = dm1, sd_pending = p\<rparr> =
      (case persist_on_shutdown L cf (dm1\<lparr>watch := stop_watcher (watch dm1)\<rparr>) of
         (dm2, Inl x) \<Rightarrow> (\<lparr>sd_daemon = dm2, sd_pending = p\<rparr>, Inl x)
       | (dm2, Inr u) \<Rightarrow> (\<lparr>sd_daemon = dm2\<lparr>lifecycle := STOPPED\<rparr>, sd_pending = p\<rparr>, Inr ()))" for dm1
    unfolding persisting_statements_def run_all_on_daemon run_persisting [symmetric]
    by (auto split: prod.split sum.split)
  show ?thesis
    unfolding shutdown_until_def shutdown_running [OF assms] l
    by (simp add: run_all_append run_stopping d k e split: prod.split sum.split)
qed

section \<open>What a prefix leaves\<close>

lemma prefix_keeps:
  assumes "n \<le> k" "\<And>f s. f \<in> set (take k fs) \<Longrightarrow> Q s \<Longrightarrow> Q (fst (f s))" "Q s"
  shows "Q (fst (run_all (take n fs) s))"
proof (rule run_all_inv [of _ Q])
  fix f s
  assume "f \<in> set (take n fs)" "Q s"
  moreover have "set (take n fs) \<subseteq> set (take k fs)" by (rule set_take_subset_set_take [OF assms(1)])
  ultimately show "Q (fst (f s))" using assms(2) by blast
qed (rule assms(3))

lemma fst_on_daemon: "fst (on_daemon f s) = s\<lparr>sd_daemon := fst (f (sd_daemon s))\<rparr>"
  by (simp add: on_daemon_def split: prod.split)

lemma if_pending_frame:
  "(\<And>b dm. g (fst (f b dm)) = g dm) \<Longrightarrow> g (sd_daemon (fst (if_pending f s))) = g (sd_daemon s)"
  by (simp add: if_pending_def fst_on_daemon split: option.split)

lemmas if_pending_frames =
  if_pending_frame [where g = lifecycle] if_pending_frame [where g = disk_state] if_pending_frame [where g = index]
  if_pending_frame [where g = "\<lambda>dm. conn_open (index dm)"] if_pending_frame [where g = "\<lambda>dm. pending (watch dm)"]

lemma write_current_fields [simp]:
  "lifecycle (fst (write_current w dm)) = lifecycle dm" "index (fst (write_current w dm)) = index dm"
  "watch (fst (write_current w dm)) = watch dm" "lifecycle (fst (write_stage v dm)) = lifecycle dm"
  "index (fst (write_stage v dm)) = index dm" "watch (fst (write_stage v dm)) = watch dm"
  by (simp_all add: write_current_def write_stage_def split: option.split prod.split)

lemma stage_fields [simp]:
  "lifecycle (fst (extract_stage cf E b dm)) = lifecycle dm" "index (fst (extract_stage cf E b dm)) = index dm"
  "watch (fst (extract_stage cf E b dm)) = watch dm" "disk_state (fst (extract_stage cf E b dm)) = disk_state dm"
  "holder (fst (extract_stage cf E b dm)) = holder dm"
  "lifecycle (fst (index_stage cf E b dm)) = lifecycle dm" "watch (fst (index_stage cf E b dm)) = watch dm"
  "disk_state (fst (index_stage cf E b dm)) = disk_state dm" "holder (fst (index_stage cf E b dm)) = holder dm"
  "conn_open (index (fst (index_stage cf E b dm))) = conn_open (index dm)"
  "lifecycle (fst (publish_batch L dm)) = lifecycle dm" "index (fst (publish_batch L dm)) = index dm"
  "watch (fst (publish_batch L dm)) = watch dm" "disk_state (fst (publish_batch L dm)) = disk_state dm"
  "lifecycle (fst (record_stage E b dm)) = lifecycle dm" "index (fst (record_stage E b dm)) = index dm"
  "watch (fst (record_stage E b dm)) = watch dm" "disk_state (fst (record_stage E b dm)) = disk_state dm"
  by (auto simp: extract_stage_def put_extract_state_def index_stage_def sync_batch_def with_conn_def publish_batch_def
      record_stage_def Let_def split: prod.split sum.split)

lemma cadence_fields [simp]:
  "lifecycle (fst (cadence_stage L cf E dm)) = lifecycle dm" "index (fst (cadence_stage L cf E dm)) = index dm"
  "pending (watch (fst (cadence_stage L cf E dm))) = pending (watch dm)"
  by (auto simp: cadence_stage_def daemon_cadence_cycle_frame cancel_idle_def frame_simps split: prod.split sum.split)

lemma drain_statement_fields:
  assumes "drain_pending_batch (w, m) = (p, w', m')"
  shows "pending w' = []" "p = (if pending w = [] then None else Some \<lparr>changes = pending w\<rparr>)"
  using assms by (auto simp: drain_pending_batch_def take_pending_def frame_simps Let_def split: if_splits)

lemmas shutdown_lists = shutdown_statements_def stopping_statements_def compiling_statements_def persisting_statements_def

lemma prefix_lifecycle:
  assumes "0 < n" "n < 19"
  shows "lifecycle (sd_daemon (fst (run_all (take n (shutdown_statements L cf E)) s))) = STOPPING"
proof -
  obtain m where n: "n = Suc m" using assms(1) by (cases n) auto
  let ?rest = "tl (shutdown_statements L cf E)"
  have s: "take n (shutdown_statements L cf E) = on_daemon (\<lambda>dm. (dm\<lparr>lifecycle := STOPPING\<rparr>, Inr ())) # take m ?rest"
    by (simp add: n shutdown_lists)
  have "lifecycle (sd_daemon (fst (run_all (take m ?rest) s'))) = STOPPING"
    if "lifecycle (sd_daemon s') = STOPPING" for s'
  proof (rule prefix_keeps [where Q = "\<lambda>s. lifecycle (sd_daemon s) = STOPPING" and k = 17])
    show "m \<le> 17" using assms(2) n by simp
    fix f and s :: "('a, 'b) shutting"
    assume "f \<in> set (take 17 ?rest)" "lifecycle (sd_daemon s) = STOPPING"
    then show "lifecycle (sd_daemon (fst (f s))) = STOPPING"
      by (auto simp: shutdown_lists fst_on_daemon if_pending_frames split: prod.splits)
  qed (rule that)
  then show ?thesis unfolding s by (simp add: on_daemon_def)
qed

lemma prefix_disk:
  assumes "n \<le> 7"
  shows "disk_state (sd_daemon (fst (run_all (take n (shutdown_statements L cf E)) (shutting_start dm)))) = disk_state dm"
proof (rule prefix_keeps [where Q = "\<lambda>s. disk_state (sd_daemon s) = disk_state dm", OF assms])
  fix f and s :: "('a, 'b) shutting"
  assume "f \<in> set (take 7 (shutdown_statements L cf E))" "disk_state (sd_daemon s) = disk_state dm"
  then show "disk_state (sd_daemon (fst (f s))) = disk_state dm"
    by (auto simp: shutdown_lists fst_on_daemon if_pending_frames split: prod.splits)
qed (simp add: shutting_start_def)

lemma prefix_open:
  assumes "n \<le> 17"
  shows "conn_open (index (sd_daemon (fst (run_all (take n (shutdown_statements L cf E)) (shutting_start dm)))))
    = conn_open (index dm)"
proof (rule prefix_keeps [where Q = "\<lambda>s. conn_open (index (sd_daemon s)) = conn_open (index dm)", OF assms])
  fix f and s :: "('a, 'b) shutting"
  assume "f \<in> set (take 17 (shutdown_statements L cf E))" "conn_open (index (sd_daemon s)) = conn_open (index dm)"
  then show "conn_open (index (sd_daemon (fst (f s)))) = conn_open (index dm)"
    by (auto simp: shutdown_lists fst_on_daemon if_pending_frames split: prod.splits)
qed (simp add: shutting_start_def)

lemma prefix_pending:
  assumes "3 \<le> n"
  shows "pending (watch (sd_daemon (fst (run_all (take n (shutdown_statements L cf E)) (shutting_start dm))))) = []"
proof -
  let ?rest = "drop 3 (shutdown_statements L cf E)"
  have t: "take n (shutdown_statements L cf E) = stopping_statements @ take (n - 3) ?rest"
    using assms by (simp add: shutdown_lists take_Cons' numeral_3_eq_3)
  obtain p w m where d: "drain_pending_batch (reject_new_events (watch dm), registry dm) = (p, w, m)"
    by (metis surjective_pairing)
  let ?s = "\<lparr>sd_daemon = dm\<lparr>lifecycle := STOPPING, watch := w, registry := m\<rparr>, sd_pending = p\<rparr>"
  have "pending (watch (sd_daemon (fst (run_all (take (n - 3) ?rest) ?s)))) = []"
  proof (rule prefix_keeps [where Q = "\<lambda>s. pending (watch (sd_daemon s)) = []" and k = "n - 3"])
    fix f and s :: "('a, 'b) shutting"
    assume "f \<in> set (take (n - 3) ?rest)" "pending (watch (sd_daemon s)) = []"
    then show "pending (watch (sd_daemon (fst (f s)))) = []"
      by (auto simp: shutdown_lists fst_on_daemon stop_watcher_def frame_simps if_pending_frames dest!: in_set_takeD)
  qed (simp_all add: drain_statement_fields(1) [OF d])
  then show ?thesis unfolding t by (simp add: run_all_append run_stopping d)
qed

text \<open>The moment between the truncation of \<open>graph_cache.json\<close> and its writing.\<close>

lemma open_for_writing_torn:
  "open_for_writing p d = (d', Inr u) \<Longrightarrow> map_of (d_files d') p = Some (TextFile [])"
  by (auto simp: open_for_writing_def as_writer_def write_file_def dict_simps split: sum.splits if_splits)

lemma prefix_torn:
  assumes "shutdown_until L cf E 15 dm = (dm', Inr u)"
  shows "map_of (d_files (disk_state dm')) (graph_cache_json (cf_paths cf)) = Some (TextFile [])"
proof -
  let ?open = "on_daemon (write_stage (open_for_writing (graph_cache_json (cf_paths cf))))"
  have t: "take 15 (shutdown_statements L cf E) = take 14 (shutdown_statements L cf E) @ [?open]"
    by (simp add: shutdown_lists)
  from assms obtain s s' u' where s: "?open s = (s', Inr u')" "sd_daemon s' = dm'"
    unfolding shutdown_until_def t run_all_append by (auto split: prod.splits sum.splits)
  then show ?thesis
    by (auto simp: on_daemon_def write_stage_def dest!: open_for_writing_torn split: prod.splits sum.splits)
qed

section \<open>Properties\<close>

text \<open>The detailed shutdown is the shutdown: run to the end, the nineteen statements of \<open>shutdown\<close>,
  \<open>_compile_batch\<close> and \<open>persist_on_shutdown\<close> do exactly what the calls do; and a signal before the \<open>try\<close> of
  \<open>run_forever\<close> ends the process with nothing cleaned up, one while serving leads to the normal cleanup.\<close>

theorem shutdown_as_statements:
  assumes "lifecycle dm = RUNNING"
  shows "shutdown L cf E dm = shutdown_until L cf E 19 dm \<and> length (shutdown_statements L cf E) = 19
    \<and> run_forever_signalled L cf E WhileServing served dm = run_forever L cf E ExitSignal dm
    \<and> run_forever_signalled L cf E BeforeTry served dm = (dm, ExitSignal)"
  using shutdown_runs_statements [OF assms, of L cf E] by (simp add: run_forever_signalled_def shutdown_lists)

theorem shutdown_as_statements_witness:
  "shutdown sample_lib sample_config sample_env (sample_daemon []) = shutdown_until sample_lib sample_config sample_env 19 (sample_daemon [])"
  by (rule shutdown_as_statements [THEN conjunct1]) (simp add: sample_daemon_def)



end
