(* ===== verification/Restart.thy ===== *)
theory Restart
  imports Signals
begin

text \<open>
  From one process to the next. What a daemon leaves behind is its disk; the next process is \<open>Daemon.__init__\<close>
  followed by \<open>cold_start\<close>, as \<open>main\<close> runs them (\<open>daemon.py\<close>, lines 335 and 336), on that disk and on the vault as it is
  then. After a shutdown that ran to its end the new process resumes from the saved cache; after one that a
  signal cut short inside \<open>ExtractionCache.save\<close> no process starts any more, until someone removes the file.
\<close>

section \<open>Starting on a disk\<close>

text \<open>\<open>stored\<close> is what \<open>vault_index.db\<close> holds, \<open>now\<close> the clock, \<open>W\<close> the vault at that time.\<close>

definition next_start ::
  "('g, 't) lib \<Rightarrow> config \<Rightarrow> rows option \<Rightarrow> real \<Rightarrow> world \<Rightarrow> disk \<Rightarrow> disk \<times> ('g, 't) daemon res" where
  "next_start L cf stored now W d =
     (case init_daemon cf stored now d of
        (d1, Inl e) \<Rightarrow> (d1, Inl e)
      | (d1, Inr dm) \<Rightarrow>
          (case daemon_cold_start L cf W dm of
             (dm1, Inl e) \<Rightarrow> (disk_state dm1, Inl e)
           | (dm1, Inr u) \<Rightarrow> (disk_state dm1, Inr dm1)))"

text \<open>A supervisor that starts the daemon again whenever it failed to start: the first daemon that comes up, if any.\<close>

fun restarts ::
  "('g, 't) lib \<Rightarrow> config \<Rightarrow> (rows option \<times> real \<times> world) list \<Rightarrow> disk \<Rightarrow> ('g, 't) daemon option" where
  "restarts L cf [] d = None"
| "restarts L cf ((stored, now, W) # tries) d =
     (case next_start L cf stored now W d of
        (d', Inl e) \<Rightarrow> restarts L cf tries d'
      | (d', Inr dm) \<Rightarrow> Some dm)"

text \<open>Start-up touches no file but the index.\<close>

lemma init_files:
  assumes "init_daemon cf stored now d = (d', r)" "q \<noteq> vault_index_db (cf_paths cf)"
  shows "map_of (d_files d') q = map_of (d_files d) q"
    and "q \<notin> set (path_ancestors (output_dir (cf_paths cf))) \<Longrightarrow> q \<in> set (d_dirs d') \<longleftrightarrow> q \<in> set (d_dirs d)"
proof -
  note o = mkdir_restricted_outcome and c = connect_outcome [OF _ artifact_parents(3), unfolded artifact_parents]
  show "map_of (d_files d') q = map_of (d_files d) q"
    using assms(1) by (cases rule: init_daemon_cases) (simp_all add: o(4) c(2) [OF _ assms(2)])
  show "q \<in> set (d_dirs d') \<longleftrightarrow> q \<in> set (d_dirs d)" if "q \<notin> set (path_ancestors (output_dir (cf_paths cf)))"
    using assms(1)
  proof (cases rule: init_daemon_cases)
    case (mkdir e)
    with o(2) show ?thesis by blast
  next
    case (connects d2 rc)
    with o(3) [OF connects(1)] c(3,4) [OF connects(2)] that show ?thesis by blast
  qed
qed

lemma cache_is_not_index: "graph_cache_json ps \<noteq> vault_index_db ps"
proof
  assume e: "graph_cache_json ps = vault_index_db ps"
  have s: "path_of_str (pstr ''graph_cache.json'') = PyPath [] [pstr ''graph_cache.json'']"
    "path_of_str (pstr ''vault_index.db'') = PyPath [] [pstr ''vault_index.db'']" by code_simp+
  from e show False by (simp add: graph_cache_json_def vault_index_db_def path_child_def s)
qed

lemmas init_cache_file = init_files(1) [OF _ cache_is_not_index] init_files(2) [OF _ cache_is_not_index artifact_parents(6)]

lemma cold_start_disk: "disk_state (fst (daemon_cold_start L cf W dm)) = disk_state dm"
  by (auto simp: daemon_cold_start_def Let_def put_extract_state_def split: sum.split prod.split)

text \<open>A cache file that is no JSON stops the start, and is there for the next one.\<close>

lemma unreadable_cache_stops_start:
  assumes "map_of (d_files d) (graph_cache_json (cf_paths cf)) = Some (TextFile t)"
    and "next_start (L :: ('g, 't) lib) cf stored now W d = (d', r)"
  shows "isl r \<and> map_of (d_files d') (graph_cache_json (cf_paths cf)) = Some (TextFile t)"
proof (cases "init_daemon cf stored now d :: disk \<times> ('g, 't) daemon res")
  case (Pair d1 r1)
  have f: "map_of (d_files d1) (graph_cache_json (cf_paths cf)) = Some (TextFile t)"
    using init_cache_file(1) [OF Pair] assms(1) by simp
  show ?thesis
  proof (cases r1)
    case (Inl e)
    with Pair f assms(2) show ?thesis by (auto simp: next_start_def)
  next
    case (Inr dm)
    have d: "disk_state dm = d1" using arg_cong [OF init_daemon_result [OF Pair [unfolded Inr]], of disk_state] by simp
    then have "d_exists (disk_state dm) (graph_cache_json (cf_paths cf))"
      using f map_of_None_iff [of "d_files d1" "graph_cache_json (cf_paths cf)"] by (auto simp: d_exists_def)
    moreover obtain e where "cache_load (graph_cache_json (cf_paths cf)) (disk_state dm) = Inl e"
      by (simp add: d f cache_load_def read_json_def)
    ultimately have "daemon_cold_start L cf W dm = (dm, Inl e)" by (simp add: daemon_cold_start_def)
    with Pair Inr d f assms(2) show ?thesis by (auto simp: next_start_def)
  qed
qed

lemma unreadable_cache_stops_restarts:
  "map_of (d_files d) (graph_cache_json (cf_paths cf)) = Some (TextFile t) \<Longrightarrow> restarts L cf tries d = None"
proof (induction tries arbitrary: d)
  case (Cons x tries)
  obtain stored now W where x: "x = (stored, now, W)" by (cases x)
  obtain d' r where n: "next_start L cf stored now W d = (d', r)" by (cases "next_start L cf stored now W d")
  from unreadable_cache_stops_start [OF Cons.prems n] Cons.IH [of d'] show ?case
    by (cases r) (auto simp: x n)
qed simp

section \<open>A cold start that finds the vault as it was\<close>

text \<open>The entry of a path after a cold start, and a vault with nothing to reconcile.\<close>

definition reconciled :: "world \<Rightarrow> config \<Rightarrow> extraction_cache \<Rightarrow> pypath \<Rightarrow> pyobj option \<times> real option" where
  "reconciled W cf c q =
     (if \<exists>p \<in> set (w_rglob W (cf_root cf)). relative_to p (cf_root cf) = Inr q \<and> admitted W (cf_root cf) (cf_nested cf) p
      then refreshed W (cf_root cf) (path_join (cf_root cf) q) (entry_of c q) else (None, None))"

definition vault_unchanged :: "world \<Rightarrow> config \<Rightarrow> extraction_cache \<Rightarrow> bool" where
  "vault_unchanged W cf c \<longleftrightarrow> (\<forall>q. path_ok q \<longrightarrow> entry_of c q = reconciled W cf c q)"

lemma unchanged_walk:
  assumes "rglob_ok W (cf_root cf)" "cache_inv (x_cache st)" "vault_unchanged W cf (x_cache st)"
    and "cold_walk W (cf_root cf) (cf_nested cf) (w_rglob W (cf_root cf)) [] st = (st1, Inr obs)"
  shows "drop_unobserved obs (x_cache st1) = x_cache st"
proof -
  let ?base = "cf_root cf" and ?c = "x_cache st"
  have ps: "\<forall>p \<in> set (w_rglob W ?base). is_relative_to p ?base \<and> p \<noteq> ?base \<and> path_ok p"
    using assms(1) by (auto simp: rglob_ok_def)
  have "refreshed W ?base p (entry_of ?c rel) = entry_of ?c rel"
    if "p \<in> set (w_rglob W ?base)" "relative_to p ?base = Inr rel" "admitted W ?base (cf_nested cf) p" for p rel
  proof -
    have "path_ok rel" using that(1,2) ps path_ok_relative_to by blast
    then have "entry_of ?c rel = reconciled W cf ?c rel" using assms(3) by (simp add: vault_unchanged_def)
    moreover have "path_join ?base rel = p" using that(2) by (simp add: relative_to_Inr_iff)
    moreover have "reconciled W cf ?c rel = refreshed W ?base (path_join ?base rel) (entry_of ?c rel)"
      unfolding reconciled_def using that by auto
    ultimately show ?thesis by simp
  qed
  then obtain s1 where "cold_walk W ?base (cf_nested cf) (w_rglob W ?base) [] st = (s1, Inr obs)" "x_cache s1 = ?c"
    using cold_walk_stable [OF assms(4), of st] ps by blast
  then have c: "x_cache st1 = ?c" using assms(4) by simp
  have "set (keys (cache_entries ?c)) \<subseteq> set obs"
  proof
    fix q
    assume q: "q \<in> set (keys (cache_entries ?c))"
    then have ok: "path_ok q" using cached_paths(1) [OF assms(2)] by blast
    with q have "cache_get ?c q \<noteq> None" using cached_paths(2) [OF assms(2)] by blast
    with assms(3) ok show "q \<in> set obs"
      using cold_start_entries [OF assms(1,2) ok assms(4)]
      by (auto simp: vault_unchanged_def reconciled_def entry_of_def split: if_splits)
  qed
  then show ?thesis by (simp add: c drop_nothing)
qed

section \<open>What a finished shutdown leaves for the next start\<close>

lemma shutdown_saves_cache:
  assumes "lifecycle dm = RUNNING" "drain_and_compile L cf E (dm\<lparr>lifecycle := STOPPING\<rparr>) = (dm1, Inr u)"
    and "artifact_dirs_ok (artifacts_of cf) (disk_state dm1)" "\<forall>s. current (holder dm1) = Some s \<longrightarrow> renderable L s"
    and "shutdown L cf E dm = (dm', r)"
  shows "cache_load (graph_cache_json (cf_paths cf)) (disk_state dm') = Inr (cache dm')"
proof -
  from write_artifacts [OF assms(3,4), of "cache dm1"]
  obtain d where d: "run_all (artifact_writers L (current (holder dm1)) (cache dm1) (artifacts_of cf)) (disk_state dm1) = (d, Inr ())"
    and f: "map_of (d_files d) (graph_cache_json (cf_paths cf)) = Some (JsonFile (cache_json (cache dm1)))"
    unfolding artifacts_of_def by auto
  have "cache dm' = cache dm1" "disk_state dm' = d"
    using assms(5) shutdown_running [OF assms(1), of L cf E] assms(2) d by (auto simp: persist_on_shutdown_def)
  with cache_load_saved [OF f] show ?thesis by simp
qed

text \<open>What a start loads: the saved cache, or the empty one if there is none.\<close>

definition stored_cache :: "config \<Rightarrow> disk \<Rightarrow> extraction_cache res" where
  "stored_cache cf d =
     (if d_exists d (graph_cache_json (cf_paths cf)) then cache_load (graph_cache_json (cf_paths cf)) d else Inr empty_cache)"

lemma stored_cache_file:
  assumes "map_of (d_files d') p = map_of (d_files d) p" "p \<in> set (d_dirs d') \<longleftrightarrow> p \<in> set (d_dirs d)" "p = graph_cache_json (cf_paths cf)"
    and "stored_cache cf d = Inr c"
  shows "stored_cache cf d' = Inr c"
proof -
  have "d_exists d' p = d_exists d p"
    using assms(1,2) map_of_None_iff [of "d_files d'" p] map_of_None_iff [of "d_files d" p] by (auto simp: d_exists_def)
  moreover have "cache_load p d' = Inr c \<longleftrightarrow> cache_load p d = Inr c" for c
    by (cases "map_of (d_files d) p") (simp_all add: cache_load_def read_json_def assms(1,2) split: content.split)
  ultimately show ?thesis using assms(3,4) by (auto simp: stored_cache_def split: if_splits)
qed

lemma stored_cache_load: "cache_load (graph_cache_json (cf_paths cf)) d = Inr c \<Longrightarrow> stored_cache cf d = Inr c"
  using map_of_None_iff [of "d_files d" "graph_cache_json (cf_paths cf)"]
  by (auto simp: stored_cache_def cache_load_def read_json_def d_exists_def split: option.splits)

lemma cold_start_from:
  assumes "daemon_cold_start L cf W dm = (dm', Inr u)" "stored_cache cf (disk_state dm) = Inr c" "cache dm = empty_cache"
  obtains st h snap where "cold_start L W (cf_root cf) (cf_nested cf) (extract_state_of (dm\<lparr>cache := c\<rparr>), holder dm) = ((st, h), Inr snap)"
    "dm' = (put_extract_state st dm)\<lparr>holder := h\<rparr>"
proof -
  have "(if d_exists (disk_state dm) (graph_cache_json (cf_paths cf))
      then cache_load (graph_cache_json (cf_paths cf)) (disk_state dm) else Inr (cache dm)) = Inr c"
    using assms(2,3) by (simp add: stored_cache_def split: if_splits)
  with assms(1) that show thesis
    by (auto simp: daemon_cold_start_def Let_def split: prod.splits sum.splits)
qed

text \<open>A start that succeeds reconciles what it loads.\<close>

lemma start_reconciles:
  assumes "next_start L cf stored now W d = (d', Inr new)" "rglob_ok W (cf_root cf)" "stored_cache cf d = Inr c" "cache_inv c"
  shows "cache_inv (cache new)"
    and "path_ok q \<Longrightarrow> entry_of (cache new) q = reconciled W cf c q"
    and "vault_unchanged W cf c \<Longrightarrow> cache new = c"
    and "\<exists>g. build_graph L (cache new) = Inr g \<and> current (holder new) = Some (fst (publish L g [] new_holder))"
proof -
  from assms(1) obtain dm0 d0 where i: "init_daemon cf stored now d = (d0, Inr dm0)"
    and c: "daemon_cold_start L cf W dm0 = (new, Inr ())"
    by (auto simp: next_start_def split: prod.splits sum.splits)
  have dm0: "disk_state dm0 = d0" "holder dm0 = new_holder" "cache dm0 = empty_cache"
    using arg_cong [OF init_daemon_result [OF i], of disk_state] arg_cong [OF init_daemon_result [OF i], of holder]
      arg_cong [OF init_daemon_result [OF i], of cache] by simp_all
  have "stored_cache cf (disk_state dm0) = Inr c"
    using stored_cache_file [OF init_cache_file [OF i] refl assms(3)] by (simp add: dm0)
  from cold_start_from [OF c this dm0(3)] obtain st h snap where
    cs: "cold_start L W (cf_root cf) (cf_nested cf) (extract_state_of (dm0\<lparr>cache := c\<rparr>), new_holder) = ((st, h), Inr snap)"
    and "new = (put_extract_state st dm0)\<lparr>holder := h\<rparr>"
    unfolding dm0 by blast
  then have n: "cache new = x_cache st" "holder new = h" by (simp_all add: put_extract_state_def)
  let ?st = "extract_state_of (dm0\<lparr>cache := c\<rparr>)"
  have x: "x_cache ?st = c" by (simp add: extract_state_of_def)
  from cold_start_parts [OF cs] obtain st1 obs g where
    w: "cold_walk W (cf_root cf) (cf_nested cf) (w_rglob W (cf_root cf)) [] ?st = (st1, Inr obs)"
    and p: "x_cache st = drop_unobserved obs (x_cache st1)" "build_graph L (x_cache st) = Inr g" "publish L g [] new_holder = (snap, h)"
    by metis
  have inv: "cache_inv (x_cache ?st)" using assms(4) by (simp add: x)
  note e = cold_start_entries [OF assms(2) inv _ w]
  from e [of "PyPath [] []"] show "cache_inv (cache new)" by (simp add: n p(1) path_ok_def)
  show "entry_of (cache new) q = reconciled W cf c q" if "path_ok q"
    using e [OF that] unfolding n p(1) x reconciled_def by (rule conjunct1)
  show "cache new = c" if "vault_unchanged W cf c"
    using unchanged_walk [OF assms(2) inv _ w] that by (simp add: n p(1) x)
  show "\<exists>g. build_graph L (cache new) = Inr g \<and> current (holder new) = Some (fst (publish L g [] new_holder))"
    using p publish_fields(1) [OF p(3)] by (simp add: n)
qed

section \<open>Properties\<close>

text \<open>C16. Work survives a restart: after a shutdown that ran to its end, a new process that starts on the disk it left has, for
  every path, what a reconciliation of the old process's last cache with the vault gives, so a file is extracted again
  only if it changed; and if the vault is as it was, the new cache is the old one and the first snapshot is built from it.\<close>

theorem restart_resumes:
  assumes "lifecycle dm = RUNNING" "drain_and_compile L cf E (dm\<lparr>lifecycle := STOPPING\<rparr>) = (dm1, Inr u)"
    and "artifact_dirs_ok (artifacts_of cf) (disk_state dm1)" "\<forall>s. current (holder dm1) = Some s \<longrightarrow> renderable L s"
    and "shutdown L cf E dm = (dm', r)" "cache_inv (cache dm')"
    and "next_start L cf stored now W (disk_state dm') = (d, Inr new)" "rglob_ok W (cf_root cf)"
  shows "(\<forall>q. path_ok q \<longrightarrow> entry_of (cache new) q = reconciled W cf (cache dm') q)
    \<and> (vault_unchanged W cf (cache dm') \<longrightarrow> cache new = cache dm'
         \<and> (\<exists>g. build_graph L (cache dm') = Inr g \<and> current (holder new) = Some (fst (publish L g [] new_holder))))"
proof -
  note saved = stored_cache_load [OF shutdown_saves_cache [OF assms(1-5)]]
  from start_reconciles [OF assms(7,8) saved assms(6)] show ?thesis by metis
qed

text \<open>A daemon with two cached files and nothing pending is stopped; when it is started again, one has changed and the other is gone.\<close>

definition changed_world :: world where
  "changed_world = sample_world\<lparr>w_rglob := \<lambda>p. [vault_file ''a.md'']\<rparr>"

lemma changed_world_rglob: "rglob_ok changed_world (cf_root sample_config)"
proof -
  have "w_rglob changed_world sample_root = [vault_file ''a.md'']" by (simp add: changed_world_def)
  moreover have "path_ok (vault_file ''a.md'') \<and> is_relative_to (vault_file ''a.md'') sample_root \<and> vault_file ''a.md'' \<noteq> sample_root"
    by code_simp
  ultimately show ?thesis by (simp add: rglob_ok_def sample_config_def)
qed

theorem restart_resumes_witness:
  "\<exists>dm' d new. shutdown sample_lib sample_config sample_env ((sample_daemon [])\<lparr>cache := x_cache sample_state\<rparr>) = (dm', Inr ())
     \<and> next_start sample_lib sample_config None 0 changed_world (disk_state dm') = (d, Inr new)
     \<and> entry_of (cache new) (PyPath [] [pstr ''a.md'']) = reconciled changed_world sample_config (x_cache sample_state) (PyPath [] [pstr ''a.md''])"
proof -
  let ?dm = "(sample_daemon [])\<lparr>cache := x_cache sample_state\<rparr>"
  obtain dm1 where d: "drain_and_compile sample_lib sample_config sample_env (?dm\<lparr>lifecycle := STOPPING\<rparr>) = (dm1, Inr ())"
    and f: "disk_state dm1 = sample_disk" "current (holder dm1) = None" "cache dm1 = x_cache sample_state"
    by (simp add: drain_and_compile_def sample_daemon_def new_watcher_def drain_pending_batch_def reject_new_events_def
        cancel_timers_def cancel_timer_def Let_def new_holder_def)
  have "artifacts_of sample_config = sample_artifacts" by code_simp
  then have ok: "artifact_dirs_ok (artifacts_of sample_config) (disk_state dm1)"
    by (simp add: artifact_dirs_ok_def writable_def f sample_artifacts_def sample_disk_def path_parent_def)
  have run: "lifecycle ?dm = RUNNING" by (simp add: sample_daemon_def)
  have "case shutdown sample_lib sample_config sample_env ?dm of (dm', r) \<Rightarrow> \<not> isl r \<and> cache dm' = x_cache sample_state
      \<and> \<not> isl (snd (next_start sample_lib sample_config None 0 changed_world (disk_state dm')))"
    by code_simp
  then obtain dm' d' new where s: "shutdown sample_lib sample_config sample_env ?dm = (dm', Inr ())"
    and c: "cache dm' = x_cache sample_state"
    and n: "next_start sample_lib sample_config None 0 changed_world (disk_state dm') = (d', Inr new)"
    by (cases "next_start sample_lib sample_config None 0 changed_world (disk_state (fst (shutdown sample_lib sample_config sample_env ?dm)))")
      (auto split: prod.splits dest!: not_isl)
  from restart_resumes [OF run d ok _ s _ n changed_world_rglob] f(2) c sample_cache_inv
  have "\<forall>q. path_ok q \<longrightarrow> entry_of (cache new) q = reconciled changed_world sample_config (x_cache sample_state) q" by simp
  moreover have "path_ok (PyPath [] [pstr ''a.md''])" by code_simp
  ultimately show ?thesis using s n by blast
qed

text \<open>C23. A signal at the wrong moment stops the daemon for good: if the second signal arrives between the opening and the writing
  of \<open>graph_cache.json\<close>, the process exits with status 0 and leaves the file empty, and however often and on whatever vault the
  daemon is started again, \<open>cold_start\<close> raises and it does not come up, although the vault would be enough to
  rebuild everything.\<close>

theorem torn_cache_stops_every_restart:
  assumes "lifecycle dm = RUNNING" "shutdown_until L cf E 15 dm = (dm', Inr u)"
  shows "run_forever_signalled L cf E (InCleanup 15) served dm = (dm', ExitSignal)
    \<and> map_of (d_files (disk_state dm')) (graph_cache_json (cf_paths cf)) = Some (TextFile [])
    \<and> restarts L cf tries (disk_state dm') = None"
proof -
  from prefix_torn [OF assms(2)] show ?thesis
    using unreadable_cache_stops_restarts [OF prefix_torn [OF assms(2)]] assms by (simp add: run_forever_signalled_def)
qed

theorem torn_cache_stops_every_restart_witness:
  "\<exists>dm'. run_forever_signalled sample_lib sample_config sample_env (InCleanup 15) ExitSignal (sample_daemon []) = (dm', ExitSignal)
     \<and> restarts sample_lib sample_config [(None, 0, sample_world), (None, 1, sample_world)] (disk_state dm') = None"
proof -
  have "\<not> isl (snd (shutdown_until sample_lib sample_config sample_env 15 (sample_daemon [])))" by code_simp
  then obtain dm' where s: "shutdown_until sample_lib sample_config sample_env 15 (sample_daemon []) = (dm', Inr ())"
    by (cases "shutdown_until sample_lib sample_config sample_env 15 (sample_daemon [])") (auto dest: not_isl)
  have "lifecycle (sample_daemon []) = RUNNING" by (simp add: sample_daemon_def)
  from torn_cache_stops_every_restart [OF this s] show ?thesis by blast
qed

end
