(* ===== verification/Lifetime.thy ===== *)
theory Lifetime
  imports Daemon_Threads Restart
begin

text \<open>
  The whole life of an installation: a disk and an index on which daemons are started one after the other, each run by
  its threads until it ends, at any moment and for whatever reason. What one process leaves is what the next one starts
  from, so what start-up relies on (a readable cache file whose keys are paths, an index with one row per path) has to
  be kept by everything that every daemon ever did. It is, as long as no process ends inside the write
  of a single artifact, the case \<open>Restart\<close> treats.
\<close>

section \<open>Paths the handler emits\<close>

lemma py_split_no_sep: "p \<in> set (py_split c s) \<Longrightarrow> c \<notin> set p"
proof (induction s arbitrary: p)
  case (Cons x s)
  then show ?case by (cases "py_split c s") (auto split: if_splits)
qed simp

lemma path_of_str_ok: "path_ok (path_of_str s)"
  by (auto simp: path_of_str_def path_ok_def part_ok_def list_all_iff dest: py_split_no_sep)

lemma raw_to_path_ok: "raw_to_path r = Inr p \<Longrightarrow> path_ok p"
  by (cases r) (auto simp: bindR_Inr_iff path_of_str_ok)

text \<open>A change that some file-system event made the event handler queue.\<close>

definition from_handler :: "config \<Rightarrow> file_change \<Rightarrow> bool" where
  "from_handler cf c \<longleftrightarrow> (\<exists>W ev logs. on_any_event W (cf_root cf) (cf_nested cf) ev = Inr (Some c, logs))"

lemma from_handler_path: "from_handler cf c \<Longrightarrow> path_ok (change_path c)"
  by (auto simp: from_handler_def on_any_event_def mk_file_change_def bindR_Inr_iff dest: raw_to_path_ok
      split: if_splits option.splits)

section \<open>What one daemon does to the cache and its file\<close>

text \<open>A cache whose keys are texts of paths, and at the path of the cache file nothing or a file that holds such a cache.\<close>

definition cache_file_good :: "config \<Rightarrow> disk \<Rightarrow> bool" where
  "cache_file_good cf d \<longleftrightarrow>
     (case map_of (d_files d) (graph_cache_json (cf_paths cf)) of
        None \<Rightarrow> graph_cache_json (cf_paths cf) \<notin> set (d_dirs d)
      | Some content \<Rightarrow> \<exists>c. content = JsonFile (cache_json c) \<and> cache_inv c)"

definition saved_ok :: "config \<Rightarrow> ('g, 't) daemon \<Rightarrow> bool" where
  "saved_ok cf dm \<longleftrightarrow> cache_inv (cache dm) \<and> cache_file_good cf (disk_state dm)"

lemma saved_ok_other:
  "cache dm' = cache dm \<Longrightarrow> disk_state dm' = disk_state dm \<Longrightarrow> saved_ok cf dm' = saved_ok cf dm"
  by (simp add: saved_ok_def)

lemma extract_and_cache_inv:
  "extract_and_cache W base p rel st = (st', r) \<Longrightarrow> path_ok rel \<Longrightarrow> cache_inv (x_cache st) \<Longrightarrow> cache_inv (x_cache st')"
  by (auto simp: extract_and_cache_def Let_def cache_inv_set split: sum.splits option.splits prod.splits if_splits)

lemma extract_change_inv:
  assumes "extract_change W base nested c st = (st', r)" "path_ok (change_path c)" "cache_inv (x_cache st)"
  shows "cache_inv (x_cache st')"
proof (cases "relative_to (change_path c) base")
  case (Inr rel)
  with assms path_ok_relative_to [OF assms(2) Inr] show ?thesis
    by (auto simp: extract_change_def Let_def cache_inv_delete intro: extract_and_cache_inv
        split: sum.splits change_kind.splits option.splits bool.splits)
qed (use assms in \<open>simp add: extract_change_def\<close>)

lemma extract_batch_inv:
  assumes "extract_batch W base nested b st = (st', r)" "\<forall>c \<in> set (changes b). path_ok (change_path c)" "cache_inv (x_cache st)"
  shows "cache_inv (x_cache st')"
proof -
  have "extract_changes W base nested cs rs st = (st', r) \<Longrightarrow> \<forall>c \<in> set cs. path_ok (change_path c) \<Longrightarrow>
      cache_inv (x_cache st) \<Longrightarrow> cache_inv (x_cache st')" for cs rs
    by (induction cs arbitrary: rs st)
      (auto split: prod.splits sum.splits option.splits dest: extract_change_inv)
  with assms show ?thesis by (simp add: extract_batch_def)
qed

text \<open>The artifact writers leave the cache file as it was or write the cache to it: the three artifacts have different names.\<close>

lemma artifact_names:
  "graph_json ps \<noteq> graph_cache_json ps" "knowledge_md ps \<noteq> graph_cache_json ps"
proof -
  have s: "path_of_str (pstr ''graph_cache.json'') = PyPath [] [pstr ''graph_cache.json'']"
    "path_of_str (pstr ''graph.json'') = PyPath [] [pstr ''graph.json'']"
    "path_of_str (pstr ''KNOWLEDGE.md'') = PyPath [] [pstr ''KNOWLEDGE.md'']" by code_simp+
  show "graph_json ps \<noteq> graph_cache_json ps" "knowledge_md ps \<noteq> graph_cache_json ps"
    by (simp_all add: graph_cache_json_def graph_json_def knowledge_md_def path_child_def s)
qed

lemma write_restricted_files:
  "as_writer (write_restricted p c) d = (d', r) \<Longrightarrow> q \<noteq> p \<Longrightarrow> map_of (d_files d') q = map_of (d_files d) q"
  "as_writer (write_restricted p c) d = (d', r) \<Longrightarrow> d_dirs d' = d_dirs d"
  by (auto simp: as_writer_def write_restricted_owner_only(3,4) split: sum.splits)

lemma other_artifacts_files:
  "write_graph_json L s p d = (d', r) \<Longrightarrow> q \<noteq> p \<Longrightarrow> map_of (d_files d') q = map_of (d_files d) q"
  "write_knowledge_md L s p d = (d', r) \<Longrightarrow> q \<noteq> p \<Longrightarrow> map_of (d_files d') q = map_of (d_files d) q"
  "write_graph_json L s p d = (d', r) \<Longrightarrow> d_dirs d' = d_dirs d"
  "write_knowledge_md L s p d = (d', r) \<Longrightarrow> d_dirs d' = d_dirs d"
  by (auto simp: write_graph_json_def write_knowledge_md_def Let_def write_file_def dict_simps dest: write_restricted_files
      split: sum.splits if_splits)

lemma cache_save_good:
  "as_writer (cache_save c (graph_cache_json (cf_paths cf))) d = (d', r) \<Longrightarrow> cache_inv c \<Longrightarrow> cache_file_good cf d \<Longrightarrow> cache_file_good cf d'"
  by (auto simp: as_writer_def cache_save_def cache_file_good_def write_restricted_owner_only(3) split: sum.splits)

lemma good_same_file:
  "map_of (d_files d') (graph_cache_json (cf_paths cf)) = map_of (d_files d) (graph_cache_json (cf_paths cf)) \<Longrightarrow>
     (graph_cache_json (cf_paths cf) \<in> set (d_dirs d') \<longleftrightarrow> graph_cache_json (cf_paths cf) \<in> set (d_dirs d)) \<Longrightarrow>
     cache_file_good cf d' = cache_file_good cf d"
  by (simp add: cache_file_good_def split: option.split)

lemma first_artifacts_keep_good:
  assumes "cache_inv c" "cache_file_good cf d"
  shows "cache_file_good cf (fst (run_all (take k (artifact_writers L cur c (artifacts_of cf))) d))"
proof (rule run_all_inv [where P = "cache_file_good cf"])
  fix w d
  assume t: "w \<in> set (take k (artifact_writers L cur c (artifacts_of cf)))" and g: "cache_file_good cf d"
  have w: "w \<in> set (artifact_writers L cur c (artifacts_of cf))" using t by (rule in_set_takeD)
  obtain d1 u where d1: "w d = (d1, u)" by (cases "w d")
  consider s where "w = write_graph_json L s (graph_json (cf_paths cf))"
    | s where "w = write_knowledge_md L s (knowledge_md (cf_paths cf))"
    | "w = as_writer (cache_save c (graph_cache_json (cf_paths cf)))"
    using w by (auto simp: artifact_writers_def artifacts_of_def split: option.splits)
  then show "cache_file_good cf (fst (w d))"
  proof cases
    case 1
    with d1 have "write_graph_json L s (graph_json (cf_paths cf)) d = (d1, u)" by simp
    from good_same_file [OF other_artifacts_files(1) [OF this artifact_names(1) [symmetric]]] other_artifacts_files(3) [OF this] g d1
    show ?thesis by simp
  next
    case 2
    with d1 have "write_knowledge_md L s (knowledge_md (cf_paths cf)) d = (d1, u)" by simp
    from good_same_file [OF other_artifacts_files(2) [OF this artifact_names(2) [symmetric]]] other_artifacts_files(4) [OF this] g d1
    show ?thesis by simp
  next
    case 3
    with d1 cache_save_good [OF _ assms(1) g] show ?thesis by simp
  qed
qed (rule assms(2))

lemma artifacts_keep_good:
  assumes "run_all (artifact_writers L cur c (artifacts_of cf)) d = (d', r)" "cache_inv c" "cache_file_good cf d"
  shows "cache_file_good cf d'"
  using first_artifacts_keep_good [OF assms(2,3), of "length (artifact_writers L cur c (artifacts_of cf))" L cur] assms(1) by simp

lemma cadence_keeps_good:
  assumes "daemon_cadence_cycle L cf E dm = (dm', r)" "saved_ok cf dm"
  shows "saved_ok cf dm'"
proof -
  let ?st = "cadence_state_of dm"
  obtain s where s: "run_slow_cadence_cycle L (e_child E) DEFAULT_CLUSTERING_TIMEOUT_SECONDS (e_clock E)
      (artifacts_of cf) (cache dm) ?st = (s, r)" and dm': "dm' = put_cadence_state s dm"
    using assms(1) by (auto simp: daemon_cadence_cycle_def split: prod.splits)
  have "s_disk s = disk_state dm \<or>
      (\<exists>cur u. run_all (artifact_writers L cur (cache dm) (artifacts_of cf)) (disk_state dm) = (s_disk s, u))"
    using s by (auto simp: run_slow_cadence_cycle_def cadence_state_of_def split: if_splits prod.splits sum.splits)
  then have "cache_file_good cf (s_disk s)"
    using artifacts_keep_good assms(2) by (auto simp: saved_ok_def)
  with assms(2) show ?thesis by (simp add: saved_ok_def dm' put_cadence_state_def)
qed

lemma persist_keeps_good:
  "persist_on_shutdown L cf dm = (dm', r) \<Longrightarrow> saved_ok cf dm \<Longrightarrow> saved_ok cf dm'"
  by (auto simp: persist_on_shutdown_def saved_ok_def intro: artifacts_keep_good split: prod.splits sum.splits)

lemma idle_keeps_good:
  "on_idle_cadence L cf E dm = (dm', r) \<Longrightarrow> saved_ok cf dm \<Longrightarrow> saved_ok cf dm'"
  by (auto simp: on_idle_cadence_def coordinator_run_batch_def intro: cadence_keeps_good split: prod.splits sum.splits)

text \<open>Any prefix of the statements of a compilation.\<close>

definition compile_until ::
  "('g, 't) lib \<Rightarrow> config \<Rightarrow> env \<Rightarrow> batch \<Rightarrow> nat \<Rightarrow> ('g, 't) daemon \<Rightarrow> ('g, 't) daemon \<times> unit res" where
  "compile_until L cf E b n =
     run_all (take n [extract_stage cf E b, index_stage cf E b, publish_batch L, record_stage E b, cadence_stage L cf E])"

lemma compile_until_end: "compile_until L cf E b 5 = compile_batch L cf E b"
  by (simp add: compile_until_def compile_batch_def fun_eq_iff)

lemma stages_keep_good:
  assumes "f \<in> {extract_stage cf E b, index_stage cf E b, publish_batch L, record_stage E b, cadence_stage L cf E}"
    and "\<forall>c \<in> set (changes b). path_ok (change_path c)" "saved_ok cf dm"
  shows "saved_ok cf (fst (f dm))"
proof -
  have "saved_ok cf (fst (extract_stage cf E b dm))"
  proof -
    obtain st r where x: "extract_batch (e_world E) (cf_root cf) (cf_nested cf) b (extract_state_of dm) = (st, r)"
      by (cases "extract_batch (e_world E) (cf_root cf) (cf_nested cf) b (extract_state_of dm)")
    from assms(3) have "cache_inv (x_cache (extract_state_of dm))" by (simp add: saved_ok_def extract_state_of_def)
    from extract_batch_inv [OF x assms(2) this] assms(3) show ?thesis
      unfolding extract_stage_def x by (simp add: put_extract_state_def saved_ok_def)
  qed
  moreover have "saved_ok cf (fst (publish_batch L dm))"
    using assms(3) by (auto simp: publish_batch_def saved_ok_def Let_def split: sum.split)
  moreover have "saved_ok cf (fst (cadence_stage L cf E dm))"
    using assms(3) cadence_keeps_good [of L cf E dm]
    by (auto simp: cadence_stage_def saved_ok_other [of _ "_\<lparr>watch := _\<rparr>"] saved_ok_def split: prod.split sum.split)
  moreover have "saved_ok cf (fst (index_stage cf E b dm))" "saved_ok cf (fst (record_stage E b dm))"
    using assms(3) by (simp_all add: index_stage_def record_stage_def saved_ok_def split: prod.split)
  ultimately show ?thesis using assms(1) by blast
qed

lemma compile_until_keeps:
  assumes "compile_until L cf E b n dm = (dm', r)"
  shows "daemon_inv L dm \<Longrightarrow> daemon_inv L dm'"
    and "\<forall>c \<in> set (changes b). path_ok (change_path c) \<Longrightarrow> saved_ok cf dm \<Longrightarrow> saved_ok cf dm'"
proof -
  let ?fs = "[extract_stage cf E b, index_stage cf E b, publish_batch L, record_stage E b, cadence_stage L cf E]"
  have sub: "set (take n ?fs) \<subseteq> {extract_stage cf E b, index_stage cf E b, publish_batch L, record_stage E b, cadence_stage L cf E}"
    using set_take_subset [of n ?fs] by simp
  then have "safe_step L (run_all (take n ?fs))"
    by (intro safe_run_all) (auto simp: safe_extract safe_index safe_publish safe_record safe_cadence)
  then show "daemon_inv L dm \<Longrightarrow> daemon_inv L dm'"
    using assms safe_stepD unfolding compile_until_def by blast
  show "saved_ok cf dm'" if "\<forall>c \<in> set (changes b). path_ok (change_path c)" "saved_ok cf dm"
  proof -
    have "saved_ok cf (fst (run_all (take n ?fs) dm))"
      by (rule run_all_inv [where P = "saved_ok cf"]) (use sub stages_keep_good that in \<open>blast+\<close>)
    with assms show ?thesis by (simp add: compile_until_def)
  qed
qed

section \<open>What every thread keeps\<close>

lemma cold_start_frame:
  "watch (fst (daemon_cold_start L cf W dm)) = watch dm" "index (fst (daemon_cold_start L cf W dm)) = index dm"
  "disk_state (fst (daemon_cold_start L cf W dm)) = disk_state dm" "queries (fst (daemon_cold_start L cf W dm)) = queries dm"
  by (auto simp: daemon_cold_start_def Let_def put_extract_state_def split: sum.split prod.split)

lemma cold_start_publishes:
  assumes "daemon_cold_start L cf W dm = (dm', Inr u)"
  shows "current (holder dm') \<noteq> None"
proof -
  have c: "current h' = Some snap" if "cold_start L W base nested (st, h) = ((st', h'), Inr snap)"
    for W base nested st h st' h' snap
    using that by (auto simp: cold_start_def Let_def dest: publish_fields(1) split: prod.splits sum.splits)
  from assms show ?thesis
    by (auto simp: daemon_cold_start_def Let_def dest!: c split: prod.splits sum.splits)
qed

text \<open>Every step of a thread keeps the invariant of the daemon and what readers rely on.\<close>

lemma thread_safe:
  assumes "thread_step L cf s t" "daemon_inv L (dmn s)"
  shows "daemon_inv L (dmn t) \<and> later_reads (dmn s) (dmn t)"
  using assms(1)
proof (cases rule: thread_step.cases)
  case (th_compile b E dm' r)
  then have "compile_batch L cf E b (dmn s) = (dm', r)"
    by (simp add: on_batch_def coordinator_run_batch_def consume_def)
  from safe_stepD [OF safe_compile assms(2) this] th_compile show ?thesis by simp
next
  case (th_idle_run E dm' r)
  then obtain r' where "daemon_cadence_cycle L cf E (dmn s) = (dm', r')"
    by (auto simp: on_idle_cadence_def coordinator_run_batch_def split: prod.splits sum.splits)
  from cadence_cycle_safe [OF this assms(2)] th_idle_run show ?thesis by simp
next
  case (th_drain_compile b E dm' r)
  then have "compile_batch L cf E b (dmn s) = (dm', r)"
    by (simp add: on_batch_def coordinator_run_batch_def consume_def)
  from safe_stepD [OF safe_compile assms(2) this] th_drain_compile show ?thesis by simp
next
  case (th_persist dm' u)
  with persist_safe [OF th_persist(3) assms(2)] show ?thesis by (auto simp: daemon_inv_def later_reads_def)
next
  case (th_persist_fails dm' e)
  from persist_safe [OF th_persist_fails(3) assms(2)] th_persist_fails show ?thesis by simp
qed (use assms(2) in \<open>simp_all add: daemon_inv_def later_reads_def expire_timer_def\<close>)

lemma threads_safe:
  assumes "(thread_step L cf)\<^sup>*\<^sup>* s t" "daemon_inv L (dmn s)"
  shows "daemon_inv L (dmn t) \<and> later_reads (dmn s) (dmn t)"
  using assms
proof (induction rule: rtranclp_induct)
  case (step t u)
  with thread_safe [OF step(2)] later_reads_trans show ?case by blast
qed simp

text \<open>A batch on its way consists of changes that were accepted.\<close>

lemma in_flight_accepted:
  assumes "threads_inv t" "b \<in> set (in_flight t)" "c \<in> set (changes b)"
  shows "c \<in> set (accepted t)"
proof -
  from assms(1) have a: "accepted t = concat (map changes (cut t)) @ pending (watch (dmn t))"
    and m: "mset (cut t) = mset (compiled t) + mset (failed t) + mset (in_flight t)"
    by (simp_all add: threads_inv_def conserved_def)
  have "b \<in># mset (cut t)" unfolding m using assms(2) by simp
  with assms(3) show ?thesis unfolding a by auto
qed

definition changes_ok :: "('g, 't) threads \<Rightarrow> bool" where
  "changes_ok t \<longleftrightarrow> (\<forall>c \<in> set (accepted t). path_ok (change_path c))"

lemma in_flight_ok:
  "threads_inv t \<Longrightarrow> changes_ok t \<Longrightarrow> b \<in> set (in_flight t) \<Longrightarrow> \<forall>c \<in> set (changes b). path_ok (change_path c)"
  using in_flight_accepted by (auto simp: changes_ok_def)

lemma locked_in_flight: "lock t = Some (CompileJob b) \<or> lock t = Some (DrainJob b) \<Longrightarrow> b \<in> set (in_flight t)"
  by (auto simp: in_flight_def)

lemma on_batch_keeps:
  assumes "on_batch L cf E b dm = (dm', r)" "\<forall>c \<in> set (changes b). path_ok (change_path c)" "saved_ok cf dm"
  shows "saved_ok cf dm'"
  using compile_until_keeps(2) [of L cf E b 5 dm dm' r] assms
  by (simp add: compile_until_end on_batch_def coordinator_run_batch_def consume_def)

lemma thread_keeps_good:
  assumes "thread_step L cf s t" "threads_inv s" "changes_ok s" "saved_ok cf (dmn s)"
  shows "saved_ok cf (dmn t)"
  using assms(1)
proof (cases rule: thread_step.cases)
  case (th_compile b E dm' r)
  with on_batch_keeps [OF th_compile(3) in_flight_ok [OF assms(2,3) locked_in_flight] assms(4)] show ?thesis by simp
next
  case (th_idle_run E dm' r)
  with idle_keeps_good [OF th_idle_run(3) assms(4)] show ?thesis by simp
next
  case (th_drain_compile b E dm' r)
  with on_batch_keeps [OF th_drain_compile(3) in_flight_ok [OF assms(2,3) locked_in_flight] assms(4)] show ?thesis by simp
next
  case (th_persist dm' u)
  with persist_keeps_good [OF th_persist(3) assms(4)] show ?thesis by (simp add: saved_ok_def)
next
  case (th_persist_fails dm' e)
  with persist_keeps_good [OF th_persist_fails(3) assms(4)] show ?thesis by simp
qed (use assms(4) in \<open>simp_all add: saved_ok_def expire_timer_def\<close>)

section \<open>One daemon after the other\<close>

text \<open>No process is running, with what is on disk and in the index; or one is, with its threads.\<close>

datatype ('g, 't) life = Down disk "rows option" | Up "('g, 't) threads"

text \<open>
  A thread has come to the point where it writes the artifacts: an idle cycle, the final persist, or the last stage of a compilation; and the
  disk when the first \<open>k\<close> of them are written. The snapshot is any, since the clustering may have published another one.
\<close>

definition about_to_write :: "('g, 't) lib \<Rightarrow> config \<Rightarrow> ('g, 't) threads \<Rightarrow> ('g, 't) daemon \<Rightarrow> bool" where
  "about_to_write L cf t dm \<longleftrightarrow>
     lock t \<in> {Some IdleRun, Some PersistJob} \<and> dm = dmn t \<or>
     (\<exists>b E. lock t \<in> {Some (CompileJob b), Some (DrainJob b)} \<and> compile_until L cf E b 4 (dmn t) = (dm, Inr ()))"

definition written_until ::
  "('g, 't) lib \<Rightarrow> config \<Rightarrow> ('g, 't) graph_snapshot option \<Rightarrow> nat \<Rightarrow> ('g, 't) daemon \<Rightarrow> disk" where
  "written_until L cf cur k dm = fst (run_all (take k (artifact_writers L cur (cache dm) (artifacts_of cf))) (disk_state dm))"

text \<open>
  A start that succeeds or fails (having made the index's table or not), a step of a thread, and the end of the process: between two steps,
  while a batch is being compiled, after any of the stages, or while the artifacts are being written, after any of them. Uncommitted work of
  the index is gone then; the stages commit theirs.
\<close>

inductive life_step :: "('g, 't) lib \<Rightarrow> config \<Rightarrow> ('g, 't) life \<Rightarrow> ('g, 't) life \<Rightarrow> bool"
  for L :: "('g, 't) lib" and cf :: config where
  lf_start: "next_start L cf rows now W d = (d', Inr dm) \<Longrightarrow> rglob_ok W (cf_root cf) \<Longrightarrow>
     life_step L cf (Down d rows) (Up (threads_start (start_daemon dm)))"
| lf_start_fails: "next_start L cf rows now W d = (d', Inl e) \<Longrightarrow>
     rows' \<in> {rows, Some (case rows of None \<Rightarrow> [] | Some rs \<Rightarrow> rs)} \<Longrightarrow>
     life_step L cf (Down d rows) (Down d' rows')"
| lf_run: "thread_step L cf t t' \<Longrightarrow> \<forall>c \<in> set (accepted t'). from_handler cf c \<Longrightarrow> life_step L cf (Up t) (Up t')"
| lf_end: "life_step L cf (Up t) (Down (disk_state (dmn t)) (files_table (index (dmn t))))"
| lf_killed: "lock t = Some (CompileJob b) \<or> lock t = Some (DrainJob b) \<Longrightarrow> compile_until L cf E b n (dmn t) = (dm', r) \<Longrightarrow>
     life_step L cf (Up t) (Down (disk_state dm') (files_table (index dm')))"
| lf_killed_writing: "about_to_write L cf t dm \<Longrightarrow>
     life_step L cf (Up t) (Down (written_until L cf cur k dm) (files_table (index dm)))"

definition life_init :: "config \<Rightarrow> ('g, 't) life \<Rightarrow> bool" where
  "life_init cf s \<longleftrightarrow> (\<exists>d. s = Down d None \<and> \<not> d_exists d (graph_cache_json (cf_paths cf)))"

fun life_inv :: "('g, 't) lib \<Rightarrow> config \<Rightarrow> ('g, 't) life \<Rightarrow> bool" where
  "life_inv L cf (Down d rows) \<longleftrightarrow> cache_file_good cf d \<and> (\<forall>rs. rows = Some rs \<longrightarrow> dict_ok rs)"
| "life_inv L cf (Up t) \<longleftrightarrow> threads_inv t \<and> changes_ok t \<and> daemon_inv L (dmn t) \<and> saved_ok cf (dmn t) \<and> current (holder (dmn t)) \<noteq> None"

text \<open>A good file is read back, and start-up keeps it.\<close>

lemma cache_inv_empty: "cache_inv empty_cache"
  by (simp add: cache_inv_def canonical_keys_def) (simp add: empty_cache_def)

lemma good_file_loads: "cache_file_good cf d \<Longrightarrow> \<exists>c. stored_cache cf d = Inr c \<and> cache_inv c"
  using map_of_None_iff [of "d_files d" "graph_cache_json (cf_paths cf)"]
  by (auto simp: cache_file_good_def stored_cache_def d_exists_def cache_inv_empty cache_load_saved split: option.splits)

lemma fresh_file_good: "\<not> d_exists d (graph_cache_json (cf_paths cf)) \<Longrightarrow> cache_file_good cf d"
  using map_of_None_iff [of "d_files d" "graph_cache_json (cf_paths cf)"] by (simp add: cache_file_good_def d_exists_def)

lemma start_keeps_file:
  assumes "next_start L cf rows now W d = (d', r)"
  shows "cache_file_good cf d' = cache_file_good cf d"
proof -
  obtain d1 r1 where i: "init_daemon cf rows now d = (d1, r1 :: ('a, 'b) daemon res)" by (metis surjective_pairing)
  have "d' = d1"
  proof (cases r1)
    case (Inr dm)
    have "disk_state dm = d1" using arg_cong [OF init_daemon_result [OF i [unfolded Inr]], of disk_state] by simp
    with assms i Inr cold_start_disk [of L cf W dm] show ?thesis by (auto simp: next_start_def split: prod.splits sum.splits)
  qed (use assms i in \<open>simp add: next_start_def\<close>)
  then show ?thesis using good_same_file [OF init_cache_file [OF i]] by simp
qed

lemma started:
  assumes "next_start L cf rows now W d = (d', Inr new)" "cache_file_good cf d" "\<forall>rs. rows = Some rs \<longrightarrow> dict_ok rs"
  shows "just_started (start_daemon new)" "daemon_inv L new" "disk_state new = d'"
proof -
  from assms(1) obtain dm0 where i: "init_daemon cf rows now d = (disk_state dm0, Inr dm0)"
    and c: "daemon_cold_start L cf W dm0 = (new, Inr ())"
    using arg_cong [OF init_daemon_result, of _ _ _ _ _ _ disk_state]
    by (fastforce simp: next_start_def split: prod.splits sum.splits)
  note f = cold_start_frame [of L cf W dm0, unfolded c fst_conv]
  have w: "watch dm0 = new_watcher (cf_root cf) (cf_debounce_ms cf) (cf_nested cf) (cf_pending_warn cf)" "conn_open (index dm0)"
    "lifecycle dm0 = RUNNING"
    using arg_cong [OF init_daemon_result [OF i], of watch] arg_cong [OF init_daemon_result [OF i], of index]
      arg_cong [OF init_daemon_result [OF i], of lifecycle] by simp_all
  have "lifecycle new = RUNNING" using cold_start_lifecycle [of L cf W dm0] c w(3) by simp
  with f w show "just_started (start_daemon new)"
    by (simp add: just_started_def start_daemon_def start_watcher_def new_watcher_def)
  show d: "disk_state new = d'" using assms(1) i c by (simp add: next_start_def f)
  have "daemon_init cf dm0" unfolding daemon_init_def using i assms(3) by blast
  moreover have "cache_ok e" if "cache_load (graph_cache_json (cf_paths cf)) (disk_state dm0) = Inr e" for e
  proof -
    have "cache_file_good cf (disk_state dm0)" using assms(2) good_same_file [OF init_cache_file [OF i]] by simp
    from good_file_loads [OF this] stored_cache_load [OF that] show ?thesis by (auto simp: cache_inv_def)
  qed
  ultimately show "daemon_inv L new" using daemon_cold_start_safe [OF c daemon_init_inv(1)] by blast
qed

lemma start_up_inv:
  assumes "next_start L cf rows now W d = (d', Inr new)" "rglob_ok W (cf_root cf)" "life_inv L cf (Down d rows)"
  shows "life_inv L cf (Up (threads_start (start_daemon new)))"
proof -
  from assms(3) have g: "cache_file_good cf d" "\<forall>rs. rows = Some rs \<longrightarrow> dict_ok rs" by simp_all
  from good_file_loads [OF g(1)] obtain c where c: "stored_cache cf d = Inr c" "cache_inv c" by blast
  note s = started [OF assms(1) g]
  note r = start_reconciles [OF assms(1,2) c]
  have "threads_inv (threads_start (start_daemon new))"
    by (rule threads_init_inv) (simp add: threads_init_def threads_start_def s(1))
  moreover have "cache_file_good cf (disk_state new)" using g(1) start_keeps_file [OF assms(1)] s(3) by simp
  ultimately show ?thesis
    using r(1,4) s(2) by (auto simp: changes_ok_def threads_start_def saved_ok_def start_daemon_def daemon_inv_def)
qed

lemma life_step_inv:
  assumes "life_step L cf s t" "life_inv L cf s"
  shows "life_inv L cf t"
  using assms(1)
proof (cases rule: life_step.cases)
  case (lf_start rows now W d d' dm)
  with start_up_inv assms(2) show ?thesis by blast
next
  case (lf_start_fails rows now W d d' e rows')
  with assms(2) start_keeps_file [OF lf_start_fails(3)] show ?thesis by (auto split: option.splits)
next
  case (lf_run u u')
  with assms(2) have i: "threads_inv u" "changes_ok u" "daemon_inv L (dmn u)" "saved_ok cf (dmn u)" "current (holder (dmn u)) \<noteq> None"
    by simp_all
  have "threads_inv u'" using threads.inv_step [OF i(1) lf_run(3)] .
  moreover have "changes_ok u'" using lf_run(4) from_handler_path by (auto simp: changes_ok_def)
  moreover have "saved_ok cf (dmn u')" using thread_keeps_good [OF lf_run(3) i(1,2,4)] .
  ultimately show ?thesis using thread_safe [OF lf_run(3) i(3)] i(5) lf_run(2) by (simp add: later_reads_def)
next
  case (lf_end u)
  with assms(2) show ?thesis by (auto simp: saved_ok_def daemon_inv_def)
next
  case (lf_killed u b E n dm' r)
  with assms(2) have i: "threads_inv u" "changes_ok u" "daemon_inv L (dmn u)" "saved_ok cf (dmn u)" by simp_all
  from compile_until_keeps [OF lf_killed(4)] i in_flight_ok [OF i(1,2) locked_in_flight [OF lf_killed(3)]]
  have "daemon_inv L dm'" "saved_ok cf dm'" by blast+
  with lf_killed(2) show ?thesis by (auto simp: saved_ok_def daemon_inv_def)
next
  case (lf_killed_writing u dm cur k)
  with assms(2) have i: "threads_inv u" "changes_ok u" "daemon_inv L (dmn u)" "saved_ok cf (dmn u)" by simp_all
  have "daemon_inv L dm \<and> saved_ok cf dm"
    using lf_killed_writing(3) i compile_until_keeps in_flight_ok [OF i(1,2) locked_in_flight]
    unfolding about_to_write_def by blast
  with lf_killed_writing(2) show ?thesis by (auto simp: saved_ok_def daemon_inv_def written_until_def first_artifacts_keep_good)
qed

interpretation life: transition_system "life_init cf" "life_step L cf" "life_inv L cf"
  for L cf
proof
  show "life_inv L cf s" if "life_init cf s" for s :: "('a, 'b) life"
    using that fresh_file_good by (auto simp: life_init_def)
  show "life_inv L cf t" if "life_inv L cf s" "life_step L cf s t" for s t :: "('a, 'b) life"
    using that life_step_inv by blast
qed

text \<open>Why a start fails: \<open>Daemon.__init__\<close> raised, or the reconciliation of what was loaded did.\<close>

lemma start_fails_why:
  assumes "next_start (L :: ('g, 't) lib) cf rows now W d = (d', Inl e)" "stored_cache cf d = Inr c"
  shows "(\<exists>d1. init_daemon cf rows now d = (d1, Inl e :: ('g, 't) daemon res))
    \<or> (\<exists>st h. cold_start L W (cf_root cf) (cf_nested cf) (\<lparr>x_cache = c, x_metrics = Some (new_metrics DEFAULT_LATENCY_WINDOW), x_log = []\<rparr>,
         new_holder) = ((st, h), Inl e))"
proof (cases "init_daemon cf rows now d :: disk \<times> ('g, 't) daemon res")
  case (Pair d1 r1)
  show ?thesis
  proof (cases r1)
    case (Inl e')
    with assms(1) Pair show ?thesis by (simp add: next_start_def)
  next
    case (Inr dm)
    note dm = init_daemon_result [OF Pair [unfolded Inr]]
    have "stored_cache cf (disk_state dm) = Inr c"
      using assms(2) stored_cache_file [OF init_cache_file [OF Pair] refl assms(2)] by (simp add: dm)
    then have "(if d_exists (disk_state dm) (graph_cache_json (cf_paths cf))
        then cache_load (graph_cache_json (cf_paths cf)) (disk_state dm) else Inr (cache dm)) = Inr c"
      by (simp add: stored_cache_def dm split: if_splits)
    moreover obtain dm1 where "daemon_cold_start L cf W dm = (dm1, Inl e)"
      using assms(1) Pair Inr by (auto simp: next_start_def split: prod.splits sum.splits)
    ultimately have "\<exists>st h. cold_start L W (cf_root cf) (cf_nested cf) (extract_state_of (dm\<lparr>cache := c\<rparr>), holder dm) = ((st, h), Inl e)"
      by (auto simp: daemon_cold_start_def Let_def split: prod.splits sum.splits)
    then show ?thesis by (simp add: extract_state_of_def dm)
  qed
qed

section \<open>Properties\<close>

text \<open>C3. Whatever happened before, an installation is in order: from a disk with nothing at the path of the cache file, after any number of
  daemons, each started on any state of the vault, run by its threads in any interleaving, and ended at any moment between two steps,
  two stages of a compilation or two artifact writes, what is on disk while none runs is a loadable cache whose keys are paths (or no cache file) and an index
  with one row per path; and while one runs it serves, with the invariants of all components and threads.\<close>

theorem installation_stays_in_order:
  assumes "(life_step L cf)\<^sup>*\<^sup>* (Down d None) s" "\<not> d_exists d (graph_cache_json (cf_paths cf))"
  shows "case s of
      Down d' rows \<Rightarrow> (\<exists>c. stored_cache cf d' = Inr c \<and> cache_inv c) \<and> (\<forall>rs. rows = Some rs \<longrightarrow> dict_ok rs)
    | Up t \<Rightarrow> ready (health_route (dmn t)) \<and> daemon_inv L (dmn t) \<and> cache_inv (cache (dmn t)) \<and> threads_inv t"
proof -
  have "life_init cf (Down d None)" using assms(2) by (simp add: life_init_def)
  from life.reachable_inv [OF this assms(1)] show ?thesis
    by (cases s) (auto simp: saved_ok_def health_route_def health_check_def dest: good_file_loads)
qed

lemma sample_next_start:
  "\<exists>d dm. next_start sample_lib sample_config None 0 changed_world sample_disk = (d, Inr dm) \<and> rglob_ok changed_world (cf_root sample_config)"
proof -
  have "\<not> isl (snd (next_start sample_lib sample_config None 0 changed_world sample_disk))" by code_simp
  then obtain d dm where n: "next_start sample_lib sample_config None 0 changed_world sample_disk = (d, Inr dm)"
    by (cases "next_start sample_lib sample_config None 0 changed_world sample_disk") (auto dest: not_isl)
  with n changed_world_rglob show ?thesis by blast
qed

text \<open>A daemon is started and ends.\<close>

theorem installation_stays_in_order_witness:
  "\<exists>t c. (life_step sample_lib sample_config)\<^sup>*\<^sup>* (Down sample_disk None) (Up t) \<and> ready (health_route (dmn t))
     \<and> (life_step sample_lib sample_config)\<^sup>*\<^sup>* (Down sample_disk None) (Down (disk_state (dmn t)) (files_table (index (dmn t))))
     \<and> stored_cache sample_config (disk_state (dmn t)) = Inr c"
proof -
  from sample_next_start obtain d dm where n: "next_start sample_lib sample_config None 0 changed_world sample_disk = (d, Inr dm)"
    and g: "rglob_ok changed_world (cf_root sample_config)" by blast
  have f: "\<not> d_exists sample_disk (graph_cache_json (cf_paths sample_config))" by code_simp
  let ?t = "threads_start (start_daemon dm)"
  have up: "(life_step sample_lib sample_config)\<^sup>*\<^sup>* (Down sample_disk None) (Up ?t)"
    using lf_start [OF n g] by (rule r_into_rtranclp)
  have down: "(life_step sample_lib sample_config)\<^sup>*\<^sup>* (Down sample_disk None) (Down (disk_state (dmn ?t)) (files_table (index (dmn ?t))))"
    using up lf_end by (rule rtranclp.rtrancl_into_rtrancl)
  from installation_stays_in_order [OF down f]
  obtain c where "stored_cache sample_config (disk_state (dmn ?t)) = Inr c" by auto
  with installation_stays_in_order [OF up f] up down show ?thesis by auto
qed

text \<open>C17. A start depends on nothing its predecessors did: at every moment at which no daemon runs, what was stored loads, as some cache \<open>c\<close>;
  a start either yields, for every path, the reconciliation of \<open>c\<close> with the vault and a first snapshot built from it, or it fails because
  \<open>Daemon.__init__\<close> or that reconciliation raised.\<close>

theorem every_start_reconciles:
  assumes "(life_step (L :: ('g, 't) lib) cf)\<^sup>*\<^sup>* (Down d None) (Down d' rows)"
    and "\<not> d_exists d (graph_cache_json (cf_paths cf))"
    and "next_start L cf rows now W d' = (d'', r)" "rglob_ok W (cf_root cf)"
  shows "\<exists>c. stored_cache cf d' = Inr c \<and>
    (case r of
       Inr new \<Rightarrow> (\<forall>q. path_ok q \<longrightarrow> entry_of (cache new) q = reconciled W cf c q)
         \<and> (\<exists>g. build_graph L (cache new) = Inr g \<and> current (holder new) = Some (fst (publish L g [] new_holder)))
     | Inl e \<Rightarrow> (\<exists>d1. init_daemon cf rows now d' = (d1, Inl e :: ('g, 't) daemon res))
         \<or> (\<exists>st h. cold_start L W (cf_root cf) (cf_nested cf)
              (\<lparr>x_cache = c, x_metrics = Some (new_metrics DEFAULT_LATENCY_WINDOW), x_log = []\<rparr>, new_holder) = ((st, h), Inl e)))"
proof -
  have "life_init cf (Down d None)" using assms(2) by (simp add: life_init_def)
  from life.reachable_inv [OF this assms(1)] obtain c where c: "stored_cache cf d' = Inr c" "cache_inv c"
    by (auto dest: good_file_loads)
  show ?thesis
  proof (cases r)
    case (Inl e)
    with start_fails_why [OF assms(3) [unfolded Inl] c(1)] c(1) show ?thesis by auto
  next
    case (Inr new)
    note n = assms(3) [unfolded Inr]
    from start_reconciles(2,4) [OF n assms(4) c] c(1) Inr show ?thesis by auto
  qed
qed

theorem every_start_reconciles_witness:
  "\<exists>d dm c. next_start sample_lib sample_config None 0 changed_world sample_disk = (d, Inr dm)
     \<and> entry_of (cache dm) (PyPath [] [pstr ''a.md'']) = reconciled changed_world sample_config c (PyPath [] [pstr ''a.md''])"
proof -
  from sample_next_start obtain d dm where n: "next_start sample_lib sample_config None 0 changed_world sample_disk = (d, Inr dm)"
    and g: "rglob_ok changed_world (cf_root sample_config)" by blast
  have f: "\<not> d_exists sample_disk (graph_cache_json (cf_paths sample_config))" by code_simp
  have "path_ok (PyPath [] [pstr ''a.md''])" by code_simp
  with every_start_reconciles [OF rtranclp.rtrancl_refl f n g] n show ?thesis by auto
qed

end
