(* ===== verification/Comparator.thy ===== *)
theory Comparator
  imports Vault_Extraction
begin

text \<open>
  \<open>migration/comparator.py\<close>: the diff of the node and edge sets of two \<open>graph.json\<close> files. The graph
  \<open>build_from_json\<close> makes of a file, and networkx's views of it, are parameters.
\<close>

record 'u graph_views =
  gv_build :: "json \<Rightarrow> 'u res"
  gv_nodes :: "'u \<Rightarrow> pystr list"
  gv_edges :: "'u \<Rightarrow> (pystr \<times> pystr) list"

record graph_diff =
  nodes_only_in_legacy :: "pystr set"
  nodes_only_in_new :: "pystr set"
  edges_only_in_legacy :: "(pystr \<times> pystr) set"
  edges_only_in_new :: "(pystr \<times> pystr) set"

definition compare_graph_jsons :: "'u graph_views \<Rightarrow> disk \<Rightarrow> pypath \<Rightarrow> pypath \<Rightarrow> graph_diff res" where
  "compare_graph_jsons V d legacy_path new_path =
     bindR (bindR (read_json legacy_path d) (gv_build V)) (\<lambda>legacy_graph.
     bindR (bindR (read_json new_path d) (gv_build V)) (\<lambda>new_graph.
       let legacy_nodes = set (gv_nodes V legacy_graph); new_nodes = set (gv_nodes V new_graph);
           legacy_edges = set (gv_edges V legacy_graph); new_edges = set (gv_edges V new_graph)
       in Inr \<lparr>nodes_only_in_legacy = legacy_nodes - new_nodes, nodes_only_in_new = new_nodes - legacy_nodes,
               edges_only_in_legacy = legacy_edges - new_edges, edges_only_in_new = new_edges - legacy_edges\<rparr>))"

text \<open>The graph a file describes, as the comparison sees it.\<close>

definition graph_of_file :: "'u graph_views \<Rightarrow> disk \<Rightarrow> pypath \<Rightarrow> (pystr set \<times> (pystr \<times> pystr) set) res" where
  "graph_of_file V d p =
     bindR (bindR (read_json p d) (gv_build V)) (\<lambda>g. Inr (set (gv_nodes V g), set (gv_edges V g)))"

text \<open>The report is a complete diff: comparing two readable files succeeds, its nodes and edges turn the legacy
  graph into the new one, it is empty exactly when both have the same nodes and edges, and comparing the
  other way round gives the same report with the sides exchanged.\<close>

theorem comparator_complete:
  assumes "graph_of_file V d p = Inr (ns, es)" "graph_of_file V d q = Inr (ns', es')"
  shows "\<exists>r. compare_graph_jsons V d p q = Inr r
    \<and> (ns - nodes_only_in_legacy r) \<union> nodes_only_in_new r = ns'
    \<and> (es - edges_only_in_legacy r) \<union> edges_only_in_new r = es'
    \<and> (r = \<lparr>nodes_only_in_legacy = {}, nodes_only_in_new = {}, edges_only_in_legacy = {}, edges_only_in_new = {}\<rparr>
        \<longleftrightarrow> ns = ns' \<and> es = es')
    \<and> compare_graph_jsons V d q p = Inr \<lparr>nodes_only_in_legacy = nodes_only_in_new r, nodes_only_in_new = nodes_only_in_legacy r,
        edges_only_in_legacy = edges_only_in_new r, edges_only_in_new = edges_only_in_legacy r\<rparr>"
proof -
  from assms have "compare_graph_jsons V d p q = Inr \<lparr>nodes_only_in_legacy = ns - ns', nodes_only_in_new = ns' - ns,
      edges_only_in_legacy = es - es', edges_only_in_new = es' - es\<rparr>"
    and "compare_graph_jsons V d q p = Inr \<lparr>nodes_only_in_legacy = ns' - ns, nodes_only_in_new = ns - ns',
      edges_only_in_legacy = es' - es, edges_only_in_new = es - es'\<rparr>"
    by (auto simp: compare_graph_jsons_def graph_of_file_def bindR_Inr_iff Let_def)
  then show ?thesis by auto
qed

text \<open>A reader of node-link files: the ids of \<open>nodes\<close>, no edges.\<close>

definition sample_views :: "pystr list graph_views" where
  "sample_views =
     \<lparr>gv_build = (\<lambda>j. case j of
          JArr xs \<Rightarrow> mapR (\<lambda>x. case x of JStr s \<Rightarrow> Inr s | _ \<Rightarrow> Inl (Exn TypeError [])) xs
        | _ \<Rightarrow> Inl (Exn TypeError [])),
      gv_nodes = id, gv_edges = (\<lambda>g. [])\<rparr>"

definition sample_graph_file :: "string \<Rightarrow> pypath" where
  "sample_graph_file name = PyPath [slash] [pstr name]"

definition sample_graphs :: disk where
  "sample_graphs = sample_disk\<lparr>d_files :=
     [(sample_graph_file ''old'', JsonFile (JArr [JStr (pstr ''a''), JStr (pstr ''b'')])),
      (sample_graph_file ''new'', JsonFile (JArr [JStr (pstr ''b'')]))]\<rparr>"

theorem comparator_complete_witness:
  "\<exists>r. compare_graph_jsons sample_views sample_graphs (sample_graph_file ''old'') (sample_graph_file ''new'') = Inr r
     \<and> ({pstr ''a'', pstr ''b''} - nodes_only_in_legacy r) \<union> nodes_only_in_new r = {pstr ''b''}"
proof -
  have "graph_of_file sample_views sample_graphs (sample_graph_file ''old'') = Inr ({pstr ''a'', pstr ''b''}, {})"
    "graph_of_file sample_views sample_graphs (sample_graph_file ''new'') = Inr ({pstr ''b''}, {})"
    by (simp_all add: graph_of_file_def sample_views_def sample_graphs_def sample_graph_file_def read_json_def)
  from comparator_complete [OF this] show ?thesis by blast
qed

end
