(* ===== verification/Clustering_Pipe.thy ===== *)
theory Clustering_Pipe
  imports Interfaces
begin

text \<open>
  The handshake of \<open>run_clustering_subprocess\<close> with its child (\<open>vault_compiler/clustering.py\<close>, and
  the decision record \<open>docs/adr/0003-drain-clustering-queue-before-join.md\<close>), as a step relation.
  The child's message of \<open>sz\<close> bytes crosses an operating-system pipe that holds \<open>cap\<close> bytes;
  the child cannot exit before its queue's feeder thread has written the last byte, and the parent reads the pipe
  only inside \<open>get\<close>. The parent is the list of blocking calls it has still to make, so that the
  order the code chose can be compared with the other one.
\<close>

section \<open>The handshake\<close>

datatype parent_call = GetResult | JoinTimed | Terminate | Join

text \<open>The calls of the code, and those it makes when \<open>get\<close>, or the join after it, times out.\<close>

definition parent_calls :: "parent_call list" where
  "parent_calls = [GetResult, JoinTimed]"

definition timeout_calls :: "parent_call list" where
  "timeout_calls = [Terminate, Join]"

text \<open>The order the decision record rejects.\<close>

definition join_first_calls :: "parent_call list" where
  "join_first_calls = [JoinTimed, GetResult]"

datatype child_run = ChildRunning | ChildExited | ChildKilled

record handshake =
  calls :: "parent_call list"
  unsent :: nat
  in_pipe :: nat
  received :: nat
  child :: child_run
  delivered :: bool

definition hs_start :: "parent_call list \<Rightarrow> nat \<Rightarrow> handshake" where
  "hs_start cs sz =
     \<lparr>calls = cs, unsent = sz, in_pipe = 0, received = 0, child = ChildRunning, delivered = False\<rparr>"

text \<open>\<open>timeouts\<close> says whether the parent's timeouts may elapse.\<close>

inductive hs_step :: "nat \<Rightarrow> nat \<Rightarrow> bool \<Rightarrow> handshake \<Rightarrow> handshake \<Rightarrow> bool"
  for cap :: nat and sz :: nat and timeouts :: bool where
  chunk_written: "child s = ChildRunning \<Longrightarrow> 0 < k \<Longrightarrow> k \<le> unsent s \<Longrightarrow> in_pipe s + k \<le> cap \<Longrightarrow>
     hs_step cap sz timeouts s (s\<lparr>unsent := unsent s - k, in_pipe := in_pipe s + k\<rparr>)"
| child_exits: "child s = ChildRunning \<Longrightarrow> unsent s = 0 \<Longrightarrow>
     hs_step cap sz timeouts s (s\<lparr>child := ChildExited\<rparr>)"
| chunk_read: "calls s = GetResult # cs \<Longrightarrow> 0 < k \<Longrightarrow> k \<le> in_pipe s \<Longrightarrow>
     hs_step cap sz timeouts s (s\<lparr>in_pipe := in_pipe s - k, received := received s + k\<rparr>)"
| got: "calls s = GetResult # cs \<Longrightarrow> received s = sz \<Longrightarrow>
     hs_step cap sz timeouts s (s\<lparr>calls := cs, delivered := True\<rparr>)"
| get_timeout: "timeouts \<Longrightarrow> calls s = GetResult # cs \<Longrightarrow>
     hs_step cap sz timeouts s (s\<lparr>calls := timeout_calls\<rparr>)"
| joined: "calls s = JoinTimed # cs \<Longrightarrow> child s \<noteq> ChildRunning \<Longrightarrow>
     hs_step cap sz timeouts s (s\<lparr>calls := cs\<rparr>)"
| join_timeout: "timeouts \<Longrightarrow> calls s = JoinTimed # cs \<Longrightarrow> child s = ChildRunning \<Longrightarrow>
     hs_step cap sz timeouts s (s\<lparr>calls := timeout_calls\<rparr>)"
| terminate: "calls s = Terminate # cs \<Longrightarrow>
     hs_step cap sz timeouts s
       (s\<lparr>calls := cs, child := (if child s = ChildRunning then ChildKilled else child s)\<rparr>)"
| reaped: "calls s = Join # cs \<Longrightarrow> child s \<noteq> ChildRunning \<Longrightarrow>
     hs_step cap sz timeouts s (s\<lparr>calls := cs\<rparr>)"

inductive_cases hs_stepE: "hs_step cap sz timeouts s t"

definition hs_final :: "handshake \<Rightarrow> bool" where
  "hs_final s \<longleftrightarrow> calls s = []"

section \<open>The code's order always finishes\<close>

text \<open>
  No byte is lost; a child that exited has sent everything; after \<open>get\<close> returned, everything
  was received; the result is missing only once a timeout elapsed.
\<close>

definition hs_inv :: "nat \<Rightarrow> bool \<Rightarrow> handshake \<Rightarrow> bool" where
  "hs_inv sz timeouts s \<longleftrightarrow>
     unsent s + in_pipe s + received s = sz \<and>
     (child s = ChildExited \<longrightarrow> unsent s = 0) \<and>
     (if calls s = parent_calls then \<not> delivered s \<and> child s \<noteq> ChildKilled
      else if calls s = [JoinTimed] then delivered s \<and> received s = sz \<and> child s \<noteq> ChildKilled
      else if calls s = timeout_calls then timeouts
      else if calls s = [Join] then timeouts \<and> child s \<noteq> ChildRunning
      else calls s = [] \<and> child s \<noteq> ChildRunning \<and> (timeouts \<or> delivered s \<and> received s = sz))"

fun call_weight :: "parent_call \<Rightarrow> nat" where
  "call_weight GetResult = 4"
| "call_weight JoinTimed = 3"
| "call_weight c = 1"

definition hs_todo :: "handshake \<Rightarrow> nat" where
  "hs_todo s = 2 * unsent s + in_pipe s + sum_list (map call_weight (calls s)) + of_bool (child s = ChildRunning)"

lemma hs_inv_start: "hs_inv sz timeouts (hs_start parent_calls sz)"
  by (simp add: hs_inv_def hs_start_def)

lemma hs_inv_calls:
  "hs_inv sz timeouts s \<Longrightarrow>
     calls s \<in> {parent_calls, [JoinTimed], timeout_calls, [Join], []}"
  by (auto simp: hs_inv_def split: if_splits)

lemma hs_step_inv: "hs_step cap sz timeouts s t \<Longrightarrow> hs_inv sz timeouts s \<Longrightarrow> hs_inv sz timeouts t"
  by (frule hs_inv_calls, cases rule: hs_step.cases, assumption)
    (auto simp: hs_inv_def parent_calls_def timeout_calls_def)

lemma hs_step_todo: "hs_step cap sz timeouts s t \<Longrightarrow> hs_inv sz timeouts s \<Longrightarrow> hs_todo t < hs_todo s"
  by (frule hs_inv_calls, cases rule: hs_step.cases, assumption)
    (auto simp: hs_todo_def hs_inv_def parent_calls_def timeout_calls_def)

lemma hs_progress:
  assumes "0 < cap" "hs_inv sz timeouts s" "\<not> hs_final s"
  shows "\<exists>t. hs_step cap sz timeouts s t"
proof (cases "child s = ChildRunning \<and> unsent s = 0 \<or> child s = ChildRunning \<and> 0 < unsent s \<and> in_pipe s < cap")
  case True
  then show ?thesis
  proof
    assume "child s = ChildRunning \<and> unsent s = 0"
    then show ?thesis by (blast intro: hs_step.child_exits)
  next
    assume "child s = ChildRunning \<and> 0 < unsent s \<and> in_pipe s < cap"
    then show ?thesis using hs_step.chunk_written [of s 1 cap sz timeouts] by fastforce
  qed
next
  case False
  from hs_inv_calls [OF assms(2)] assms(3) consider "calls s = parent_calls" | "calls s = [JoinTimed]"
    | "calls s = timeout_calls" | "calls s = [Join]" by (auto simp: hs_final_def)
  then show ?thesis
  proof cases
    case 1
    then have c: "calls s = GetResult # [JoinTimed]" by (simp add: parent_calls_def)
    show ?thesis
    proof (cases "in_pipe s = 0")
      case True
      with False assms(1) have "child s \<noteq> ChildRunning" by auto
      with assms(2) 1 True have "received s = sz"
        by (cases "child s") (auto simp: hs_inv_def)
      with c show ?thesis by (blast intro: hs_step.got)
    next
      case False
      then show ?thesis using hs_step.chunk_read [OF c, of "in_pipe s"] by blast
    qed
  next
    case 2
    with False assms(2) have "child s \<noteq> ChildRunning"
      by (auto simp: hs_inv_def parent_calls_def)
    with 2 show ?thesis by (blast intro: hs_step.joined)
  next
    case 3
    then show ?thesis by (auto simp: timeout_calls_def intro: hs_step.terminate)
  next
    case 4
    with assms(2) show ?thesis
      by (auto simp: hs_inv_def parent_calls_def timeout_calls_def intro: hs_step.reaped)
  qed
qed

text \<open>One interpretation for every capacity, message size and timeout regime.\<close>

lemma hs_terminating:
  assumes "0 < cap"
  shows "terminating_system (\<lambda>s. s = hs_start parent_calls sz) (hs_step cap sz timeouts)
    (hs_inv sz timeouts) hs_final hs_todo"
  by unfold_locales (auto simp: hs_inv_start hs_step_inv hs_step_todo hs_progress [OF assms])

interpretation pipe: terminating_system
  "\<lambda>s. s = hs_start parent_calls sz" "hs_step (Suc cap) sz timeouts" "hs_inv sz timeouts" hs_final hs_todo
  for sz cap timeouts
  by (rule hs_terminating) simp

lemma hs_final_outcome:
  "hs_inv sz timeouts s \<Longrightarrow> hs_final s \<Longrightarrow> child s \<noteq> ChildRunning \<and> (timeouts \<or> delivered s \<and> received s = sz)"
  by (auto simp: hs_inv_def hs_final_def parent_calls_def timeout_calls_def)

section \<open>The other order blocks\<close>

text \<open>Joining first, the parent reads nothing, so the pipe fills up and stays full.\<close>

definition jf_inv :: "nat \<Rightarrow> nat \<Rightarrow> handshake \<Rightarrow> bool" where
  "jf_inv cap sz s \<longleftrightarrow>
     calls s = join_first_calls \<and> child s = ChildRunning \<and> unsent s + in_pipe s = sz \<and> in_pipe s \<le> cap"

lemma jf_inv_start: "cap < sz \<Longrightarrow> jf_inv cap sz (hs_start join_first_calls sz)"
  by (simp add: jf_inv_def hs_start_def)

lemma jf_inv_step: "cap < sz \<Longrightarrow> jf_inv cap sz s \<Longrightarrow> hs_step cap sz False s t \<Longrightarrow> jf_inv cap sz t"
  by (erule hs_step.cases) (auto simp: jf_inv_def join_first_calls_def)

interpretation join_first: transition_system
  "\<lambda>s. s = hs_start join_first_calls (cap + Suc d)" "hs_step cap (cap + Suc d) False" "jf_inv cap (cap + Suc d)"
  for cap d
proof unfold_locales
  fix s t
  show "s = hs_start join_first_calls (cap + Suc d) \<Longrightarrow> jf_inv cap (cap + Suc d) s"
    by (simp add: jf_inv_start)
  show "jf_inv cap (cap + Suc d) s \<Longrightarrow> hs_step cap (cap + Suc d) False s t \<Longrightarrow> jf_inv cap (cap + Suc d) t"
    by (rule jf_inv_step) simp_all
qed

section \<open>Properties\<close>

text \<open>C8. Reading the result before joining never deadlocks: whatever the size of the message and the
  capacity of the pipe, a run of the code that cannot go on has finished, with the child gone and,
  when no timeout elapsed, with the whole message delivered; and from every state it reaches, it
  can finish.\<close>

theorem drain_first_finishes:
  assumes "0 < cap" "(hs_step cap sz timeouts)\<^sup>*\<^sup>* (hs_start parent_calls sz) s"
  shows "(\<exists>t. (hs_step cap sz timeouts)\<^sup>*\<^sup>* s t \<and> hs_final t) \<and>
    ((\<nexists>u. hs_step cap sz timeouts s u) \<longrightarrow>
       hs_final s \<and> child s \<noteq> ChildRunning \<and> (timeouts \<or> delivered s \<and> received s = sz))"
proof -
  from assms(1) obtain c where c: "cap = Suc c" using gr0_implies_Suc by blast
  with assms(2) have run: "(hs_step (Suc c) sz timeouts)\<^sup>*\<^sup>* (hs_start parent_calls sz) s" by simp
  have inv: "hs_inv sz timeouts s" by (rule pipe.reachable_inv [OF refl run])
  show ?thesis
    using pipe.reaches_final [OF inv, of c] pipe.stuck_is_final [OF refl run] hs_final_outcome [OF inv] c
    by blast
qed

theorem drain_first_finishes_witness:
  "(\<exists>t. (hs_step 4 9 False)\<^sup>*\<^sup>* (hs_start parent_calls 9) t \<and> hs_final t)"
  using drain_first_finishes [of 4 9 False "hs_start parent_calls 9"] by simp

text \<open>The order the decision record rejects does deadlock: joining first, with a message larger
  than the pipe and no timeout, no run ever finishes, and a run that fills the pipe is stuck for good.\<close>

theorem join_first_deadlocks:
  assumes "0 < cap" "cap < sz"
  shows "(\<forall>s. (hs_step cap sz False)\<^sup>*\<^sup>* (hs_start join_first_calls sz) s \<longrightarrow>
            \<not> hs_final s \<and> \<not> delivered s) \<and>
    (\<exists>s. (hs_step cap sz False)\<^sup>*\<^sup>* (hs_start join_first_calls sz) s \<and> (\<nexists>t. hs_step cap sz False s t))"
proof -
  obtain d where d: "sz = cap + Suc d" using assms(2) less_imp_Suc_add by auto
  have inv: "jf_inv cap sz s" if "(hs_step cap sz False)\<^sup>*\<^sup>* (hs_start join_first_calls sz) s" for s
    using join_first.reachable_inv [OF refl, of cap d s] that by (simp only: d)
  let ?s0 = "hs_start join_first_calls sz"
  let ?s1 = "?s0\<lparr>unsent := unsent ?s0 - cap, in_pipe := in_pipe ?s0 + cap\<rparr>"
  have "hs_step cap sz False ?s0 ?s1"
    by (rule hs_step.chunk_written) (use assms in \<open>simp_all add: hs_start_def\<close>)
  moreover have "\<nexists>t. hs_step cap sz False ?s1 t"
    using assms by (auto simp: hs_start_def join_first_calls_def elim!: hs_stepE)
  moreover have "\<not> delivered s" if "(hs_step cap sz False)\<^sup>*\<^sup>* ?s0 s" for s
    using that
  proof (induction rule: rtranclp_induct)
    case (step s t)
    from inv [OF step(1)] step(2,3) show ?case
      by (auto simp: jf_inv_def join_first_calls_def elim!: hs_stepE)
  qed (simp add: hs_start_def)
  ultimately show ?thesis
    using inv by (auto simp: hs_final_def jf_inv_def join_first_calls_def)
qed

theorem join_first_deadlocks_witness:
  "\<exists>s. (hs_step 65536 70000 False)\<^sup>*\<^sup>* (hs_start join_first_calls 70000) s \<and> (\<nexists>t. hs_step 65536 70000 False s t)"
  using join_first_deadlocks [of 65536 70000] by simp

end
