(* ===== verification/Synthetic_Graph.thy ===== *)
theory Synthetic_Graph
  imports Py_Numbers
begin

text \<open>
  \<open>benchmarks/synthetic_graph.py\<close>: the generator of the extraction that the benchmarks measure. \<open>random.Random\<close>
  is a record of two operations on its state, whose documented ranges are the law \<open>rng_ok\<close>: \<open>choice\<close> and
  \<open>randrange\<close> draw an index below a bound, \<open>random\<close> a number of the unit interval. The state the seed gives is an
  argument, so the same state gives the same graph. Numbers of nodes, edges and the cluster size are Python
  integers, of any sign.
\<close>

section \<open>The generator\<close>

record 's rng =
  rng_below :: "nat \<Rightarrow> 's \<Rightarrow> nat \<times> 's"
  rng_unit :: "'s \<Rightarrow> real \<times> 's"

definition rng_ok :: "'s rng \<Rightarrow> bool" where
  "rng_ok R \<longleftrightarrow> (\<forall>n s. 0 < n \<longrightarrow> fst (rng_below R n s) < n) \<and> (\<forall>s. 0 \<le> fst (rng_unit R s) \<and> fst (rng_unit R s) < 1)"

text \<open>\<open>rng.choice(xs)\<close> of a non-empty tuple, and \<open>rng.randrange(lo, hi)\<close>, which the code calls only for \<open>lo < hi\<close>.\<close>

definition rng_choice :: "'s rng \<Rightarrow> pystr list \<Rightarrow> 's \<Rightarrow> pystr \<times> 's" where
  "rng_choice R xs s = (case rng_below R (length xs) s of (i, s') \<Rightarrow> (xs ! i, s'))"

definition rng_range :: "'s rng \<Rightarrow> int \<Rightarrow> int \<Rightarrow> 's \<Rightarrow> int \<times> 's" where
  "rng_range R lo hi s = (case rng_below R (nat (hi - lo)) s of (i, s') \<Rightarrow> (lo + int i, s'))"

definition FILE_TYPES :: "pystr list" where
  "FILE_TYPES = map pstr [''code'', ''document'', ''concept'']"

definition RELATIONS :: "pystr list" where
  "RELATIONS = map pstr [''calls'', ''contains'', ''references'', ''imports'', ''defines'']"

definition CONFIDENCES :: "pystr list" where
  "CONFIDENCES = map pstr [''EXTRACTED'', ''INFERRED'', ''AMBIGUOUS'']"

definition NODES_PER_FILE :: int where
  "NODES_PER_FILE = 10"

record synthetic_params =
  node_count :: int
  edges_per_node :: int
  cluster_size :: int
  cross_cluster_probability :: real

definition default_params :: synthetic_params where
  "default_params = \<lparr>node_count = 21000, edges_per_node = 3, cluster_size = 15, cross_cluster_probability = 15 / 100\<rparr>"

definition node_id :: "int \<Rightarrow> pystr" where
  "node_id i = pstr ''node_'' @ py_str_int i"

definition source_file :: "int \<Rightarrow> pystr" where
  "source_file i = pstr ''synthetic/file_'' @ py_str_int (i div NODES_PER_FILE) @ pstr ''.md''"

definition source_location :: "int \<Rightarrow> pystr" where
  "source_location i = pstr ''L'' @ py_str_int (i mod NODES_PER_FILE + 1)"

definition synthetic_node :: "int \<Rightarrow> pystr \<Rightarrow> pyobj" where
  "synthetic_node i file_type =
     [(pstr ''id'', JStr (node_id i)), (pstr ''label'', JStr (pstr ''Node '' @ py_str_int i)), (pstr ''file_type'', JStr file_type),
      (pstr ''source_file'', JStr (source_file i)), (pstr ''source_location'', JStr (source_location i))]"

fun synthetic_nodes :: "'s rng \<Rightarrow> int list \<Rightarrow> 's \<Rightarrow> pyobj list \<times> 's" where
  "synthetic_nodes R [] s = ([], s)"
| "synthetic_nodes R (i # is) s =
     (case rng_choice R FILE_TYPES s of (file_type, s1) \<Rightarrow>
      case synthetic_nodes R is s1 of (ns, s2) \<Rightarrow> (synthetic_node i file_type # ns, s2))"

definition synthetic_edge :: "int \<Rightarrow> int \<Rightarrow> pystr \<Rightarrow> pystr \<Rightarrow> pyobj" where
  "synthetic_edge i target relation confidence =
     [(pstr ''source'', JStr (node_id i)), (pstr ''target'', JStr (node_id target)), (pstr ''relation'', JStr relation),
      (pstr ''confidence'', JStr confidence), (pstr ''source_file'', JStr (source_file i)),
      (pstr ''source_location'', JStr (source_location i)), (pstr ''weight'', JFloat 1)]"

text \<open>The cluster an edge goes to: the draw is made only when there is more than one cluster.\<close>

definition target_cluster :: "'s rng \<Rightarrow> synthetic_params \<Rightarrow> int \<Rightarrow> int \<Rightarrow> 's \<Rightarrow> int \<times> 's" where
  "target_cluster R P cluster_count i s =
     (let home = i div cluster_size P in
      if 1 < cluster_count then
        (case rng_unit R s of (u, s1) \<Rightarrow>
           if u < cross_cluster_probability P then rng_range R 0 cluster_count s1 else (home, s1))
      else (home, s))"

text \<open>One round of the inner loop: an edge, or a \<open>continue\<close>.\<close>

definition synthetic_round :: "'s rng \<Rightarrow> synthetic_params \<Rightarrow> int \<Rightarrow> int \<Rightarrow> 's \<Rightarrow> pyobj option \<times> 's" where
  "synthetic_round R P cluster_count i s =
     (case target_cluster R P cluster_count i s of (tc, s1) \<Rightarrow>
        let cluster_start = tc * cluster_size P; cluster_end = min (cluster_start + cluster_size P) (node_count P)
        in if cluster_end \<le> cluster_start then (None, s1)
           else (case rng_range R cluster_start cluster_end s1 of (target, s2) \<Rightarrow>
             if target = i then (None, s2)
             else (case rng_choice R RELATIONS s2 of (relation, s3) \<Rightarrow>
                   case rng_choice R CONFIDENCES s3 of (confidence, s4) \<Rightarrow>
                     (Some (synthetic_edge i target relation confidence), s4))))"

fun edges_of_node :: "'s rng \<Rightarrow> synthetic_params \<Rightarrow> int \<Rightarrow> int \<Rightarrow> nat \<Rightarrow> 's \<Rightarrow> pyobj list \<times> 's" where
  "edges_of_node R P cc i 0 s = ([], s)"
| "edges_of_node R P cc i (Suc k) s =
     (case synthetic_round R P cc i s of (e, s1) \<Rightarrow>
      case edges_of_node R P cc i k s1 of (es, s2) \<Rightarrow>
        ((case e of None \<Rightarrow> es | Some x \<Rightarrow> x # es), s2))"

fun synthetic_edges :: "'s rng \<Rightarrow> synthetic_params \<Rightarrow> int \<Rightarrow> int list \<Rightarrow> 's \<Rightarrow> pyobj list \<times> 's" where
  "synthetic_edges R P cc [] s = ([], s)"
| "synthetic_edges R P cc (i # is) s =
     (case edges_of_node R P cc i (nat (edges_per_node P)) s of (es, s1) \<Rightarrow>
      case synthetic_edges R P cc is s1 of (fs, s2) \<Rightarrow> (es @ fs, s2))"

text \<open>\<open>max(1, -(-node_count // cluster_size))\<close>; a cluster size of zero is a \<open>ZeroDivisionError\<close>.\<close>

definition generate_synthetic_extraction :: "'s rng \<Rightarrow> synthetic_params \<Rightarrow> 's \<Rightarrow> (pyobj list \<times> pyobj list) res" where
  "generate_synthetic_extraction R P seeded =
     (if cluster_size P = 0 then Inl (Exn OtherException (pstr ''integer division or modulo by zero''))
      else let cluster_count = max 1 (- (- node_count P div cluster_size P));
               (nodes, s1) = synthetic_nodes R [0..node_count P - 1] seeded;
               (edges, s2) = synthetic_edges R P cluster_count [0..node_count P - 1] s1
           in Inr (nodes, edges))"

section \<open>What it generates\<close>

lemma nodes_shape:
  "length (fst (synthetic_nodes R is s)) = length is
   \<and> (\<forall>k < length is. \<exists>ft. fst (synthetic_nodes R is s) ! k = synthetic_node (is ! k) ft)"
proof (induction "is" arbitrary: s)
  case (Cons i "is")
  obtain ft s1 where c: "rng_choice R FILE_TYPES s = (ft, s1)" by (metis surjective_pairing)
  obtain ns s2 where n: "synthetic_nodes R is s1 = (ns, s2)" by (metis surjective_pairing)
  from Cons.IH [of s1] c n show ?case by (auto simp: nth_Cons split: nat.split)
qed simp

text \<open>An edge from \<open>i\<close>: to another node, within the bounds, with the provenance of \<open>i\<close>.\<close>

definition edge_from :: "synthetic_params \<Rightarrow> bool \<Rightarrow> int \<Rightarrow> pyobj \<Rightarrow> bool" where
  "edge_from P inside i e \<longleftrightarrow> (\<exists>j relation confidence. e = synthetic_edge i j relation confidence
     \<and> 0 \<le> j \<and> j < node_count P \<and> j \<noteq> i \<and> (inside \<longrightarrow> j div cluster_size P = i div cluster_size P))"

lemma edge_from_mono: "edge_from P inside i e \<Longrightarrow> (inside' \<Longrightarrow> inside) \<Longrightarrow> edge_from P inside' i e"
  by (auto simp: edge_from_def)

lemma rng_range_bounds: "rng_ok R \<Longrightarrow> lo < hi \<Longrightarrow> rng_range R lo hi s = (v, s') \<Longrightarrow> lo \<le> v \<and> v < hi"
proof -
  assume h: "rng_ok R" "lo < hi" "rng_range R lo hi s = (v, s')"
  obtain i s1 where d: "rng_below R (nat (hi - lo)) s = (i, s1)" by (metis surjective_pairing)
  have "0 < nat (hi - lo)" using h(2) by simp
  then have "i < nat (hi - lo)" using h(1) d unfolding rng_ok_def by (metis fst_conv)
  with h(3) d show "lo \<le> v \<and> v < hi" by (auto simp: rng_range_def)
qed

lemma target_cluster_bounds:
  assumes "rng_ok R" "0 < cluster_size P" "0 \<le> i" "target_cluster R P cc i s = (tc, s')"
  shows "0 \<le> tc \<and> (cc \<le> 1 \<or> cross_cluster_probability P \<le> 0 \<longrightarrow> tc = i div cluster_size P)"
proof -
  have "0 \<le> i div cluster_size P" using assms(2,3) by (simp add: pos_imp_zdiv_nonneg_iff)
  moreover have "0 \<le> fst (rng_unit R s)" using assms(1) by (simp add: rng_ok_def)
  moreover have "0 \<le> v" if "rng_range R 0 cc s1 = (v, s2)" "1 < cc" for v s1 s2
    using rng_range_bounds [OF assms(1) _ that(1)] that(2) by simp
  ultimately show ?thesis
    using assms(4) by (auto simp: target_cluster_def Let_def split: if_splits prod.splits)
qed

lemma round_edge:
  assumes "rng_ok R" "0 < cluster_size P" "0 \<le> i" "synthetic_round R P cc i s = (Some e, s')"
  shows "edge_from P (cc \<le> 1 \<or> cross_cluster_probability P \<le> 0) i e"
proof -
  obtain tc s1 where t: "target_cluster R P cc i s = (tc, s1)" by (metis surjective_pairing)
  let ?lo = "tc * cluster_size P" and ?hi = "min (tc * cluster_size P + cluster_size P) (node_count P)"
  obtain target s2 where r: "rng_range R ?lo ?hi s1 = (target, s2)" by (metis surjective_pairing)
  from assms(4) t r have lt: "?lo < ?hi" and ne: "target \<noteq> i"
    and e: "\<exists>relation confidence. e = synthetic_edge i target relation confidence"
    by (auto simp: synthetic_round_def Let_def split: if_splits prod.splits)
  from rng_range_bounds [OF assms(1) lt r] have b: "?lo \<le> target" "target < ?hi" by simp_all
  from target_cluster_bounds [OF assms(1-3) t] have tc: "0 \<le> tc"
    "cc \<le> 1 \<or> cross_cluster_probability P \<le> 0 \<longrightarrow> tc = i div cluster_size P" by simp_all
  have "target div cluster_size P = tc"
    using b assms(2) by (intro int_div_pos_eq [of _ _ _ "target - ?lo"]) (simp_all add: mult.commute)
  moreover have "0 \<le> target" using b(1) tc(1) assms(2) by (meson less_imp_le mult_nonneg_nonneg order_trans)
  ultimately show ?thesis using e ne b(2) tc(2) by (auto simp: edge_from_def)
qed

lemma node_edges:
  assumes "rng_ok R" "0 < cluster_size P" "0 \<le> i"
  shows "length (fst (edges_of_node R P cc i k s)) \<le> k
    \<and> (\<forall>e \<in> set (fst (edges_of_node R P cc i k s)). edge_from P (cc \<le> 1 \<or> cross_cluster_probability P \<le> 0) i e)"
proof (induction k arbitrary: s)
  case (Suc k)
  obtain eo s1 where r: "synthetic_round R P cc i s = (eo, s1)" by (metis surjective_pairing)
  obtain es s2 where k: "edges_of_node R P cc i k s1 = (es, s2)" by (metis surjective_pairing)
  have "edge_from P (cc \<le> 1 \<or> cross_cluster_probability P \<le> 0) i e" if "eo = Some e" for e
    using round_edge [OF assms] r that by blast
  with Suc.IH [of s1] r k show ?case by (auto split: option.split)
qed simp

lemma all_edges:
  assumes "rng_ok R" "0 < cluster_size P" "\<forall>i \<in> set is. 0 \<le> i"
  shows "length (fst (synthetic_edges R P cc is s)) \<le> length is * nat (edges_per_node P)
    \<and> (\<forall>e \<in> set (fst (synthetic_edges R P cc is s)).
         \<exists>i \<in> set is. edge_from P (cc \<le> 1 \<or> cross_cluster_probability P \<le> 0) i e)"
  using assms(3)
proof (induction "is" arbitrary: s)
  case (Cons i "is")
  obtain es s1 where n: "edges_of_node R P cc i (nat (edges_per_node P)) s = (es, s1)" by (metis surjective_pairing)
  obtain fs s2 where r: "synthetic_edges R P cc is s1 = (fs, s2)" by (metis surjective_pairing)
  from node_edges [OF assms(1,2), of i cc "nat (edges_per_node P)" s] Cons.prems n
  have "length es \<le> nat (edges_per_node P)" "\<forall>e \<in> set es. edge_from P (cc \<le> 1 \<or> cross_cluster_probability P \<le> 0) i e" by simp_all
  with Cons.IH [of s1] Cons.prems n r show ?case by auto
qed simp

section \<open>Properties\<close>


text \<open>A counter as the source of randomness.\<close>

definition counting_rng :: "nat rng" where
  "counting_rng = \<lparr>rng_below = (\<lambda>n s. (s mod n, s + 1)), rng_unit = (\<lambda>s. (0, s + 1))\<rparr>"


end
