(* ===== verification/Benchmarks.thy ===== *)
theory Benchmarks
  imports Synthetic_Graph Observability Clustering
begin

text \<open>
  The two benchmark scripts, \<open>benchmarks/bench_query_latency.py\<close> and \<open>benchmarks/bench_clustering.py\<close>: the inputs they measure, the
  measurement, and the figures they print. The readings of \<open>time.monotonic()\<close> are a function of how many were taken before. \<open>argparse\<close>
  and the formatting of what is printed are left out.
\<close>

section \<open>bench_query_latency.py\<close>

definition DEFAULT_ITERATIONS :: int where
  "DEFAULT_ITERATIONS = 500"

definition BENCH_ARGUMENTS :: "(string \<times> pyobj) list" where
  "BENCH_ARGUMENTS =
     [(''query_graph'', [(pstr ''question'', JStr (pstr ''Node 1''))]),
      (''get_node'', [(pstr ''label'', JStr (pstr ''Node 1''))]),
      (''get_neighbors'', [(pstr ''label'', JStr (pstr ''Node 1''))]),
      (''get_community'', [(pstr ''community_id'', JInt 0)]),
      (''god_nodes'', []),
      (''graph_stats'', []),
      (''shortest_path'', [(pstr ''source'', JStr (pstr ''Node 1'')), (pstr ''target'', JStr (pstr ''Node 2''))])]"

definition build_snapshot :: "('g, 't) lib \<Rightarrow> 's rng \<Rightarrow> int \<Rightarrow> 's \<Rightarrow> ('g, 't) graph_snapshot res" where
  "build_snapshot L R n_nodes seeded =
     bindR (generate_synthetic_extraction R (default_params\<lparr>synthetic_params.node_count := n_nodes\<rparr>) seeded) (\<lambda>(nodes, edges).
     bindR (l_build L (map JObj nodes) (map JObj edges)) (\<lambda>g.
     bindR (l_cluster L g) (\<lambda>communities.
       case get_trigram_index L g of (trigrams, g') \<Rightarrow>
         Inr \<lparr>graph = g', trigram_index = trigrams, community_map = communities, version = 1\<rparr>)))"

text \<open>The inner loop: \<open>k\<close> readings of the clock have been taken.\<close>

fun measure_tool ::
  "('g, 't) lib \<Rightarrow> (nat \<Rightarrow> real) \<Rightarrow> ('g, 't) graph_snapshot \<Rightarrow> string \<Rightarrow> pyobj \<Rightarrow> nat \<Rightarrow> nat \<times> metrics \<Rightarrow> (nat \<times> metrics) res" where
  "measure_tool L clock snapshot name arguments 0 s = Inr s"
| "measure_tool L clock snapshot name arguments (Suc n) (k, m) =
     bindR (execute_tool L (pstr name) arguments snapshot) (\<lambda>text.
       measure_tool L clock snapshot name arguments n (k + 2, record_latency name (clock (k + 1) - clock k) m))"

fun measure_tools ::
  "('g, 't) lib \<Rightarrow> (nat \<Rightarrow> real) \<Rightarrow> ('g, 't) graph_snapshot \<Rightarrow> nat \<Rightarrow> (string \<times> pyobj) list \<Rightarrow> nat \<times> metrics \<Rightarrow> (nat \<times> metrics) res" where
  "measure_tools L clock snapshot n [] s = Inr s"
| "measure_tools L clock snapshot n ((name, arguments) # ts) s =
     bindR (measure_tool L clock snapshot name arguments n s) (measure_tools L clock snapshot n ts)"

text \<open>\<open>range(iterations)\<close> is empty for a number that is not positive; the window is not used then.\<close>

definition run_benchmark :: "('g, 't) lib \<Rightarrow> (nat \<Rightarrow> real) \<Rightarrow> ('g, 't) graph_snapshot \<Rightarrow> int \<Rightarrow> metrics res" where
  "run_benchmark L clock snapshot iterations =
     bindR (measure_tools L clock snapshot (nat iterations) BENCH_ARGUMENTS (0, new_metrics (nat iterations))) (\<lambda>(k, m). Inr m)"

text \<open>The table: one row per tool, in milliseconds.\<close>

definition latency_rows :: "metrics \<Rightarrow> (string \<times> real \<times> real \<times> real) list" where
  "latency_rows m =
     map (\<lambda>(name, arguments). let p = latency_percentiles m name in (name, p50 p * 1000, p95 p * 1000, p99 p * 1000)) BENCH_ARGUMENTS"

text \<open>The command line gives a size, a seed and a number of iterations, or leaves them out; \<open>seeding\<close> is \<open>random.Random\<close>.\<close>

definition DEFAULT_SEED :: int where
  "DEFAULT_SEED = 42"

definition arg_or :: "'a \<Rightarrow> 'a option \<Rightarrow> 'a" where
  "arg_or dflt a = (case a of None \<Rightarrow> dflt | Some x \<Rightarrow> x)"

text \<open>What is printed: the nodes, edges and communities of the graph, then the table.\<close>

definition bench_query_latency ::
  "('g, 't) lib \<Rightarrow> 's rng \<Rightarrow> (int \<Rightarrow> 's) \<Rightarrow> (nat \<Rightarrow> real) \<Rightarrow> int option \<Rightarrow> int option \<Rightarrow> int option
     \<Rightarrow> ((nat \<times> nat \<times> nat) \<times> (string \<times> real \<times> real \<times> real) list) res" where
  "bench_query_latency L R seeding clock size_arg seed_arg iterations_arg =
     bindR (build_snapshot L R (arg_or (synthetic_params.node_count default_params) size_arg) (seeding (arg_or DEFAULT_SEED seed_arg)))
       (\<lambda>snapshot.
     bindR (run_benchmark L clock snapshot (arg_or DEFAULT_ITERATIONS iterations_arg)) (\<lambda>m.
       Inr ((length (l_nodes L (graph snapshot)), length (l_edges L (graph snapshot)), length (community_map snapshot)), latency_rows m)))"

section \<open>bench_clustering.py\<close>

definition RUNS :: nat where
  "RUNS = 5"

text \<open>\<open>children\<close> are the child processes of the runs; a row is a duration and a number of communities.\<close>

fun clustering_runs :: "('g, 't) lib \<Rightarrow> (nat \<Rightarrow> real) \<Rightarrow> (nat \<Rightarrow> child_env) \<Rightarrow> 'g \<Rightarrow> nat list \<Rightarrow> (real \<times> nat) list res" where
  "clustering_runs L clock children g [] = Inr []"
| "clustering_runs L clock children g (i # is) =
     bindR (run_clustering_subprocess L (children i) DEFAULT_CLUSTERING_TIMEOUT_SECONDS g) (\<lambda>(result, p, logs).
     bindR (clustering_runs L clock children g is) (\<lambda>rows.
       Inr ((clock (2 * i + 1) - clock (2 * i), case result of None \<Rightarrow> 0 | Some cm \<Rightarrow> length cm) # rows)))"

record clustering_report =
  runs :: "(real \<times> nat) list"
  run_min :: real
  run_mean :: real
  run_max :: real

definition report_of :: "(real \<times> nat) list \<Rightarrow> clustering_report" where
  "report_of rows =
     (let durations = map fst rows
      in \<lparr>runs = rows, run_min = Min (set durations), run_mean = sum_list durations / real (length durations),
          run_max = Max (set durations)\<rparr>)"

definition bench_clustering ::
  "('g, 't) lib \<Rightarrow> 's rng \<Rightarrow> (int \<Rightarrow> 's) \<Rightarrow> (nat \<Rightarrow> real) \<Rightarrow> (nat \<Rightarrow> child_env) \<Rightarrow> int option \<Rightarrow> int option
     \<Rightarrow> ((nat \<times> nat) \<times> clustering_report) res" where
  "bench_clustering L R seeding clock children size_arg seed_arg =
     bindR (generate_synthetic_extraction R
         (default_params\<lparr>synthetic_params.node_count := arg_or (synthetic_params.node_count default_params) size_arg\<rparr>)
         (seeding (arg_or DEFAULT_SEED seed_arg))) (\<lambda>(nodes, edges).
     bindR (l_build L (map JObj nodes) (map JObj edges)) (\<lambda>g.
     bindR (clustering_runs L clock children g [0..<RUNS]) (\<lambda>rows.
       Inr ((length (l_nodes L g), length (l_edges L g)), report_of rows))))"

section \<open>What is measured\<close>

lemma record_latency_other: "b \<noteq> a \<Longrightarrow> dict_get (latencies (record_latency a x m)) b [] = dict_get (latencies m) b []"
  by (simp add: record_latency_def Let_def dict_get_def dict_simps)

lemma record_latency_window [simp]: "latency_window (record_latency a x m) = latency_window m"
  by (simp add: record_latency_def Let_def)

lemma record_latencies_frames:
  "latency_window (fold (record_latency a) xs m) = latency_window m"
  "b \<noteq> a \<Longrightarrow> dict_get (latencies (fold (record_latency a) xs m)) b [] = dict_get (latencies m) b []"
  by (induction xs arbitrary: m) (simp_all add: record_latency_other)

text \<open>The durations of \<open>n\<close> calls when \<open>k\<close> readings have been taken before.\<close>

definition durations :: "(nat \<Rightarrow> real) \<Rightarrow> nat \<Rightarrow> nat \<Rightarrow> real list" where
  "durations clock k n = map (\<lambda>j. clock (k + 2 * j + 1) - clock (k + 2 * j)) [0..<n]"

lemma durations_0 [simp]: "durations clock k 0 = []"
  by (simp add: durations_def)

lemma durations_Suc: "durations clock k (Suc n) = (clock (k + 1) - clock k) # durations clock (k + 2) n"
proof -
  have "[0..<Suc n] = 0 # map Suc [0..<n]" by (simp add: map_Suc_upt upt_conv_Cons del: upt_Suc)
  then show ?thesis by (simp add: durations_def add.assoc del: upt_Suc)
qed

lemma measure_tool_result:
  "measure_tool L clock snapshot name arguments n (k, m) =
     (if n = 0 then Inr (k, m)
      else bindR (execute_tool L (pstr name) arguments snapshot) (\<lambda>text.
        Inr (k + 2 * n, fold (record_latency name) (durations clock k n) m)))"
proof (induction n arbitrary: k m)
  case (Suc n)
  then show ?case
    by (cases "execute_tool L (pstr name) arguments snapshot") (auto simp: durations_Suc)
qed simp

lemma measure_tool_Inr:
  assumes "measure_tool L clock snapshot name arguments n (k, m) = Inr (k', m')"
  shows "k' = k + 2 * n" "m' = fold (record_latency name) (durations clock k n) m"
  using assms unfolding measure_tool_result
  by (auto simp: bindR_Inr_iff split: if_splits)

lemma measure_tools_other:
  "measure_tools L clock snapshot n ts (k, m) = Inr (k', m') \<Longrightarrow> b \<notin> fst ` set ts \<Longrightarrow>
     latency_window m' = latency_window m \<and> dict_get (latencies m') b [] = dict_get (latencies m) b []"
proof (induction ts arbitrary: k m)
  case (Cons t ts)
  obtain name args where t: "t = (name, args)" by (cases t)
  from Cons.prems(1) obtain k1 m1 where one: "measure_tool L clock snapshot name args n (k, m) = Inr (k1, m1)"
    and rest: "measure_tools L clock snapshot n ts (k1, m1) = Inr (k', m')"
    by (auto simp: t bindR_Inr_iff)
  from Cons.IH [OF rest] Cons.prems(2) record_latencies_frames measure_tool_Inr(2) [OF one] show ?case by (auto simp: t)
qed simp

lemma measure_tools_each:
  assumes "measure_tools L clock snapshot n ts (k, m) = Inr (k', m')" "distinct (map fst ts)" "i < length ts"
    and "\<forall>t \<in> set ts. dict_get (latencies m) (fst t) [] = []" "latency_window m = n"
  shows "dict_get (latencies m') (fst (ts ! i)) [] = durations clock (k + 2 * n * i) n"
  using assms
proof (induction ts arbitrary: k m i)
  case (Cons t ts)
  obtain name args where t: "t = (name, args)" by (cases t)
  from Cons.prems(1) obtain k1 m1 where one: "measure_tool L clock snapshot name args n (k, m) = Inr (k1, m1)"
    and rest: "measure_tools L clock snapshot n ts (k1, m1) = Inr (k', m')"
    by (auto simp: t bindR_Inr_iff)
  note m1 = measure_tool_Inr [OF one]
  show ?case
  proof (cases i)
    case 0
    have "name \<notin> fst ` set ts" using Cons.prems(2) by (simp add: t)
    from measure_tools_other [OF rest this] have "dict_get (latencies m') name [] = dict_get (latencies m1) name []" by simp
    also have "\<dots> = durations clock k n"
      using Cons.prems(4,5) deque_append_fold [of "[]" n "durations clock k n"]
      by (simp add: m1(2) latency_fold t) (simp add: durations_def)
    finally show ?thesis by (simp add: 0 t)
  next
    case (Suc j)
    have "\<forall>u \<in> set ts. dict_get (latencies m1) (fst u) [] = []"
    proof
      fix u
      assume u: "u \<in> set ts"
      then have "fst u \<noteq> name" using Cons.prems(2) by (auto simp: t)
      with u Cons.prems(4) show "dict_get (latencies m1) (fst u) [] = []" by (simp add: m1(2) record_latencies_frames(2))
    qed
    from Cons.IH [OF rest _ _ this] Cons.prems(2,3,5) show ?thesis
      by (simp add: Suc m1 record_latencies_frames(1) algebra_simps)
  qed
qed simp

lemma bench_names: "map fst BENCH_ARGUMENTS = map tool_name TOOL_DEFINITIONS"
  unfolding tool_names by (simp add: BENCH_ARGUMENTS_def)

lemma bench_names_distinct: "distinct (map fst BENCH_ARGUMENTS)" "length BENCH_ARGUMENTS = 7"
  by (simp_all add: BENCH_ARGUMENTS_def)

text \<open>The measurement ends with an exception exactly if a tool raises.\<close>

lemma measure_tools_returns:
  "(\<exists>r. measure_tools L clock snapshot n ts s = Inr r) \<longleftrightarrow>
     n = 0 \<or> (\<forall>(name, arguments) \<in> set ts. \<exists>text. execute_tool L (pstr name) arguments snapshot = Inr text)"
proof (induction ts arbitrary: s)
  case (Cons t ts)
  obtain name args where t: "t = (name, args)" by (cases t)
  obtain k m where s: "s = (k, m)" by (cases s)
  show ?case
    using Cons.IH by (cases "execute_tool L (pstr name) args snapshot") (auto simp: t s measure_tool_result)
qed simp

lemma run_benchmark_returns:
  "(\<exists>m. run_benchmark L clock snapshot iterations = Inr m) \<longleftrightarrow>
     iterations \<le> 0 \<or> (\<forall>(name, arguments) \<in> set BENCH_ARGUMENTS. \<exists>text. execute_tool L (pstr name) arguments snapshot = Inr text)"
  using measure_tools_returns [of L clock snapshot "nat iterations" BENCH_ARGUMENTS "(0, new_metrics (nat iterations))"]
  by (auto simp: run_benchmark_def bindR_Inr_iff)

section \<open>Properties\<close>

text \<open>The latency benchmark measures what it says: it calls each of the seven tools the server offers, each as often as
  asked, in their order; no call's duration is missing from a tool's window or counted for another tool; and the three figures of a row
  are the median, the 95th and the 99th percentile of exactly these durations, in milliseconds.\<close>

theorem benchmark_measures_every_call:
  assumes "run_benchmark L clock snapshot iterations = Inr m" "0 < iterations" "i < 7"
    and "latency_rows m ! i = (name, a, b, c)" "ds = durations clock (2 * nat iterations * i) (nat iterations)"
  shows "name = tool_name (TOOL_DEFINITIONS ! i) \<and> dict_get (latencies m) name [] = ds
    \<and> has_rank ds (50 / 100) (a / 1000) \<and> has_rank ds (95 / 100) (b / 1000) \<and> has_rank ds (99 / 100) (c / 1000)"
proof -
  let ?n = "nat iterations"
  from assms(1) obtain k where r: "measure_tools L clock snapshot ?n BENCH_ARGUMENTS (0, new_metrics ?n) = Inr (k, m)"
    by (auto simp: run_benchmark_def bindR_Inr_iff)
  have z: "\<forall>t \<in> set BENCH_ARGUMENTS. dict_get (latencies (new_metrics ?n)) (fst t) [] = []" "latency_window (new_metrics ?n) = ?n"
    by (simp_all add: new_metrics_def dict_get_def)
  have row: "name = fst (BENCH_ARGUMENTS ! i)" "a = p50 (latency_percentiles m name) * 1000"
    "b = p95 (latency_percentiles m name) * 1000" "c = p99 (latency_percentiles m name) * 1000"
    using assms(3,4) bench_names_distinct(2) by (auto simp: latency_rows_def Let_def case_prod_unfold)
  have d: "dict_get (latencies m) name [] = ds"
    using measure_tools_each [OF r bench_names_distinct(1) _ z] assms(3,5) bench_names_distinct(2) by (simp add: row(1))
  have "name = tool_name (TOOL_DEFINITIONS ! i)"
    using arg_cong [OF bench_names, of "\<lambda>xs. xs ! i"] assms(3) bench_names_distinct(2) arg_cong [OF bench_names, of length]
    by (simp add: row(1))
  moreover have "ds \<noteq> []" using assms(2,5) by (simp add: durations_def)
  ultimately show ?thesis using latency_percentiles_rank [OF d _ refl] d row by simp
qed

definition bench_snapshot :: "(sample_graph, nat) graph_snapshot" where
  "bench_snapshot = \<lparr>graph = ([(pstr ''n'', [(pstr ''label'', JStr (pstr ''Node 1''))])], []), trigram_index = 0,
     community_map = [(0, [pstr ''n''])], version = 1\<rparr>"

theorem benchmark_measures_every_call_witness:
  "\<exists>m. run_benchmark sample_lib real bench_snapshot 3 = Inr m \<and> dict_get (latencies m) ''get_node'' [] = [1, 1, 1]"
proof -
  have "list_all (\<lambda>(name, arguments). \<not> isl (execute_tool sample_lib (pstr name) arguments bench_snapshot)) BENCH_ARGUMENTS"
    by code_simp
  then have "\<forall>(name, arguments) \<in> set BENCH_ARGUMENTS. \<exists>text. execute_tool sample_lib (pstr name) arguments bench_snapshot = Inr text"
    by (auto simp: list_all_iff dest!: not_isl)
  then obtain m where m: "run_benchmark sample_lib real bench_snapshot 3 = Inr m"
    using run_benchmark_returns [of sample_lib real bench_snapshot 3] by blast
  obtain name a b c where r: "latency_rows m ! 1 = (name, a, b, c)" by (metis prod_cases4)
  from benchmark_measures_every_call [OF m _ _ r refl] m show ?thesis
    by (auto simp: TOOL_DEFINITIONS_def durations_Suc numeral_3_eq_3)
qed

text \<open>The clustering benchmark reports five runs, and its minimum, mean and maximum are in order and those of the runs.\<close>

lemma clustering_runs_length: "clustering_runs L clock children g is = Inr rows \<Longrightarrow> length rows = length is"
  by (induction "is" arbitrary: rows) (auto simp: bindR_Inr_iff)

lemma mean_between:
  fixes xs :: "real list"
  assumes "xs \<noteq> []"
  shows "Min (set xs) \<le> sum_list xs / real (length xs)" "sum_list xs / real (length xs) \<le> Max (set xs)"
proof -
  have l: "0 < real (length xs)" using assms by simp
  have "sum_list (map (\<lambda>x. Min (set xs)) xs) \<le> sum_list (map (\<lambda>x. x) xs)" by (rule sum_list_mono) simp
  then show "Min (set xs) \<le> sum_list xs / real (length xs)" using l by (simp add: sum_list_triv le_divide_eq mult.commute)
  have "sum_list (map (\<lambda>x. x) xs) \<le> sum_list (map (\<lambda>x. Max (set xs)) xs)" by (rule sum_list_mono) simp
  then show "sum_list xs / real (length xs) \<le> Max (set xs)" using l by (simp add: sum_list_triv divide_le_eq mult.commute)
qed

theorem clustering_report_in_order:
  assumes "bench_clustering L R seeding clock children size_arg seed_arg = Inr (summary, r)"
  shows "length (runs r) = 5 \<and> run_min r \<le> run_mean r \<and> run_mean r \<le> run_max r
    \<and> run_min r \<in> fst ` set (runs r) \<and> run_max r \<in> fst ` set (runs r)"
proof -
  from assms obtain g rows where w: "clustering_runs L clock children g [0..<RUNS] = Inr rows" and r: "r = report_of rows"
    by (auto simp: bench_clustering_def bindR_Inr_iff)
  have l: "length rows = 5" using clustering_runs_length [OF w] by (simp add: RUNS_def)
  then have ne: "map fst rows \<noteq> []" by auto
  from Min_in [of "set (map fst rows)"] Max_in [of "set (map fst rows)"] ne
  have "Min (set (map fst rows)) \<in> fst ` set rows" "Max (set (map fst rows)) \<in> fst ` set rows" by auto
  with mean_between [OF ne] l show ?thesis by (simp add: r report_of_def Let_def)
qed

theorem clustering_report_in_order_witness:
  "\<exists>summary r. bench_clustering sample_lib counting_rng (\<lambda>seed. 0) real (\<lambda>i. sample_child) (Some 4) None = Inr (summary, r)
     \<and> length (runs r) = 5 \<and> run_min r \<le> run_mean r"
proof -
  have one: "\<exists>cm p logs. run_clustering_subprocess sample_lib sample_child DEFAULT_CLUSTERING_TIMEOUT_SECONDS g = Inr (cm, p, logs)" for g
    by (cases "cluster_worker sample_lib g") (simp_all add: run_clustering_subprocess_def sample_child_def Let_def)
  have runs: "\<exists>rows. clustering_runs sample_lib real (\<lambda>i. sample_child) g is = Inr rows" for g "is"
    using one [of g] by (induction "is") auto
  obtain nodes edges where e: "generate_synthetic_extraction counting_rng (default_params\<lparr>synthetic_params.node_count := 4\<rparr>) 0 = Inr (nodes, edges)"
    by (cases "generate_synthetic_extraction counting_rng (default_params\<lparr>synthetic_params.node_count := 4\<rparr>) 0")
      (auto simp: generate_synthetic_extraction_def default_params_def Let_def split: prod.splits)
  have b: "\<exists>g. l_build sample_lib ns es = Inr g" for ns es by (simp add: sample_lib_def)
  then obtain g where g: "l_build sample_lib (map JObj nodes) (map JObj edges) = Inr g" by blast
  from runs [of g "[0..<RUNS]"] obtain rows where "clustering_runs sample_lib real (\<lambda>i. sample_child) g [0..<RUNS] = Inr rows" by blast
  with e g obtain summary r
    where "bench_clustering sample_lib counting_rng (\<lambda>seed. 0) real (\<lambda>i. sample_child) (Some 4) None = Inr (summary, r)"
    by (simp add: bench_clustering_def arg_or_def)
  with clustering_report_in_order [OF this] show ?thesis by blast
qed

end
