(* ===== verification/Spec2Isabelle.thy ===== *)
theory Spec2Isabelle
  imports Serving Lifetime Comparator Clustering_Pipe Benchmarks
begin

text \<open>
  Verification of graphify-daemon: a process that watches a vault of Markdown and Python files, keeps the
  knowledge graph derived from them in memory, and serves it to MCP clients over HTTP on the loopback interface.
  All paths below are under \<open>src/graphify_daemon/\<close>.

  How the program works. \<open>daemon.py\<close> wires the parts. A file-system event becomes a \<open>FileChange\<close> in the
  watcher's queue (\<open>vault_compiler/batching.py\<close>); when the debounce timer expires the queue becomes a
  \<open>Batch\<close>. Under the coordinator's lock the batch is extracted into the cache (\<open>extraction.py\<close>),
  mirrored into the SQLite index (\<open>artifact_lifecycle/vault_index.py\<close>), built into a graph and published as
  the next immutable snapshot (\<open>snapshot.py\<close>). The slow cadence then decides whether to cluster the graph in a
  subprocess (\<open>clustering.py\<close>) and write the disk artifacts, else an idle timer is left running. Tool calls read
  the current snapshot, through an LRU cache for \<open>query_graph\<close>. \<open>shutdown\<close> rejects events, drains the
  queue, waits for the lock, persists and closes.

  Theories, in the order of their imports:
  \<^item> \<open>Prelude\<close>: Python strings, dictionaries, exceptions as sums, JSON values, statement lists (\<open>run_all\<close>).
    \<open>Interfaces\<close>: the locales \<open>kv_store\<close> (interpreted by the extraction cache and the index rows),
    \<open>memo_cache\<close> (by the query cache), \<open>transition_system\<close> (by the daemon's steps, the threads, the server with its calls, the life of
    an installation, and the rejected clustering protocol) and \<open>terminating_system\<close> (by the clustering protocol).
    \<open>Py_Numbers\<close>, \<open>Utf8\<close>: \<open>int(s)\<close>, \<open>str(i)\<close>, float percentages, UTF-8.
  \<^item> \<open>Vault_Paths\<close>: \<open>paths.py\<close>, \<open>vault_compiler/exclusions.py\<close>. A path is a root and components; the file
    system an operation sees is a record \<open>world\<close> of functions. What is excluded, and that sanitised text
    does not contain the vault's path.
  \<^item> \<open>Metrics_Registry\<close>, \<open>Observability\<close>: \<open>artifact_lifecycle/metrics.py\<close>. The endpoint's queue depth is the
    queue's length, its latencies are percentiles of the last calls.
  \<^item> \<open>Owner_Only\<close>: \<open>artifact_lifecycle/security.py\<close> and a disk of directories, files and permission bits, with the errors
    of \<open>mkdir\<close>, \<open>open\<close> and \<open>chmod\<close> when something is missing or in the way.
  \<^item> \<open>Batching\<close>: \<open>vault_compiler/batching.py\<close>; timers are entries of a table, numbered as they are started.
  \<^item> \<open>Vault_Extraction\<close>: \<open>vault_compiler/extraction.py\<close>. A batch is a list of writes to the cache; failures are isolated; save
    and load are inverse.
  \<^item> \<open>Snapshots\<close>: \<open>snapshot.py\<close>, \<open>adapters/graphify_query.py\<close>, \<open>health.py\<close>. graphify and networkx are the fields of
    the record \<open>lib\<close>, an argument of whatever uses them.
  \<^item> \<open>Clustering\<close>, \<open>Clustering_Pipe\<close>: \<open>vault_compiler/clustering.py\<close>, first as functions of what the child does, then
    the queue handshake as a step relation: reading before joining always finishes, joining first can block for good.
  \<^item> \<open>Slow_Cadence\<close>: \<open>slow_cadence.py\<close>, \<open>cadence.py\<close>, \<open>graph_artifacts.py\<close>.
  \<^item> \<open>Cold_Start\<close>: \<open>artifact_lifecycle/cold_start.py\<close>: reconciliation with the vault, and that it is idempotent.
  \<^item> \<open>Vault_Index\<close>: \<open>artifact_lifecycle/vault_index.py\<close>; the table is a dictionary of rows, a batch is one transaction.
    The index refines the cache: after a batch its rows follow the cache's entries.
  \<^item> \<open>Query_Cache\<close>, \<open>Tools\<close>, \<open>Dispatch\<close>: \<open>graph_query_api/query_cache.py\<close> and \<open>tools.py\<close>: the seven tools, truncation,
    validation, error results; a cached answer is the uncached one.
  \<^item> \<open>Transport\<close>: \<open>graph_query_api/transport.py\<close>: the API-key gate and the refusal to start unprotected.
  \<^item> \<open>Daemon\<close>: \<open>daemon.py\<close>, \<open>artifact_lifecycle/shutdown.py\<close>: all components in one record, \<open>_compile_batch\<close>, the idle
    cycle, \<open>shutdown\<close>, each as a function; the invariant over any run of operations.
  \<^item> \<open>Daemon_Threads\<close>: the same operations run by the observer, the timer threads and the main thread. No change is lost
    or repeated between threads, pending changes get flushed, shutdown does not deadlock, and what it persists.
  \<^item> \<open>Serving\<close>: \<open>graph_query_api/tools.py\<close> under concurrency: a call is cut at its \<open>await\<close> and interleaved with other
    calls, cancellations and the stages of the writer. Answers are those of the snapshot a call began with, reads never go
    back, later calls see what was published, and the reported hit rate counts every lookup once.
  \<^item> \<open>Startup\<close>: \<open>logging_config.py\<close>, and \<open>main\<close> with its environment variables, routes and signal handler.
  \<^item> \<open>Signals\<close>: \<open>run_forever\<close> with the moment of a signal, and \<open>shutdown\<close> as the list of its statements, which a second
    signal cuts short. \<open>Restart\<close>: the next process, on the disk the last one left: it resumes from the saved cache, and
    never comes up again on a cache file that was cut off while it was written.
  \<^item> \<open>Lifetime\<close>: any number of processes one after the other on one disk and one index, each started, run by its threads and
    ended, between two steps, inside a compilation or between two artifact writes. What the next start relies on is kept by all of them, so every start
    reconciles a loadable cache with the vault, or fails for a reason it gives.
  \<^item> \<open>Comparator\<close>: \<open>migration/comparator.py\<close>. \<open>Synthetic_Graph\<close>, \<open>Benchmarks\<close>: \<open>benchmarks/\<close> of the repository, the graph that
    is measured, the measurement, and the figures reported.
  \<^item> This theory: from \<open>main\<close> to any state the threads can reach.

  Conventions. An operation that raises returns \<open>Inl\<close> of the exception together with the state it leaves. Clock readings,
  the vault, the clustering child and third-party results are arguments. Times and modification times are real numbers;
  integers are unbounded as in Python. Every function of the model is total, without fuel: loops run over lists. The
  clustering protocol, which may block in the code, is a step relation; that it finishes is proved with a measure.

  Not modelled: the mcp \<open>Server\<close> object, Starlette's routing and lifespan, \<open>_MCPASGIApp\<close> and uvicorn (third-party objects the code
  assembles; their inputs are modelled); log records other than those a property is about; SQLite's WAL and locking between
  processes; log rotation; signals inside one of the compile stages of \<open>shutdown\<close>; \<open>Signals\<close> is sequential (the other threads are
  daemon threads, so where a signal ends the main thread they stop too, in one of the states \<open>Daemon_Threads\<close> reaches);
  the 5-second bound of uvicorn's own shutdown; failures of the operating system (no permission, no space, an
  unwritable device) and of SQLite itself other than those named; what stands in the way of \<open>mkdir\<close> and \<open>open\<close> is modelled. \<open>str.lower\<close> and \<open>repr\<close> of arbitrary text are parameters where a tool's answer depends on
  them; \<open>str.upper\<close> of a log level and \<open>int(s)\<close> are exact on what they are compared with, and on ASCII text. Two daemons
  running on one output directory at once are not modelled. Of the benchmark
  scripts the command line and the rounding of what is printed are left out; the tests are not part of the program.
\<close>

section \<open>From start-up to any later moment\<close>

lemma prepared_just_started:
  assumes "main_prepare L mi s = (p, Inr (cf, dm))"
  shows "just_started dm"
proof -
  obtain d dm0 dm1 where i: "init_daemon cf (mi_stored mi) (mi_now mi) d = (disk_state dm0, Inr dm0)"
    and c: "daemon_cold_start L cf (mi_world mi) dm0 = (dm1, Inr ())" and dm: "dm = start_daemon dm1"
    using prepared(3) [OF assms] by blast
  have "watch dm1 = watch dm0" "index dm1 = index dm0"
    using cold_start_frame(1,2) [of L cf "mi_world mi" dm0] c by simp_all
  moreover have "watch dm0 = new_watcher (cf_root cf) (cf_debounce_ms cf) (cf_nested cf) (cf_pending_warn cf)" "conn_open (index dm0)"
    using arg_cong [OF init_daemon_result [OF i], of watch] arg_cong [OF init_daemon_result [OF i], of index] by simp_all
  ultimately show ?thesis
    using prepared_running [OF assms] by (simp add: just_started_def dm start_daemon_def start_watcher_def new_watcher_def)
qed

lemma prepared_inv:
  assumes "main_prepare L mi s = (p, Inr (cf, dm))" "\<forall>rs. mi_stored mi = Some rs \<longrightarrow> dict_ok rs"
    and "\<forall>c. cache_load (graph_cache_json (cf_paths cf)) (disk_state dm) = Inr c \<longrightarrow> cache_ok c"
  shows "daemon_inv L dm \<and> current (holder dm) \<noteq> None"
proof -
  obtain d dm0 dm1 where i: "init_daemon cf (mi_stored mi) (mi_now mi) d = (disk_state dm0, Inr dm0)"
    and c: "daemon_cold_start L cf (mi_world mi) dm0 = (dm1, Inr ())" and dm: "dm = start_daemon dm1"
    using prepared(3) [OF assms(1)] by blast
  have "daemon_init cf dm0" unfolding daemon_init_def using i assms(2) by blast
  from daemon_init_inv(1) [OF this] have "daemon_inv L dm0" .
  moreover have "disk_state dm0 = disk_state dm"
    using cold_start_frame(3) [of L cf "mi_world mi" dm0] c by (simp add: dm start_daemon_def)
  ultimately have "daemon_inv L dm1"
    using daemon_cold_start_safe [OF c] assms(3) by simp
  with cold_start_publishes [OF c] show ?thesis by (simp add: dm start_daemon_def)
qed

text \<open>C1. From start-up to any later moment the daemon serves: once \<open>main\<close> has prepared and started it, in every state the
  interleaved threads can reach, during shutdown too, the invariant of all components holds, \<open>/health\<close> says ready,
  and the served snapshot is the first one or a later one, with its index.\<close>

theorem started_daemon_always_serves:
  assumes "main_prepare L mi s = (p, Inr (cf, dm))" "\<forall>rs. mi_stored mi = Some rs \<longrightarrow> dict_ok rs"
    and "\<forall>c. cache_load (graph_cache_json (cf_paths cf)) (disk_state dm) = Inr c \<longrightarrow> cache_ok c"
    and "(thread_step L cf)\<^sup>*\<^sup>* (threads_start dm) t"
  shows "daemon_inv L (dmn t) \<and> ready (health_route (dmn t))
    \<and> (\<exists>first now. current (holder dm) = Some first \<and> current (holder (dmn t)) = Some now \<and> version first \<le> version now)
    \<and> threads_inv t"
proof -
  have d: "dmn (threads_start dm) = dm" by (simp add: threads_start_def)
  from prepared_inv [OF assms(1-3)] have i: "daemon_inv L dm" and c: "current (holder dm) \<noteq> None" by simp_all
  from threads_safe [OF assms(4)] i have t: "daemon_inv L (dmn t)" "later_reads dm (dmn t)" by (simp_all add: d)
  with c obtain f n where fn: "current (holder dm) = Some f" "current (holder (dmn t)) = Some n"
    by (auto simp: later_reads_def)
  moreover have "version f \<le> version n"
    using i t fn by (auto simp: daemon_inv_def later_reads_def holder_ok_def)
  moreover have "threads_init (threads_start dm)"
    using prepared_just_started [OF assms(1)] by (simp add: threads_init_def d)
  from threads.reachable_inv [OF this assms(4)] have "threads_inv t" .
  ultimately show ?thesis using t by (simp add: health_route_def health_check_def)
qed

theorem started_daemon_always_serves_witness:
  "\<exists>p cf dm. main_prepare sample_lib (sample_inputs (pstr ''8787'')) (sample_disk, sample_logger) = (p, Inr (cf, dm))
     \<and> ready (health_route dm)"
proof -
  obtain p cf dm where m: "main_prepare sample_lib (sample_inputs (pstr ''8787'')) (sample_disk, sample_logger) = (p, Inr (cf, dm))"
    and f: "map_of (d_files (disk_state dm)) (graph_cache_json (cf_paths cf)) = None"
    using sample_prepared by blast
  have s: "\<forall>rs. mi_stored (sample_inputs (pstr ''8787'')) = Some rs \<longrightarrow> dict_ok rs" by (simp add: sample_inputs_def)
  have l: "\<forall>c. cache_load (graph_cache_json (cf_paths cf)) (disk_state dm) = Inr c \<longrightarrow> cache_ok c"
    by (simp add: cache_load_def read_json_def f)
  from started_daemon_always_serves [OF m s l rtranclp.rtrancl_refl] m show ?thesis by (auto simp: threads_start_def)
qed

lemma prepared_queries:
  assumes "main_prepare L mi s = (p, Inr (cf, dm))"
  shows "queries dm = new_query_cache (cf_lru_size cf)"
proof -
  obtain d dm0 dm1 where i: "init_daemon cf (mi_stored mi) (mi_now mi) d = (disk_state dm0, Inr dm0)"
    and c: "daemon_cold_start L cf (mi_world mi) dm0 = (dm1, Inr ())" and dm: "dm = start_daemon dm1"
    using prepared(3) [OF assms] by blast
  from cold_start_frame(4) [of L cf "mi_world mi" dm0] c have "queries dm1 = queries dm0" by simp
  with arg_cong [OF init_daemon_result [OF i], of queries] show ?thesis by (simp add: dm start_daemon_def)
qed

text \<open>The index is not reconciled on start-up: whatever happened to the vault while the daemon was down, the rows that
  \<open>vault_index.db\<close> held are the rows it holds when the watcher starts.\<close>

theorem index_starts_as_stored:
  assumes "main_prepare L mi s = (p, Inr (cf, dm))"
  shows "files_table (index dm) = Some (case mi_stored mi of None \<Rightarrow> [] | Some rs \<Rightarrow> rs)"
proof -
  obtain d dm0 dm1 where i: "init_daemon cf (mi_stored mi) (mi_now mi) d = (disk_state dm0, Inr dm0)"
    and c: "daemon_cold_start L cf (mi_world mi) dm0 = (dm1, Inr ())" and dm: "dm = start_daemon dm1"
    using prepared(3) [OF assms] by blast
  from cold_start_frame(2) [of L cf "mi_world mi" dm0] c have "index dm1 = index dm0" by simp
  with arg_cong [OF init_daemon_result [OF i], of index] show ?thesis by (simp add: dm start_daemon_def)
qed

theorem index_starts_as_stored_witness:
  "\<exists>p cf dm. main_prepare sample_lib (sample_inputs (pstr ''8787'')) (sample_disk, sample_logger) = (p, Inr (cf, dm))
     \<and> files_table (index dm) = Some []"
proof -
  obtain p cf dm where m: "main_prepare sample_lib (sample_inputs (pstr ''8787'')) (sample_disk, sample_logger) = (p, Inr (cf, dm))"
    using sample_prepared by blast
  have "mi_stored (sample_inputs (pstr ''8787'')) = None" by (simp add: sample_inputs_def)
  with index_starts_as_stored [OF m] m show ?thesis by simp
qed

text \<open>C2. From start-up on, every tool call that is answered is answered from a published snapshot, and rightly: whatever the writer
  does and however many calls run at once, no client of a daemon that \<open>main\<close> has prepared is told that the graph is not ready, and
  each answer is what an uncached execution gives on the snapshot that was current when its call began.\<close>

theorem started_daemon_answers_calls:
  assumes "main_prepare L mi s = (p, Inr (cf, dm))" "\<forall>rs. mi_stored mi = Some rs \<longrightarrow> dict_ok rs"
    and "\<forall>c. cache_load (graph_cache_json (cf_paths cf)) (disk_state dm) = Inr c \<longrightarrow> cache_ok c"
    and "filters_checked L" "empty_filters_neutral L" "(serving_step L cf)\<^sup>*\<^sup>* (serving_start dm) t" "(i, r) \<in> set (sv_answers t)"
  shows "\<exists>snap. rq_snapshot (sv_begun t ! i) = Some snap
    \<and> r = direct_answer L (rq_name (sv_begun t ! i)) (rq_params (sv_begun t ! i)) (Some snap)"
proof -
  from prepared_inv [OF assms(1-3)] have i: "daemon_inv L dm" and c: "current (holder dm) \<noteq> None" by simp_all
  have "qentries (queries dm) = []" by (simp add: prepared_queries [OF assms(1)] new_query_cache_def)
  from ready_steps [OF assms(6,4,5) serving_start_inv [OF i this]] c have "always_ready t" "serving_inv L t"
    by (simp_all add: always_ready_def serving_start_def)
  then have k: "i < length (sv_begun t)"
    "r = direct_answer L (rq_name (sv_begun t ! i)) (rq_params (sv_begun t ! i)) (rq_snapshot (sv_begun t ! i))"
    using assms(7) by (auto simp: serving_inv_def answers_ok_def)
  moreover have "rq_snapshot (sv_begun t ! i) \<noteq> None"
    using \<open>always_ready t\<close> nth_mem [OF k(1)] by (simp add: always_ready_def)
  ultimately show ?thesis by fastforce
qed

theorem started_daemon_answers_calls_witness:
  "\<exists>p cf dm t snap r. main_prepare sample_lib (sample_inputs (pstr ''8787'')) (sample_disk, sample_logger) = (p, Inr (cf, dm))
     \<and> (serving_step sample_lib cf)\<^sup>*\<^sup>* (serving_start dm) t \<and> sv_answers t = [(0, r)] \<and> rq_snapshot (sv_begun t ! 0) = Some snap"
proof -
  obtain p cf dm where m: "main_prepare sample_lib (sample_inputs (pstr ''8787'')) (sample_disk, sample_logger) = (p, Inr (cf, dm))"
    and f: "map_of (d_files (disk_state dm)) (graph_cache_json (cf_paths cf)) = None"
    using sample_prepared by blast
  have s: "\<forall>rs. mi_stored (sample_inputs (pstr ''8787'')) = Some rs \<longrightarrow> dict_ok rs" by (simp add: sample_inputs_def)
  have l: "\<forall>c. cache_load (graph_cache_json (cf_paths cf)) (disk_state dm) = Inr c \<longrightarrow> cache_ok c"
    by (simp add: cache_load_def read_json_def f)
  have "pstr ''drop_table'' \<notin> set (keys TOOL_DEFINITIONS_BY_NAME)" unfolding tool_keys by simp
  then have "map_of TOOL_DEFINITIONS_BY_NAME (pstr ''drop_table'') = None" by (simp only: map_of_None_iff not_False_eq_True)
  then obtain r where b: "begin_call sample_lib (pstr ''drop_table'') None (current (holder (sv_daemon (serving_start dm))))
      (queries (sv_daemon (serving_start dm))) = (Inl (r, None), queries (sv_daemon (serving_start dm)))"
    by (simp add: begin_call_def)
  note st = sv_answer_at_once [OF refl b, of cf 0 0]
  from started_daemon_answers_calls [OF m s l sample_lib_laws r_into_rtranclp [of "serving_step sample_lib cf", OF st], of 0 r]
  obtain snap where "current (holder dm) = Some snap" by (auto simp: serving_start_def)
  with m r_into_rtranclp [of "serving_step sample_lib cf", OF st] show ?thesis
    by (intro exI conjI) (assumption | simp add: serving_start_def)+
qed

end
